(* ===== verification/Prelude.thy ===== *)
theory Prelude
  imports Main "HOL-Library.Word"
begin

text \<open>
  Shared vocabulary of the development: the machine types, the readings of Go's clock, string
  and slice operations that several components use, the bundles of facts their proofs share, and
  the locale of a deterministic machine with an invariant.

  A Go \<open>string\<close> is a sequence of bytes, so it is modelled by \<^typ>\<open>string\<close>, whose characters
  are bytes; a Unicode character is its UTF-8 bytes.  \<open>time.Time\<close> and \<open>time.Duration\<close> are integers
  counting nanoseconds.
\<close>

named_theorems op_defs \<open>definitions of the operations, unfolded in step proofs\<close>
named_theorems inv_rules \<open>preservation of the component invariants by single operations\<close>

type_synonym u8 = "8 word"
type_synonym u16 = "16 word"
type_synonym u32 = "32 word"
type_synonym u64 = "64 word"
type_synonym bytes = "u8 list"
type_synonym time = int
type_synonym duration = int
type_synonym go_error = string

subsection \<open>Durations\<close>

definition millisecond :: duration where
  "millisecond = 1000000"

definition second :: duration where
  "second = 1000 * millisecond"

definition minute :: duration where
  "minute = 60 * second"

lemma millisecond_pos [simp]: "0 < millisecond"
  by (simp add: millisecond_def)

lemma second_pos [simp]: "0 < second"
  by (simp add: second_def)

lemma minute_pos [simp]: "0 < minute"
  by (simp add: minute_def)

text \<open>The zero \<open>time.Time\<close>, 1 January of year 1, counted from the Unix epoch.\<close>

definition zero_time :: time where
  "zero_time = - (62135596800 * second)"

subsection \<open>Keeping the last elements of a slice\<close>

text \<open>\<open>xs[len(xs)-n:]\<close> when \<open>xs\<close> is longer than \<open>n\<close>, and \<open>xs\<close> itself otherwise.\<close>

definition keep_last :: "nat \<Rightarrow> 'a list \<Rightarrow> 'a list" where
  "keep_last n xs = drop (length xs - n) xs"

lemma length_keep_last [simp]: "length (keep_last n xs) = min n (length xs)"
  by (simp add: keep_last_def)

lemma keep_last_short [simp]: "length xs \<le> n \<Longrightarrow> keep_last n xs = xs"
  by (simp add: keep_last_def)

lemma set_keep_last: "set (keep_last n xs) \<subseteq> set xs"
  by (simp add: keep_last_def set_drop_subset)

lemma in_keep_lastD: "x \<in> set (keep_last n xs) \<Longrightarrow> x \<in> set xs"
  using set_keep_last by fast

lemma keep_last_snoc: "0 < n \<Longrightarrow> keep_last n (xs @ [x]) = keep_last (n - 1) xs @ [x]"
  by (cases "n \<le> Suc (length xs)") (simp_all add: keep_last_def Suc_diff_le)

lemma sorted_wrt_keep_last: "sorted_wrt P xs \<Longrightarrow> sorted_wrt P (keep_last n xs)"
  by (simp add: keep_last_def sorted_wrt_drop)

lemma keep_last_suffix: "\<exists>ys. xs = ys @ keep_last n xs"
  by (metis append_take_drop_id keep_last_def)

lemma keep_last_append: "keep_last n (keep_last n xs @ ys) = keep_last n (xs @ ys)"
proof -
  obtain us where "xs = us @ keep_last n xs" using keep_last_suffix by blast
  moreover have "keep_last n (vs @ ys) = keep_last n ((us @ vs) @ ys)"
    if "us = [] \<or> n \<le> length vs" for us vs :: "'a list"
    using that by (auto simp: keep_last_def)
  moreover have "us' = [] \<or> n \<le> length (keep_last n xs)" if "xs = us' @ keep_last n xs" for us'
    using that by (metis append_self_conv2 keep_last_short length_keep_last min.absorb1 nat_le_linear)
  ultimately show ?thesis by metis
qed

subsection \<open>Byte strings\<close>

text \<open>\<open>strings.HasPrefix\<close>, \<open>strings.Contains\<close> and \<open>strings.Index\<close>.\<close>

fun has_prefix :: "'a list \<Rightarrow> 'a list \<Rightarrow> bool" where
  "has_prefix s [] = True"
| "has_prefix [] (p # ps) = False"
| "has_prefix (c # cs) (p # ps) = (c = p \<and> has_prefix cs ps)"

fun index_of :: "'a list \<Rightarrow> 'a list \<Rightarrow> nat option" where
  "index_of [] p = (if p = [] then Some 0 else None)"
| "index_of (c # cs) p =
     (if has_prefix (c # cs) p then Some 0 else map_option Suc (index_of cs p))"

definition contains :: "'a list \<Rightarrow> 'a list \<Rightarrow> bool" where
  "contains s p = (index_of s p \<noteq> None)"

lemma has_prefix_append [simp]: "has_prefix (p @ s) p"
  by (induction p) auto

lemma has_prefix_iff: "has_prefix s p \<longleftrightarrow> (\<exists>t. s = p @ t)"
  by (induction s p rule: has_prefix.induct) auto

lemma index_of_Some: "index_of s p = Some i \<Longrightarrow> \<exists>a b. s = a @ p @ b \<and> length a = i"
proof (induction s p arbitrary: i rule: index_of.induct)
  case (1 p)
  then show ?case by (auto split: if_splits)
next
  case (2 c cs p)
  show ?case
  proof (cases "has_prefix (c # cs) p")
    case True
    with 2(2) show ?thesis by (auto simp: has_prefix_iff)
  next
    case False
    with 2(2) obtain j where "index_of cs p = Some j" "i = Suc j" by auto
    with 2(1)[OF False] show ?thesis by (metis append_Cons length_Cons)
  qed
qed

lemma contains_middle: "contains (a @ p @ b) p"
proof (induction a)
  case Nil
  then show ?case by (cases "p @ b") (auto simp: contains_def, metis has_prefix_append)
next
  case (Cons c a)
  then show ?case by (auto simp: contains_def)
qed

lemma contains_iff: "contains s p \<longleftrightarrow> (\<exists>a b. s = a @ p @ b)"
proof
  assume "contains s p"
  then obtain i where "index_of s p = Some i" by (auto simp: contains_def)
  then show "\<exists>a b. s = a @ p @ b" by (blast dest: index_of_Some)
next
  assume "\<exists>a b. s = a @ p @ b"
  then show "contains s p" using contains_middle by blast
qed

text \<open>\<open>strings.ContainsAny\<close> over a set of ASCII characters.\<close>

definition contains_any :: "string \<Rightarrow> char list \<Rightarrow> bool" where
  "contains_any s cs = (\<exists>c \<in> set s. c \<in> set cs)"

text \<open>
  The UTF-8 encodings of the characters \<open>unicode.IsSpace\<close> accepts, which \<open>strings.TrimSpace\<close> and
  \<open>strings.Fields\<close> treat as white space.
\<close>

definition white_space :: "string list" where
  "white_space =
     [[CHR 0x09], [CHR 0x0A], [CHR 0x0B], [CHR 0x0C], [CHR 0x0D], [CHR 0x20],
      [CHR 0xC2, CHR 0x85], [CHR 0xC2, CHR 0xA0], [CHR 0xE1, CHR 0x9A, CHR 0x80],
      [CHR 0xE2, CHR 0x80, CHR 0x80], [CHR 0xE2, CHR 0x80, CHR 0x81], [CHR 0xE2, CHR 0x80, CHR 0x82],
      [CHR 0xE2, CHR 0x80, CHR 0x83], [CHR 0xE2, CHR 0x80, CHR 0x84], [CHR 0xE2, CHR 0x80, CHR 0x85],
      [CHR 0xE2, CHR 0x80, CHR 0x86], [CHR 0xE2, CHR 0x80, CHR 0x87], [CHR 0xE2, CHR 0x80, CHR 0x88],
      [CHR 0xE2, CHR 0x80, CHR 0x89], [CHR 0xE2, CHR 0x80, CHR 0x8A], [CHR 0xE2, CHR 0x80, CHR 0xA8],
      [CHR 0xE2, CHR 0x80, CHR 0xA9], [CHR 0xE2, CHR 0x80, CHR 0xAF], [CHR 0xE2, CHR 0x81, CHR 0x9F],
      [CHR 0xE3, CHR 0x80, CHR 0x80]]"

fun trim_left :: "string list \<Rightarrow> string \<Rightarrow> string" where
  "trim_left ws [] = []"
| "trim_left ws (c # cs) =
     (case find (\<lambda>w. has_prefix (c # cs) w) ws of
        None \<Rightarrow> c # cs
      | Some w \<Rightarrow> trim_left ws (drop (length w - 1) cs))"

definition trim_space :: "string \<Rightarrow> string" where
  "trim_space s = rev (trim_left (map rev white_space) (rev (trim_left white_space s)))"

text \<open>\<open>strings.Fields\<close>: the maximal runs of bytes that are not white space.\<close>

fun fields_acc :: "string \<Rightarrow> string \<Rightarrow> string list" where
  "fields_acc acc [] = (if acc = [] then [] else [rev acc])"
| "fields_acc acc (c # cs) =
     (case find (\<lambda>w. has_prefix (c # cs) w) white_space of
        None \<Rightarrow> fields_acc (c # acc) cs
      | Some w \<Rightarrow>
          (if acc = [] then [] else [rev acc]) @ fields_acc [] (drop (length w - 1) cs))"

definition fields :: "string \<Rightarrow> string list" where
  "fields s = fields_acc [] s"

text \<open>
  \<open>strings.ToLower\<close> on ASCII letters, and on the two other characters it sends to an ASCII letter
  (U+0130 to \<open>i\<close>, the Kelvin sign U+212A to \<open>k\<close>); other non-ASCII characters stay as they are.
\<close>

fun set_bit5 :: "char \<Rightarrow> char" where
  "set_bit5 (Char b0 b1 b2 b3 b4 b5 b6 b7) = Char b0 b1 b2 b3 b4 True b6 b7"

definition lower_char :: "char \<Rightarrow> char" where
  "lower_char c = (if c \<in> set ''ABCDEFGHIJKLMNOPQRSTUVWXYZ'' then set_bit5 c else c)"

fun to_lower :: "string \<Rightarrow> string" where
  "to_lower [] = []"
| "to_lower (c # cs) =
     (if has_prefix (c # cs) [CHR 0xE2, CHR 0x84, CHR 0xAA] then CHR ''k'' # to_lower (drop 2 cs)
      else if has_prefix (c # cs) [CHR 0xC4, CHR 0xB0] then CHR ''i'' # to_lower (drop 1 cs)
      else lower_char c # to_lower cs)"

text \<open>\<open>strings.Split\<close> on a one-byte separator.\<close>

fun split_on :: "char \<Rightarrow> string \<Rightarrow> string list" where
  "split_on d [] = [[]]"
| "split_on d (c # cs) =
     (if c = d then [] # split_on d cs
      else (case split_on d cs of [] \<Rightarrow> [[c]] | w # ws \<Rightarrow> (c # w) # ws))"

lemma split_on_nonempty [simp]: "split_on d s \<noteq> []"
  by (induction s) (auto split: list.splits)

subsection \<open>Decimal numbers\<close>

text \<open>
  \<open>strconv.ParseUint(s, 10, 64)\<close>: digits only, and an error when the value does not fit in 64 bits.
  \<open>strconv.FormatUint\<close> and \<open>strconv.Itoa\<close> write the shortest decimal form.
\<close>

definition digit_char :: "nat \<Rightarrow> char" where
  "digit_char d = ''0123456789'' ! d"

definition digit_val :: "char \<Rightarrow> nat option" where
  "digit_val c = find (\<lambda>d. digit_char d = c) [0, 1, 2, 3, 4, 5, 6, 7, 8, 9]"

fun digits_val :: "nat \<Rightarrow> string \<Rightarrow> nat option" where
  "digits_val acc [] = Some acc"
| "digits_val acc (c # cs) =
     (case digit_val c of None \<Rightarrow> None | Some d \<Rightarrow> digits_val (10 * acc + d) cs)"

definition parse_uint64 :: "string \<Rightarrow> u64 option" where
  "parse_uint64 s =
     (if s = [] then None
      else (case digits_val 0 s of
              None \<Rightarrow> None
            | Some n \<Rightarrow> if n < 2 ^ 64 then Some (word_of_nat n) else None))"

fun format_nat :: "nat \<Rightarrow> string" where
  "format_nat n = (if n < 10 then [digit_char n] else format_nat (n div 10) @ [digit_char (n mod 10)])"

declare format_nat.simps [simp del]

definition format_int :: "int \<Rightarrow> string" where
  "format_int i = (if i < 0 then CHR ''-'' # format_nat (nat (- i)) else format_nat (nat i))"

lemma digit_val_char [simp]: "d < 10 \<Longrightarrow> digit_val (digit_char d) = Some d"
  by (auto simp: digit_val_def digit_char_def numeral_eq_Suc less_Suc_eq)

lemma digits_val_append:
  "digits_val acc (s @ t) = (case digits_val acc s of None \<Rightarrow> None | Some n \<Rightarrow> digits_val n t)"
  by (induction s arbitrary: acc) (auto split: option.splits)

lemma format_nat_nonempty [simp]: "format_nat n \<noteq> []"
  by (subst format_nat.simps) simp

lemma digits_val_format: "digits_val 0 (format_nat n) = Some n"
proof (induction n rule: format_nat.induct)
  case (1 n)
  show ?case
    by (cases "n < 10") (use 1 in \<open>simp_all add: format_nat.simps[of n] digits_val_append\<close>)
qed

lemma parse_format_uint: "parse_uint64 (format_nat (unat w)) = Some w"
proof -
  have "unat w < 2 ^ 64" using unsigned_less[of w] by simp
  then show ?thesis by (simp add: parse_uint64_def digits_val_format)
qed

text \<open>\<open>strconv.Atoi\<close>: an optional sign and digits, with a value that fits in a signed 64-bit integer.\<close>

definition atoi :: "string \<Rightarrow> int option" where
  "atoi s =
     (let (neg, ds) =
        (case s of
           [] \<Rightarrow> (False, [])
         | c # cs \<Rightarrow> if c = CHR ''-'' then (True, cs) else if c = CHR ''+'' then (False, cs)
                     else (False, s)) in
      if ds = [] then None
      else (case digits_val 0 ds of
              None \<Rightarrow> None
            | Some n \<Rightarrow>
                (let i = (if neg then - int n else int n) in
                 if - (2 ^ 63) \<le> i \<and> i < 2 ^ 63 then Some i else None)))"

lemma digit_char_not_sign: "d < 10 \<Longrightarrow> digit_char d \<noteq> CHR ''-'' \<and> digit_char d \<noteq> CHR ''+''"
  by (auto simp: digit_char_def numeral_eq_Suc less_Suc_eq)

lemma format_nat_hd: "hd (format_nat n) \<noteq> CHR ''-'' \<and> hd (format_nat n) \<noteq> CHR ''+''"
proof (induction n rule: format_nat.induct)
  case (1 n)
  show ?case
  proof (cases "n < 10")
    case True
    then show ?thesis using digit_char_not_sign by (simp add: format_nat.simps[of n])
  next
    case False
    with 1 show ?thesis by (simp add: format_nat.simps[of n])
  qed
qed

lemma atoi_format_int:
  assumes "- (2 ^ 63) \<le> i" and "i < 2 ^ 63"
  shows "atoi (format_int i) = Some i"
proof (cases "i < 0")
  case True
  with assms show ?thesis by (simp add: atoi_def format_int_def digits_val_format)
next
  case False
  obtain c cs where c: "format_nat (nat i) = c # cs" by (cases "format_nat (nat i)") auto
  then have "c \<noteq> CHR ''-''" "c \<noteq> CHR ''+''" using format_nat_hd[of "nat i"] by auto
  moreover have "digits_val 0 (c # cs) = Some (nat i)" using digits_val_format[of "nat i"] c by simp
  ultimately show ?thesis
    using False assms c by (simp add: atoi_def format_int_def del: digits_val.simps)
qed

text \<open>Digits are not white space.\<close>

definition digits :: string where
  "digits = ''0123456789''"

lemma digit_char_digits: "d < 10 \<Longrightarrow> digit_char d \<in> set digits"
  by (simp add: digit_char_def digits_def numeral_eq_Suc less_Suc_eq) auto

lemma format_nat_digits: "set (format_nat n) \<subseteq> set digits"
proof (induction n rule: format_nat.induct)
  case (1 n)
  then show ?case
    using digit_char_digits by (cases "n < 10") (simp_all add: format_nat.simps[of n])
qed

lemma trim_left_digits:
  assumes "set s \<subseteq> set digits" and "\<forall>w \<in> set ws. w \<noteq> [] \<and> hd w \<notin> set digits"
  shows "trim_left ws s = s"
proof (cases s)
  case (Cons c cs)
  have "\<not> has_prefix (c # cs) w" if "w \<in> set ws" for w
    using assms that Cons by (cases w) auto
  then have "find (\<lambda>w. has_prefix (c # cs) w) ws = None" by (simp add: find_None_iff)
  then show ?thesis by (simp add: Cons)
qed simp

lemma trim_space_digits: "set s \<subseteq> set digits \<Longrightarrow> trim_space s = s"
  unfolding trim_space_def
  by (subst (2) trim_left_digits; (subst trim_left_digits)?)
    (simp_all add: white_space_def digits_def)

subsection \<open>64-bit counters\<close>

lemma unat_plus_one: "unat (w::u64) + 1 < 2 ^ 64 \<Longrightarrow> unat (w + 1) = unat w + 1"
  by (simp add: unat_word_ariths)

lemma unat_plus_of_nat:
  "unat (w::u64) + n < 2 ^ 64 \<Longrightarrow> unat (w + word_of_nat n) = unat w + n"
  by (simp add: unat_word_ariths unat_of_nat)

subsection \<open>Machines with an invariant\<close>

text \<open>
  Several components are deterministic machines: a state, events, and a step function.  Their
  clients run sequences of events and rely on an invariant every step keeps.  The lemmas of the
  locale lift a component's one-step facts to runs; each component interprets it with its own
  operations.
\<close>

fun run :: "('s \<Rightarrow> 'e \<Rightarrow> 's) \<Rightarrow> 's \<Rightarrow> 'e list \<Rightarrow> 's" where
  "run step s [] = s"
| "run step s (e # es) = run step (step s e) es"

lemma run_append [simp]: "run step s (es @ fs) = run step (run step s es) fs"
  by (induction es arbitrary: s) auto

text \<open>A machine whose steps also return a value: the values of a run, and its final state.\<close>

fun collect :: "('s \<Rightarrow> 'e \<Rightarrow> 'o \<times> 's) \<Rightarrow> 's \<Rightarrow> 'e list \<Rightarrow> 'o list \<times> 's" where
  "collect step s [] = ([], s)"
| "collect step s (e # es) =
     (let (v, s1) = step s e; (vs, s2) = collect step s1 es in (v # vs, s2))"

lemma collect_append:
  "collect step s (es @ fs) =
     (let (vs, s1) = collect step s es; (ws, s2) = collect step s1 fs in (vs @ ws, s2))"
  by (induction es arbitrary: s) (auto simp: Let_def split: prod.splits)

lemma length_collect [simp]: "length (fst (collect step s es)) = length es"
  by (induction es arbitrary: s) (auto simp: Let_def split_beta)

locale machine =
  fixes step :: "'s \<Rightarrow> 'e \<Rightarrow> 's"
    and inv :: "'s \<Rightarrow> bool"
  assumes step_inv: "inv s \<Longrightarrow> inv (step s e)"
begin

lemma run_inv: "inv s \<Longrightarrow> inv (run step s es)"
  by (induction es arbitrary: s) (auto intro: step_inv)

lemma run_prefix_inv: "inv s \<Longrightarrow> es = fs @ gs \<Longrightarrow> inv (run step s fs)"
  by (rule run_inv)

lemma run_stable:
  assumes "\<And>s e. inv s \<Longrightarrow> P s \<Longrightarrow> e \<in> E \<Longrightarrow> P (step s e)"
    and "inv s" and "P s" and "set es \<subseteq> E"
  shows "P (run step s es)"
  using assms(2-4)
  by (induction es arbitrary: s) (auto intro: assms(1) step_inv)

end

end
