(* ===== verification/Breaker.thy ===== *)
theory Breaker
  imports Prelude
begin

text \<open>
  The provider guard, \<open>internal/modelcb/breaker.go\<close>: one circuit breaker per provider, held by a
  manager that the offer path asks before it dials a provider and tells afterwards how the dial
  went, and that the bridge tells about streams that die early.

  A breaker's mutex makes every operation atomic, so an operation is a function from the state to
  its result and the new state.  The nil manager of the source, which disables the guard, is
  \<^const>\<open>None\<close>.  Properties: the invariant of reachable managers, the three state transitions and
  their timers, mutual exclusion of half-open probes, isolation of the providers, and a
  refinement to a three-state specification without counters that have no meaning.
\<close>

subsection \<open>Data\<close>

definition EarlyFaultWindow :: duration where
  "EarlyFaultWindow = 10 * second"

datatype cb_state = StateClosed | StateOpen | StateHalfOpen

record cb_config =
  OpenAfter :: int
  OpenFor :: duration
  HalfOpenSuccess :: int
  AuthOpenFor :: duration

record decision =
  dec_Allowed :: bool
  dec_State :: cb_state
  dec_Reason :: string
  dec_RetryAfter :: duration

record breaker =
  bk_cfg :: cb_config
  bk_state :: cb_state
  bk_reason :: string
  bk_openUntil :: time
  bk_connectFailures :: int
  bk_streamFailures :: int
  bk_success :: int
  bk_halfOpenProbeInFlight :: bool

record manager =
  mg_defaults :: cb_config
  mg_provider :: "string \<rightharpoonup> breaker"

subsection \<open>Configuration\<close>

definition normalize :: "cb_config \<Rightarrow> cb_config" where
  "normalize c =
    \<lparr>OpenAfter = (if OpenAfter c \<le> 0 then 5 else OpenAfter c),
     OpenFor = (if OpenFor c \<le> 0 then 30 * second else OpenFor c),
     HalfOpenSuccess = (if HalfOpenSuccess c \<le> 0 then 3 else HalfOpenSuccess c),
     AuthOpenFor = (if AuthOpenFor c \<le> 0 then 5 * minute else AuthOpenFor c)\<rparr>"

definition merge_config :: "cb_config \<Rightarrow> cb_config \<Rightarrow> cb_config" where
  "merge_config base ov =
    \<lparr>OpenAfter = (if OpenAfter ov > 0 then OpenAfter ov else OpenAfter base),
     OpenFor = (if OpenFor ov > 0 then OpenFor ov else OpenFor base),
     HalfOpenSuccess = (if HalfOpenSuccess ov > 0 then HalfOpenSuccess ov else HalfOpenSuccess base),
     AuthOpenFor = (if AuthOpenFor ov > 0 then AuthOpenFor ov else AuthOpenFor base)\<rparr>"

definition classify :: "go_error \<Rightarrow> string" where
  "classify err =
    (let s = to_lower err in
     if contains s ''401'' \<or> contains s ''403'' \<or> contains s ''unauthorized''
        \<or> contains s ''forbidden'' then ''auth''
     else if contains s ''timeout'' \<or> contains s ''429'' \<or> contains s ''502''
        \<or> contains s ''503'' \<or> contains s ''504'' \<or> contains s ''connection reset''
     then ''transient''
     else ''other'')"

subsection \<open>One breaker\<close>

text \<open>A new breaker: the fields the source leaves out have Go's zero values.\<close>

definition new_breaker :: "cb_config \<Rightarrow> breaker" where
  "new_breaker c =
    \<lparr>bk_cfg = c, bk_state = StateClosed, bk_reason = '''', bk_openUntil = zero_time,
     bk_connectFailures = 0, bk_streamFailures = 0, bk_success = 0,
     bk_halfOpenProbeInFlight = False\<rparr>"

definition open_breaker :: "breaker \<Rightarrow> string \<Rightarrow> time \<Rightarrow> breaker" where
  "open_breaker b reason until =
     b\<lparr>bk_state := StateOpen, bk_reason := reason, bk_openUntil := until,
       bk_connectFailures := 0, bk_streamFailures := 0, bk_success := 0\<rparr>"

text \<open>The \<open>StateHalfOpen\<close> branch of \<open>allow\<close>, which the expired \<open>StateOpen\<close> branch falls into.\<close>

definition allow_half_open :: "breaker \<Rightarrow> decision \<times> breaker" where
  "allow_half_open b =
     (if bk_halfOpenProbeInFlight b
      then (\<lparr>dec_Allowed = False, dec_State = StateHalfOpen, dec_Reason = bk_reason b,
             dec_RetryAfter = 0\<rparr>, b)
      else (\<lparr>dec_Allowed = True, dec_State = StateHalfOpen, dec_Reason = '''',
             dec_RetryAfter = 0\<rparr>, b\<lparr>bk_halfOpenProbeInFlight := True\<rparr>))"

definition breaker_allow :: "breaker \<Rightarrow> time \<Rightarrow> decision \<times> breaker" where
  "breaker_allow b now =
     (case bk_state b of
        StateClosed \<Rightarrow>
          (\<lparr>dec_Allowed = True, dec_State = StateClosed, dec_Reason = '''', dec_RetryAfter = 0\<rparr>, b)
      | StateOpen \<Rightarrow>
          (if now < bk_openUntil b
           then (\<lparr>dec_Allowed = False, dec_State = StateOpen, dec_Reason = bk_reason b,
                  dec_RetryAfter = bk_openUntil b - now\<rparr>, b)
           else allow_half_open
                  (b\<lparr>bk_state := StateHalfOpen, bk_success := 0,
                     bk_halfOpenProbeInFlight := False\<rparr>))
      | StateHalfOpen \<Rightarrow> allow_half_open b)"

definition recordSuccess :: "breaker \<Rightarrow> breaker" where
  "recordSuccess b =
     (case bk_state b of
        StateClosed \<Rightarrow> b\<lparr>bk_connectFailures := 0, bk_streamFailures := 0\<rparr>
      | StateHalfOpen \<Rightarrow>
          (let b1 = b\<lparr>bk_halfOpenProbeInFlight := False, bk_success := bk_success b + 1\<rparr> in
           if HalfOpenSuccess (bk_cfg b1) \<le> bk_success b1
           then b1\<lparr>bk_state := StateClosed, bk_reason := '''', bk_connectFailures := 0,
                   bk_streamFailures := 0, bk_success := 0\<rparr>
           else b1)
      | StateOpen \<Rightarrow> b)"

definition recordDialFailure :: "breaker \<Rightarrow> string \<Rightarrow> time \<Rightarrow> breaker" where
  "recordDialFailure b reason now =
     (let auth = (reason = ''auth'');
          openFor = (if auth then AuthOpenFor (bk_cfg b) else OpenFor (bk_cfg b)) in
      case bk_state b of
        StateHalfOpen \<Rightarrow>
          open_breaker (b\<lparr>bk_halfOpenProbeInFlight := False\<rparr>) reason (now + openFor)
      | StateClosed \<Rightarrow>
          (if auth then open_breaker b reason (now + openFor)
           else (let b1 = b\<lparr>bk_connectFailures := bk_connectFailures b + 1\<rparr> in
                 if OpenAfter (bk_cfg b1) \<le> bk_connectFailures b1
                 then open_breaker b1 reason (now + openFor)
                 else b1))
      | StateOpen \<Rightarrow> b)"

definition recordStreamFailure :: "breaker \<Rightarrow> time \<Rightarrow> breaker" where
  "recordStreamFailure b now =
     (case bk_state b of
        StateHalfOpen \<Rightarrow>
          open_breaker (b\<lparr>bk_halfOpenProbeInFlight := False\<rparr>) ''stream_early''
            (now + OpenFor (bk_cfg b))
      | StateClosed \<Rightarrow>
          (let b1 = b\<lparr>bk_streamFailures := bk_streamFailures b + 1\<rparr> in
           if OpenAfter (bk_cfg b1) \<le> bk_streamFailures b1
           then open_breaker b1 ''stream_early'' (now + OpenFor (bk_cfg b1))
           else b1)
      | StateOpen \<Rightarrow> b)"

subsection \<open>The manager\<close>

definition Manager_New :: "cb_config \<Rightarrow> (string \<rightharpoonup> cb_config) \<Rightarrow> manager" where
  "Manager_New defaults overrides =
     (let d = normalize defaults in
      \<lparr>mg_defaults = d,
       mg_provider = (\<lambda>p. map_option (\<lambda>cfg. new_breaker (normalize (merge_config d cfg)))
                            (overrides p))\<rparr>)"

definition manager_get :: "manager \<Rightarrow> string \<Rightarrow> breaker \<times> manager" where
  "manager_get m p =
     (case mg_provider m p of
        Some b \<Rightarrow> (b, m)
      | None \<Rightarrow>
          (let b = new_breaker (mg_defaults m) in
           (b, m\<lparr>mg_provider := (mg_provider m)(p \<mapsto> b)\<rparr>)))"

text \<open>Writing a provider's breaker back: the map holds a pointer, and the operation wrote through it.\<close>

definition put_breaker :: "manager \<Rightarrow> string \<Rightarrow> breaker \<Rightarrow> manager" where
  "put_breaker m p b = m\<lparr>mg_provider := (mg_provider m)(p \<mapsto> b)\<rparr>"

definition Allow :: "manager \<Rightarrow> string \<Rightarrow> time \<Rightarrow> decision \<times> manager" where
  "Allow m p now =
     (let (b, m1) = manager_get m p; (d, b1) = breaker_allow b now in (d, put_breaker m1 p b1))"

definition Record :: "manager \<Rightarrow> string \<Rightarrow> go_error option \<Rightarrow> time \<Rightarrow> manager" where
  "Record m p err now =
     (let (b, m1) = manager_get m p in
      case err of
        None \<Rightarrow> put_breaker m1 p (recordSuccess b)
      | Some e \<Rightarrow> put_breaker m1 p (recordDialFailure b (classify e) now))"

definition skipped :: "manager option \<Rightarrow> string \<Rightarrow> bool" where
  "skipped m p = (m = None \<or> p = ''loopback'')"

definition AllowDial :: "manager option \<Rightarrow> string \<Rightarrow> time \<Rightarrow> decision \<times> manager option" where
  "AllowDial m p now =
     (if skipped m p
      then (\<lparr>dec_Allowed = True, dec_State = StateClosed, dec_Reason = '''', dec_RetryAfter = 0\<rparr>, m)
      else (let (d, m1) = Allow (the m) p now in (d, Some m1)))"

definition RecordDial :: "manager option \<Rightarrow> string \<Rightarrow> go_error option \<Rightarrow> time \<Rightarrow> manager option" where
  "RecordDial m p err now = (if skipped m p then m else Some (Record (the m) p err now))"

definition RecordStreamFault ::
  "manager option \<Rightarrow> string \<Rightarrow> time \<Rightarrow> bool \<Rightarrow> go_error option \<Rightarrow> time \<Rightarrow> manager option" where
  "RecordStreamFault m p sessionStart producedAudio err now =
     (if skipped m p \<or> err = None \<or> producedAudio then m
      else if EarlyFaultWindow \<le> now - sessionStart then m
      else (let (b, m1) = manager_get (the m) p in
            Some (put_breaker m1 p (recordStreamFailure b now))))"

text \<open>
  The factory the bridge calls once it knows the session's start; \<^const>\<open>None\<close> is the nil function
  value that disables reporting.
\<close>

definition StreamFaultBinder ::
  "manager option \<Rightarrow> string \<Rightarrow>
     (time \<Rightarrow> bool \<Rightarrow> go_error option \<Rightarrow> time \<Rightarrow> manager option) option" where
  "StreamFaultBinder m p =
     (if skipped m p then None else Some (\<lambda>sessionStart. RecordStreamFault m p sessionStart))"

record breaker_stats =
  st_state :: cb_state
  st_reason :: string
  st_retry_after_sec :: int
  st_failures :: int
  st_connect_failures :: int
  st_stream_failures :: int
  st_half_open_success :: int

definition Manager_Stats :: "manager \<Rightarrow> time \<Rightarrow> (string \<rightharpoonup> breaker_stats)" where
  "Manager_Stats m now = (\<lambda>p. map_option (\<lambda>b.
     \<lparr>st_state = bk_state b, st_reason = bk_reason b,
      st_retry_after_sec =
        (if bk_state b = StateOpen \<and> 0 < bk_openUntil b - now
         then (bk_openUntil b - now) div second else 0),
      st_failures = bk_connectFailures b + bk_streamFailures b,
      st_connect_failures = bk_connectFailures b, st_stream_failures = bk_streamFailures b,
      st_half_open_success = bk_success b\<rparr>) (mg_provider m p))"

lemmas breaker_defs [op_defs] =
  breaker_allow_def allow_half_open_def recordSuccess_def recordDialFailure_def
  recordStreamFailure_def open_breaker_def

lemmas manager_defs [op_defs] =
  manager_get_def put_breaker_def Allow_def Record_def AllowDial_def RecordDial_def
  RecordStreamFault_def skipped_def

subsection \<open>Events and the invariant\<close>

text \<open>The calls a manager receives from any number of concurrent sessions, in the order they happen.\<close>

datatype guard_event =
    EvAllow string time
  | EvRecord string "go_error option" time
  | EvStream string time bool "go_error option" time

fun guard_step :: "manager option \<Rightarrow> guard_event \<Rightarrow> manager option" where
  "guard_step m (EvAllow p now) = snd (AllowDial m p now)"
| "guard_step m (EvRecord p err now) = RecordDial m p err now"
| "guard_step m (EvStream p start produced err now) = RecordStreamFault m p start produced err now"

fun event_provider :: "guard_event \<Rightarrow> string" where
  "event_provider (EvAllow p _) = p"
| "event_provider (EvRecord p _ _) = p"
| "event_provider (EvStream p _ _ _ _) = p"

definition config_ok :: "cb_config \<Rightarrow> bool" where
  "config_ok c = (0 < OpenAfter c \<and> 0 < OpenFor c \<and> 0 < HalfOpenSuccess c \<and> 0 < AuthOpenFor c)"

definition breaker_ok :: "breaker \<Rightarrow> bool" where
  "breaker_ok b =
     (config_ok (bk_cfg b) \<and>
      (case bk_state b of
         StateClosed \<Rightarrow>
           0 \<le> bk_connectFailures b \<and> bk_connectFailures b < OpenAfter (bk_cfg b) \<and>
           0 \<le> bk_streamFailures b \<and> bk_streamFailures b < OpenAfter (bk_cfg b) \<and>
           bk_success b = 0 \<and> bk_reason b = '''' \<and> \<not> bk_halfOpenProbeInFlight b
       | StateOpen \<Rightarrow>
           bk_connectFailures b = 0 \<and> bk_streamFailures b = 0 \<and> bk_success b = 0 \<and>
           bk_reason b \<noteq> '''' \<and> \<not> bk_halfOpenProbeInFlight b
       | StateHalfOpen \<Rightarrow>
           bk_connectFailures b = 0 \<and> bk_streamFailures b = 0 \<and> 0 \<le> bk_success b \<and>
           bk_success b < HalfOpenSuccess (bk_cfg b) \<and> bk_reason b \<noteq> ''''))"

definition manager_ok :: "manager \<Rightarrow> bool" where
  "manager_ok m =
     (config_ok (mg_defaults m) \<and> (\<forall>p b. mg_provider m p = Some b \<longrightarrow> breaker_ok b))"

definition guard_ok :: "manager option \<Rightarrow> bool" where
  "guard_ok m = (case m of None \<Rightarrow> True | Some mg \<Rightarrow> manager_ok mg)"

lemma config_ok_normalize [simp]: "config_ok (normalize c)"
  by (simp add: config_ok_def normalize_def)

lemma breaker_ok_new [simp]: "config_ok c \<Longrightarrow> breaker_ok (new_breaker c)"
  by (simp add: breaker_ok_def new_breaker_def config_ok_def)

lemma classify_nonempty [simp]: "classify e \<noteq> ''''"
  by (simp add: classify_def Let_def)

lemma allow_ok [inv_rules]: "breaker_ok b \<Longrightarrow> breaker_ok (snd (breaker_allow b now))"
  by (auto simp: breaker_defs breaker_ok_def config_ok_def split: cb_state.splits)

lemma success_ok [inv_rules]: "breaker_ok b \<Longrightarrow> breaker_ok (recordSuccess b)"
  by (auto simp: breaker_defs breaker_ok_def config_ok_def Let_def split: cb_state.splits)

lemma dial_failure_ok [inv_rules]:
  "breaker_ok b \<Longrightarrow> reason \<noteq> '''' \<Longrightarrow> breaker_ok (recordDialFailure b reason now)"
  by (auto simp: breaker_defs breaker_ok_def config_ok_def Let_def split: cb_state.splits)

lemma stream_failure_ok [inv_rules]:
  "breaker_ok b \<Longrightarrow> breaker_ok (recordStreamFailure b now)"
  by (auto simp: breaker_defs breaker_ok_def config_ok_def Let_def split: cb_state.splits)

text \<open>Each manager operation reads one provider's breaker and writes that one back.\<close>

definition breaker_of :: "manager \<Rightarrow> string \<Rightarrow> breaker" where
  "breaker_of m p = (case mg_provider m p of Some b \<Rightarrow> b | None \<Rightarrow> new_breaker (mg_defaults m))"

lemma manager_get_eq:
  "manager_get m p = (breaker_of m p, put_breaker m p (breaker_of m p))"
  by (auto simp: manager_get_def breaker_of_def put_breaker_def Let_def fun_upd_idem
      split: option.splits)

lemma put_put [simp]: "put_breaker (put_breaker m p b) p c = put_breaker m p c"
  by (simp add: put_breaker_def)

lemma breaker_of_put [simp]:
  "breaker_of (put_breaker m p b) q = (if q = p then b else breaker_of m q)"
  by (auto simp: breaker_of_def put_breaker_def split: option.splits)

lemma put_provider [simp]: "mg_provider (put_breaker m p b) = (mg_provider m)(p \<mapsto> b)"
  by (simp add: put_breaker_def)

lemma put_defaults [simp]: "mg_defaults (put_breaker m p b) = mg_defaults m"
  by (simp add: put_breaker_def)

lemma manager_ok_breaker_of: "manager_ok m \<Longrightarrow> breaker_ok (breaker_of m p)"
  by (auto simp: manager_ok_def breaker_of_def split: option.splits)

lemma manager_ok_put: "manager_ok m \<Longrightarrow> breaker_ok b \<Longrightarrow> manager_ok (put_breaker m p b)"
  by (auto simp: manager_ok_def split: if_splits)

text \<open>
  A call on a provider the guard covers changes that provider's breaker by \<open>breaker_event\<close>; calls
  on the loopback provider, and stream reports outside the window, change nothing.
\<close>

fun breaker_event :: "breaker \<Rightarrow> guard_event \<Rightarrow> breaker" where
  "breaker_event b (EvAllow p now) = snd (breaker_allow b now)"
| "breaker_event b (EvRecord p err now) =
     (case err of None \<Rightarrow> recordSuccess b | Some e \<Rightarrow> recordDialFailure b (classify e) now)"
| "breaker_event b (EvStream p start produced err now) = recordStreamFailure b now"

fun ignored :: "guard_event \<Rightarrow> bool" where
  "ignored (EvStream p start produced err now) =
     (p = ''loopback'' \<or> err = None \<or> produced \<or> EarlyFaultWindow \<le> now - start)"
| "ignored e = (event_provider e = ''loopback'')"

lemma guard_step_Some:
  "guard_step (Some m) e =
     Some (if ignored e then m
           else put_breaker m (event_provider e)
                  (breaker_event (breaker_of m (event_provider e)) e))"
  by (cases e) (auto simp: manager_get_eq AllowDial_def Allow_def RecordDial_def Record_def
      RecordStreamFault_def skipped_def split: prod.splits option.splits)

lemma guard_step_None [simp]: "guard_step None e = None"
  by (cases e) (auto simp: manager_defs)

lemma breaker_event_ok: "breaker_ok b \<Longrightarrow> breaker_ok (breaker_event b e)"
  by (cases e) (auto intro: inv_rules split: option.splits)

lemma guard_step_ok: "guard_ok m \<Longrightarrow> guard_ok (guard_step m e)"
  by (cases m) (auto simp: guard_ok_def guard_step_Some
      intro: manager_ok_put breaker_event_ok manager_ok_breaker_of)

interpretation guard: machine guard_step guard_ok
  by unfold_locales (rule guard_step_ok)

lemma Manager_New_ok: "manager_ok (Manager_New defaults overrides)"
  by (auto simp: manager_ok_def Manager_New_def Let_def)

subsection \<open>Runs seen from one provider\<close>

lemma breaker_of_step:
  "breaker_of (the (guard_step (Some m) e)) q =
     (if event_provider e = q \<and> \<not> ignored e then breaker_event (breaker_of m q) e
      else breaker_of m q)"
  by (auto simp: guard_step_Some)

lemma guard_step_is_Some: "guard_step (Some m) e = Some (the (guard_step (Some m) e))"
  by (simp add: guard_step_Some)

lemma run_is_Some: "\<exists>m'. run guard_step (Some m) es = Some m'"
proof (induction es arbitrary: m)
  case (Cons e es)
  then show ?case by (metis guard_step_is_Some run.simps(2))
qed simp

lemma breaker_of_run:
  "breaker_of (the (run guard_step (Some m) es)) q =
     run breaker_event (breaker_of m q)
       (filter (\<lambda>e. event_provider e = q \<and> \<not> ignored e) es)"
proof (induction es arbitrary: m)
  case (Cons e es)
  let ?m = "the (guard_step (Some m) e)"
  have "breaker_of (the (run guard_step (Some m) (e # es))) q =
        breaker_of (the (run guard_step (Some ?m) es)) q"
    by (metis guard_step_is_Some run.simps(2))
  with Cons.IH[of ?m] show ?case by (simp add: breaker_of_step)
qed simp

lemma AllowDial_decision:
  "p \<noteq> ''loopback'' \<Longrightarrow> fst (AllowDial (Some m) p now) = fst (breaker_allow (breaker_of m p) now)"
  by (simp add: AllowDial_def Allow_def skipped_def manager_get_eq split: prod.splits)

lemma AllowDial_run_decision:
  assumes "p \<noteq> ''loopback''"
  shows "fst (AllowDial (run guard_step (Some m) es) p now) =
     fst (breaker_allow (run breaker_event (breaker_of m p)
            (filter (\<lambda>e. event_provider e = p \<and> \<not> ignored e) es)) now)"
proof -
  obtain m' where m': "run guard_step (Some m) es = Some m'" using run_is_Some by blast
  then show ?thesis
    using AllowDial_decision[OF assms, of m'] breaker_of_run[of m es p] by simp
qed

subsection \<open>The specification of a circuit\<close>

text \<open>
  What the breaker promises, with only the data each state needs: how many failures of each kind
  a closed circuit has seen, until when an open one rejects, how many probes of a half-open one
  succeeded and whether a probe is out.
\<close>

datatype circuit = Closed int int | Open time | HalfOpen int bool

fun circuit_event :: "cb_config \<Rightarrow> circuit \<Rightarrow> guard_event \<Rightarrow> circuit" where
  "circuit_event c (Closed n s) (EvAllow p now) = Closed n s"
| "circuit_event c (Closed n s) (EvRecord p None now) = Closed 0 0"
| "circuit_event c (Closed n s) (EvRecord p (Some e) now) =
     (if classify e = ''auth'' then Open (now + AuthOpenFor c)
      else if n + 1 < OpenAfter c then Closed (n + 1) s else Open (now + OpenFor c))"
| "circuit_event c (Closed n s) (EvStream p st pr err now) =
     (if s + 1 < OpenAfter c then Closed n (s + 1) else Open (now + OpenFor c))"
| "circuit_event c (Open t) (EvAllow p now) = (if now < t then Open t else HalfOpen 0 True)"
| "circuit_event c (Open t) e = Open t"
| "circuit_event c (HalfOpen k pr) (EvAllow p now) = HalfOpen k True"
| "circuit_event c (HalfOpen k pr) (EvRecord p None now) =
     (if k + 1 < HalfOpenSuccess c then HalfOpen (k + 1) False else Closed 0 0)"
| "circuit_event c (HalfOpen k pr) (EvRecord p (Some e) now) =
     Open (now + (if classify e = ''auth'' then AuthOpenFor c else OpenFor c))"
| "circuit_event c (HalfOpen k pr) (EvStream p st pr' err now) = Open (now + OpenFor c)"

fun circuit_admits :: "circuit \<Rightarrow> time \<Rightarrow> bool" where
  "circuit_admits (Closed n s) now = True"
| "circuit_admits (Open t) now = (t \<le> now)"
| "circuit_admits (HalfOpen k pr) now = (\<not> pr)"

definition circuit_of :: "breaker \<Rightarrow> circuit" where
  "circuit_of b =
     (case bk_state b of
        StateClosed \<Rightarrow> Closed (bk_connectFailures b) (bk_streamFailures b)
      | StateOpen \<Rightarrow> Open (bk_openUntil b)
      | StateHalfOpen \<Rightarrow> HalfOpen (bk_success b) (bk_halfOpenProbeInFlight b))"

lemma circuit_of_simps [simp]:
  "bk_state b = StateClosed \<Longrightarrow>
     circuit_of b = Closed (bk_connectFailures b) (bk_streamFailures b)"
  "bk_state b = StateOpen \<Longrightarrow> circuit_of b = Open (bk_openUntil b)"
  "bk_state b = StateHalfOpen \<Longrightarrow>
     circuit_of b = HalfOpen (bk_success b) (bk_halfOpenProbeInFlight b)"
  by (simp_all add: circuit_of_def)

lemma breaker_event_cfg [simp]: "bk_cfg (breaker_event b e) = bk_cfg b"
  by (cases e) (auto simp: breaker_defs Let_def split: cb_state.splits option.splits)

lemma circuit_of_event: "circuit_of (breaker_event b e) = circuit_event (bk_cfg b) (circuit_of b) e"
proof (cases e)
  case (EvAllow p now)
  then show ?thesis by (auto simp: breaker_defs circuit_of_def split: cb_state.splits)
next
  case (EvRecord p err now)
  then show ?thesis
    by (cases err; cases "bk_state b") (auto simp: breaker_defs circuit_of_def Let_def)
next
  case (EvStream p st pr err now)
  then show ?thesis by (auto simp: breaker_defs circuit_of_def Let_def split: cb_state.splits)
qed

lemma circuit_of_run:
  "circuit_of (run breaker_event b es) = run (circuit_event (bk_cfg b)) (circuit_of b) es"
proof (induction es arbitrary: b)
  case (Cons e es)
  show ?case using Cons.IH[of "breaker_event b e"] by (simp add: circuit_of_event)
qed simp

lemma allow_decision: "dec_Allowed (fst (breaker_allow b now)) = circuit_admits (circuit_of b) now"
  by (auto simp: breaker_defs circuit_of_def split: cb_state.splits)

lemma run_open:
  "\<forall>e \<in> set es. \<forall>p now. e = EvAllow p now \<longrightarrow> now < t \<Longrightarrow> run (circuit_event c) (Open t) es = Open t"
proof (induction es)
  case (Cons e es)
  then show ?case by (cases e) auto
qed simp

lemma run_probing:
  "\<forall>e \<in> set es. \<exists>p now. e = EvAllow p now \<Longrightarrow>
     run (circuit_event c) (HalfOpen k True) es = HalfOpen k True"
  by (induction es) auto

subsection \<open>Properties\<close>

text \<open>
  Every state the guard can reach, from any configuration and under any interleaving of
  dials, dial results and stream reports of any providers, satisfies the breaker invariant: the
  thresholds are positive, a closed breaker's streaks are below the opening threshold, an open or
  half-open one has cleared them and carries a reason, and a probe is out only in half-open.\<close>

theorem guard_invariant:
  "guard_ok (run guard_step (Some (Manager_New defaults overrides)) es)"
  by (rule guard.run_inv) (simp add: guard_ok_def Manager_New_ok)

text \<open>
  C2: The breaker refines the circuit specification: after any sequence of calls, provider \<open>p\<close> is
  admitted at time \<open>now\<close> exactly when the specification, run over the calls on \<open>p\<close> that the guard
  does not ignore and started from the abstraction of \<open>p\<close>'s breaker, admits it.\<close>

theorem guard_refines_circuit:
  assumes "p \<noteq> ''loopback''"
  shows "dec_Allowed (fst (AllowDial (run guard_step (Some m) es) p now)) =
     circuit_admits (run (circuit_event (bk_cfg (breaker_of m p))) (circuit_of (breaker_of m p))
       (filter (\<lambda>e. event_provider e = p \<and> \<not> ignored e) es)) now"
  using assms by (simp add: AllowDial_run_decision allow_decision circuit_of_run)

text \<open>
  An open circuit rejects until its timer ends: whatever results and faults arrive in the
  meantime, every dial before \<open>openUntil\<close> is refused, with the reason it opened for and the exact
  time left; nothing extends or shortens the timer.\<close>

theorem open_circuit_rejects:
  assumes p: "p \<noteq> ''loopback''" and b: "mg_provider m p = Some b" "bk_state b = StateOpen"
    and early: "\<forall>e \<in> set es. \<forall>t. e = EvAllow p t \<longrightarrow> t < bk_openUntil b"
    and now: "now < bk_openUntil b"
  shows "fst (AllowDial (run guard_step (Some m) es) p now) =
    \<lparr>dec_Allowed = False, dec_State = StateOpen, dec_Reason = bk_reason b,
     dec_RetryAfter = bk_openUntil b - now\<rparr>"
proof -
  have same: "run breaker_event b fs = b" if "set fs \<subseteq> {e. \<forall>p t. e = EvAllow p t \<longrightarrow> t < bk_openUntil b}"
    for fs using that
  proof (induction fs)
    case (Cons e fs)
    then have "breaker_event b e = b"
      using b(2) by (cases e) (auto simp: breaker_defs Let_def split: option.splits)
    with Cons show ?case by simp
  qed simp
  have "run breaker_event b (filter (\<lambda>e. event_provider e = p \<and> \<not> ignored e) es) = b"
    by (rule same) (use early in auto)
  with p b now show ?thesis
    by (simp add: AllowDial_run_decision breaker_of_def breaker_allow_def)
qed

text \<open>
  Half-open lets one probe through at a time: once a probe is out, and as long as no result of
  a dial or stream of that provider is recorded, every further dial is refused, at any time.  No
  timer ends this, so a caller that takes a probe must record its outcome.\<close>

theorem half_open_single_probe:
  assumes p: "p \<noteq> ''loopback''" and b: "mg_provider m p = Some b"
    and half: "bk_state b = StateHalfOpen" "bk_halfOpenProbeInFlight b"
    and quiet: "\<forall>e \<in> set es. event_provider e = p \<longrightarrow> (\<exists>t. e = EvAllow p t)"
  shows "\<not> dec_Allowed (fst (AllowDial (run guard_step (Some m) es) p now))"
proof -
  let ?fs = "filter (\<lambda>e. event_provider e = p \<and> \<not> ignored e) es"
  have "run (circuit_event (bk_cfg b)) (HalfOpen (bk_success b) True) ?fs = HalfOpen (bk_success b) True"
    by (rule run_probing) (use quiet in fastforce)
  moreover have "circuit_of b = HalfOpen (bk_success b) True" using half by simp
  ultimately show ?thesis
    using p b by (simp add: AllowDial_run_decision allow_decision circuit_of_run breaker_of_def)
qed

lemma run_closed_failures:
  assumes "\<forall>(e, t) \<in> set fs. classify e \<noteq> ''auth''" and "n < OpenAfter c"
  shows "run (circuit_event c) (Closed n s) (map (\<lambda>(e, t). EvRecord p (Some e) t) fs) =
     (if n + int (length fs) < OpenAfter c then Closed (n + int (length fs)) s
      else Open (snd (fs ! (nat (OpenAfter c - n) - 1)) + OpenFor c))"
  using assms
proof (induction fs arbitrary: n)
  case (Cons f fs)
  obtain e t where f: "f = (e, t)" by (cases f)
  have open_run: "run (circuit_event c) (Open u) (map (\<lambda>(e, t). EvRecord p (Some e) t) fs) = Open u" for u
    by (rule run_open) auto
  show ?case
  proof (cases "n + 1 < OpenAfter c")
    case True
    then have "nat (OpenAfter c - n) - 1 = Suc (nat (OpenAfter c - (n + 1)) - 1)" by linarith
    with Cons True f show ?thesis by (auto simp: algebra_simps)
  next
    case False
    with Cons.prems(2) have "OpenAfter c = n + 1" by linarith
    with Cons.prems f open_run show ?thesis by simp
  qed
qed simp

text \<open>
  A closed circuit opens at the configured streak: over consecutive failed dials that are not
  authentication errors it stays closed while their number is below what is left to \<open>OpenAfter\<close>,
  and the failure that reaches it opens the circuit for \<open>OpenFor\<close> from that failure's time.\<close>

theorem dial_failures_open_circuit:
  assumes "breaker_ok b" and "bk_state b = StateClosed"
    and "\<forall>(e, t) \<in> set fs. classify e \<noteq> ''auth''"
  shows "circuit_of (run breaker_event b (map (\<lambda>(e, t). EvRecord p (Some e) t) fs)) =
    (let left = OpenAfter (bk_cfg b) - bk_connectFailures b in
     if int (length fs) < left
     then Closed (bk_connectFailures b + int (length fs)) (bk_streamFailures b)
     else Open (snd (fs ! (nat left - 1)) + OpenFor (bk_cfg b)))"
proof -
  have "bk_connectFailures b < OpenAfter (bk_cfg b)" using assms(1,2) by (simp add: breaker_ok_def)
  with assms show ?thesis
    by (simp add: circuit_of_run run_closed_failures Let_def less_diff_eq add.commute)
qed

text \<open>
  Recovery takes \<open>HalfOpenSuccess\<close> successful probes: from a half-open breaker with no probe
  out, each of the following dials is admitted and succeeds, and the circuit closes, with both
  streaks at zero, with the probe that completes the count and not before.\<close>

theorem half_open_recovery:
  assumes "breaker_ok b" and "bk_state b = StateHalfOpen" and "\<not> bk_halfOpenProbeInFlight b"
    and "bk_success b + int n \<le> HalfOpenSuccess (bk_cfg b)" and "0 < n"
  shows "circuit_of (run breaker_event b
           (concat (map (\<lambda>i. [EvAllow p (f i), EvRecord p None (f i)]) [0..<n]))) =
         (if bk_success b + int n < HalfOpenSuccess (bk_cfg b)
          then HalfOpen (bk_success b + int n) False else Closed 0 0)"
proof -
  let ?c = "bk_cfg b" and ?es = "\<lambda>n. concat (map (\<lambda>i. [EvAllow p (f i), EvRecord p None (f i)]) [0..<n])"
  have "run (circuit_event ?c) (HalfOpen k False) (?es n) =
      (if n = 0 \<or> k + int n < HalfOpenSuccess ?c then HalfOpen (k + int n) False else Closed 0 0)"
    if "k + int n \<le> HalfOpenSuccess ?c" for k n
    using that by (induction n) auto
  from this[OF assms(4)] assms show ?thesis by (simp add: circuit_of_run)
qed

text \<open>
  Providers are isolated: calls on other providers leave a provider's breaker as it is.\<close>

theorem providers_isolated:
  assumes "\<forall>e \<in> set es. event_provider e \<noteq> q"
  shows "breaker_of (the (run guard_step (Some m) es)) q = breaker_of m q"
proof -
  have "filter (\<lambda>e. event_provider e = q \<and> \<not> ignored e) es = []"
    using assms by (auto simp: filter_empty_conv)
  then show ?thesis by (simp add: breaker_of_run)
qed

subsection \<open>The properties at concrete inputs\<close>

definition demo_config :: cb_config where
  "demo_config = \<lparr>OpenAfter = 2, OpenFor = 30 * second, HalfOpenSuccess = 2, AuthOpenFor = 5 * minute\<rparr>"

definition demo_manager :: "breaker \<Rightarrow> manager" where
  "demo_manager b = \<lparr>mg_defaults = demo_config, mg_provider = [''gemini'' \<mapsto> b]\<rparr>"

definition demo_open :: breaker where
  "demo_open = open_breaker (new_breaker demo_config) ''transient'' 100"

definition demo_half_open :: "bool \<Rightarrow> breaker" where
  "demo_half_open pr = demo_open\<lparr>bk_state := StateHalfOpen, bk_halfOpenProbeInFlight := pr\<rparr>"

lemmas demo_defs = demo_config_def demo_manager_def demo_open_def demo_half_open_def
  new_breaker_def open_breaker_def

lemma demo_config_ok [simp]: "config_ok demo_config"
  by (simp add: config_ok_def demo_config_def)

theorem guard_refines_circuit_witness:
  "(''gemini'' \<noteq> ''loopback'') \<and>
   dec_Allowed (fst (AllowDial (run guard_step (Some (demo_manager demo_open)) [EvAllow ''gemini'' 100])
     ''gemini'' 101)) =
   circuit_admits (run (circuit_event (bk_cfg (breaker_of (demo_manager demo_open) ''gemini'')))
     (circuit_of (breaker_of (demo_manager demo_open) ''gemini''))
       (filter (\<lambda>e. event_provider e = ''gemini'' \<and> \<not> ignored e) [EvAllow ''gemini'' 100])) 101"
  using guard_refines_circuit[of "''gemini''" "demo_manager demo_open" "[EvAllow ''gemini'' 100]" 101]
  by simp

theorem open_circuit_rejects_witness:
  "fst (AllowDial (run guard_step (Some (demo_manager demo_open))
      [EvAllow ''gemini'' 40, EvRecord ''gemini'' (Some ''dial timeout'') 50, EvRecord ''gemini'' None 60])
      ''gemini'' 70) =
    \<lparr>dec_Allowed = False, dec_State = StateOpen, dec_Reason = ''transient'', dec_RetryAfter = 30\<rparr>"
  using open_circuit_rejects[of "''gemini''" "demo_manager demo_open" demo_open
      "[EvAllow ''gemini'' 40, EvRecord ''gemini'' (Some ''dial timeout'') 50, EvRecord ''gemini'' None 60]" 70]
  by (simp add: demo_defs)

theorem half_open_single_probe_witness:
  "\<not> dec_Allowed (fst (AllowDial (run guard_step (Some (demo_manager (demo_half_open True)))
      [EvAllow ''gemini'' 200, EvRecord ''doubao'' None 300]) ''gemini'' 1000000))"
  by (rule half_open_single_probe[of _ _ "demo_half_open True"]) (simp_all add: demo_defs)

theorem dial_failures_open_circuit_witness:
  "circuit_of (run breaker_event (new_breaker demo_config)
     (map (\<lambda>(e, t). EvRecord ''gemini'' (Some e) t) [(''EOF'', 10), (''503'', 20)]))
   = Open (20 + 30 * second)"
proof -
  have "\<forall>(e, t) \<in> set [(''EOF'', 10), (''503'', 20 :: time)]. classify e \<noteq> ''auth''"
    by (simp add: classify_def contains_def lower_char_def)
  from dial_failures_open_circuit[OF _ _ this, of "new_breaker demo_config" "''gemini''"]
  show ?thesis by (simp add: new_breaker_def demo_config_def breaker_ok_def config_ok_def)
qed

theorem half_open_recovery_witness:
  "circuit_of (run breaker_event (demo_half_open False)
     (concat (map (\<lambda>i. [EvAllow ''gemini'' (int i), EvRecord ''gemini'' None (int i)]) [0..<2]))) = Closed 0 0"
proof -
  let ?b = "demo_half_open False"
  have ok: "breaker_ok ?b" "bk_state ?b = StateHalfOpen" "\<not> bk_halfOpenProbeInFlight ?b"
    "bk_success ?b + int 2 \<le> HalfOpenSuccess (bk_cfg ?b)" "0 < (2::nat)"
    and last: "(bk_success ?b + int 2 < HalfOpenSuccess (bk_cfg ?b)) = False"
    by (simp_all add: demo_defs breaker_ok_def config_ok_def)
  show ?thesis using half_open_recovery[OF ok] by (simp only: last if_False)
qed

theorem providers_isolated_witness:
  "breaker_of (the (run guard_step (Some (demo_manager demo_open))
     [EvRecord ''gemini'' (Some ''401'') 5, EvAllow ''gemini'' 7])) ''doubao''
   = breaker_of (demo_manager demo_open) ''doubao''"
  by (rule providers_isolated) simp

end
