(* ===== verification/Transcript.thy ===== *)
theory Transcript
  imports Prelude
begin

text \<open>
  Transcript lines and the recorder, \<open>internal/transcript\<close>, with the identifiers of
  \<open>internal/identity\<close>.  The recorder of a session is the only place that assigns sequence numbers;
  it keeps the last \<open>histLimit\<close> lines and tells its listener about each line.  Sequence numbers are
  64-bit words, so statements about their order say that the counter does not wrap.

  The locale \<open>seq_log\<close> is what the bridge, the archive and the replay protocol use of a recorder;
  the recorder interprets it.
\<close>

subsection \<open>Identifiers and lines\<close>

type_synonym SessionID = string
type_synonym UserID = string

definition Anonymous :: "UserID \<Rightarrow> bool" where
  "Anonymous u = (u = '''')"

record line =
  ln_Seq :: u64
  ln_Role :: string
  ln_Text :: string

record session_meta =
  sm_SessionID :: SessionID
  sm_UserID :: UserID
  sm_Provider :: string

text \<open>A listener is the nop listener or one of the implementations; \<open>'l\<close> is their type.\<close>

datatype 'l listener = NopListener | Listener 'l

subsection \<open>The recorder\<close>

record 'l recorder =
  rc_seq :: u64
  rc_history :: "line list"
  rc_histLimit :: nat
  rc_meta :: session_meta
  rc_listener :: "'l listener"

definition NewRecorder ::
  "u64 \<Rightarrow> line list \<Rightarrow> nat \<Rightarrow> session_meta \<Rightarrow> 'l listener option \<Rightarrow> 'l recorder" where
  "NewRecorder startSeq initial histLimit meta listener =
     \<lparr>rc_seq = startSeq, rc_history = initial, rc_histLimit = histLimit, rc_meta = meta,
      rc_listener = (case listener of None \<Rightarrow> NopListener | Some l \<Rightarrow> l)\<rparr>"

text \<open>
  \<open>Record\<close> returns the line; its other result is the call of the listener it makes after it has
  released the lock.
\<close>

type_synonym 'l line_call = "'l listener \<times> session_meta \<times> line"

definition Recorder_Record ::
  "'l recorder \<Rightarrow> string \<Rightarrow> string \<Rightarrow> line \<times> 'l line_call \<times> 'l recorder" where
  "Recorder_Record r role text =
     (let seq = rc_seq r + 1;
          ln = \<lparr>ln_Seq = seq, ln_Role = role, ln_Text = text\<rparr>;
          history = rc_history r @ [ln];
          extra = int (length history) - int (rc_histLimit r);
          history' = (if 0 < extra then drop (nat extra) history else history) in
      (ln, (rc_listener r, rc_meta r, ln), r\<lparr>rc_seq := seq, rc_history := history'\<rparr>))"

definition Recorder_Snapshot :: "'l recorder \<Rightarrow> u64 \<Rightarrow> line list" where
  "Recorder_Snapshot r afterSeq = filter (\<lambda>ln. afterSeq < ln_Seq ln) (rc_history r)"

definition Recorder_FullHistory :: "'l recorder \<Rightarrow> line list" where
  "Recorder_FullHistory r = rc_history r"

definition Recorder_MaxSeq :: "'l recorder \<Rightarrow> u64" where
  "Recorder_MaxSeq r = rc_seq r"

text \<open>Recording without the listener call, as the shape the interface below asks for.\<close>

definition record_line :: "'l recorder \<Rightarrow> string \<times> string \<Rightarrow> line \<times> 'l recorder" where
  "record_line r w = (let (ln, call, r') = Recorder_Record r (fst w) (snd w) in (ln, r'))"

lemma record_line_eq:
  "record_line r w =
     (let ln = \<lparr>ln_Seq = rc_seq r + 1, ln_Role = fst w, ln_Text = snd w\<rparr> in
      (ln, r\<lparr>rc_seq := rc_seq r + 1,
             rc_history := keep_last (rc_histLimit r) (rc_history r @ [ln])\<rparr>))"
  by (auto simp: record_line_def Recorder_Record_def Let_def keep_last_def nat_minus_as_int)

subsection \<open>The interface of a sequenced log\<close>

text \<open>Lines in strictly increasing order of sequence number, none above \<open>m\<close>.\<close>

definition ordered_upto :: "u64 \<Rightarrow> line list \<Rightarrow> bool" where
  "ordered_upto m ls =
     (sorted_wrt (\<lambda>a b. ln_Seq a < ln_Seq b) ls \<and> (\<forall>ln \<in> set ls. ln_Seq ln \<le> m))"

lemma ordered_upto_suffix: "ordered_upto m (xs @ ys) \<Longrightarrow> ordered_upto m ys"
  by (auto simp: ordered_upto_def sorted_wrt_append)

lemma ordered_upto_filter: "ordered_upto m ls \<Longrightarrow> ordered_upto m (filter P ls)"
  by (auto simp: ordered_upto_def sorted_wrt_filter)

lemma ordered_upto_snoc:
  assumes "ordered_upto m ls" and "m < m + 1" and "ln_Seq ln = m + 1"
  shows "ordered_upto (m + 1) (ls @ [ln])"
  using assms by (fastforce simp: ordered_upto_def sorted_wrt_append)

lemma word_less_Suc: "unat (m::u64) + 1 < 2 ^ 64 \<Longrightarrow> m < m + 1"
  by (simp add: word_less_nat_alt unat_plus_one)

locale seq_log =
  fixes rec :: "'r \<Rightarrow> 'w \<Rightarrow> line \<times> 'r"
    and hist :: "'r \<Rightarrow> line list"
    and maxseq :: "'r \<Rightarrow> u64"
  assumes rec_seq: "ln_Seq (fst (rec r w)) = maxseq r + 1"
    and rec_max: "maxseq (snd (rec r w)) = maxseq r + 1"
    and rec_hist: "\<exists>old. hist r @ [fst (rec r w)] = old @ hist (snd (rec r w))"
begin

lemma collect_max: "maxseq (snd (collect rec r ws)) = maxseq r + word_of_nat (length ws)"
proof (induction ws arbitrary: r)
  case (Cons w ws)
  show ?case using Cons.IH[of "snd (rec r w)"] rec_max[of r w]
    by (simp add: Let_def split_beta algebra_simps)
qed simp

lemma collect_seqs:
  "map ln_Seq (fst (collect rec r ws)) =
     map (\<lambda>i. maxseq r + 1 + word_of_nat i) [0..<length ws]"
proof (induction ws arbitrary: r)
  case (Cons w ws)
  show ?case
    using Cons.IH[of "snd (rec r w)"] rec_seq[of r w] rec_max[of r w]
    by (simp add: Let_def split_beta map_upt_Suc algebra_simps del: upt_Suc)
qed simp

lemma collect_unat_seqs:
  assumes "unat (maxseq r) + length ws < 2 ^ 64"
  shows "map (unat \<circ> ln_Seq) (fst (collect rec r ws)) =
     map (\<lambda>i. unat (maxseq r) + 1 + i) [0..<length ws]"
proof -
  have "map (unat \<circ> ln_Seq) (fst (collect rec r ws)) =
      map unat (map ln_Seq (fst (collect rec r ws)))" by simp
  also have "\<dots> = map (\<lambda>i. unat (maxseq r) + 1 + i) [0..<length ws]"
    unfolding collect_seqs using assms
    by (auto simp: unat_word_ariths unat_of_nat)
  finally show ?thesis .
qed

lemma rec_ordered:
  assumes "ordered_upto (maxseq r) (hist r)" and "unat (maxseq r) + 1 < 2 ^ 64"
  shows "ordered_upto (maxseq (snd (rec r w))) (hist (snd (rec r w)))"
proof -
  from rec_hist[of r w] obtain old where "hist r @ [fst (rec r w)] = old @ hist (snd (rec r w))" ..
  moreover have "ordered_upto (maxseq r + 1) (hist r @ [fst (rec r w)])"
    using assms by (intro ordered_upto_snoc word_less_Suc rec_seq)
  ultimately show ?thesis by (metis ordered_upto_suffix rec_max)
qed

lemma collect_ordered:
  assumes "ordered_upto (maxseq r) (hist r)" and "unat (maxseq r) + length ws < 2 ^ 64"
  shows "ordered_upto (maxseq (snd (collect rec r ws))) (hist (snd (collect rec r ws)))"
  using assms
proof (induction ws arbitrary: r)
  case (Cons w ws)
  have "unat (maxseq (snd (rec r w))) = unat (maxseq r) + 1"
    using Cons.prems by (simp add: rec_max unat_plus_one)
  with Cons show ?case by (simp add: Let_def split_beta rec_ordered)
qed simp

end

interpretation recorder: seq_log record_line rc_history rc_seq
proof unfold_locales
  fix r :: "'a recorder" and w
  let ?h = "rc_history r @ [fst (record_line r w)]"
  show "\<exists>old. ?h = old @ rc_history (snd (record_line r w))"
    using keep_last_suffix[of ?h "rc_histLimit r"] by (simp add: record_line_eq Let_def)
qed (simp_all add: record_line_eq Let_def)

subsection \<open>The recorder is a log cut to its last lines\<close>

lemma record_line_fixed [simp]:
  "rc_histLimit (snd (record_line r w)) = rc_histLimit r"
  "rc_meta (snd (record_line r w)) = rc_meta r"
  "rc_listener (snd (record_line r w)) = rc_listener r"
  by (simp_all add: record_line_eq Let_def)

lemma record_line_history:
  "rc_history (snd (record_line r w)) =
     keep_last (rc_histLimit r) (rc_history r @ [fst (record_line r w)])"
  by (simp add: record_line_eq Let_def)

lemma collect_history:
  "ws \<noteq> [] \<or> length (rc_history r) \<le> rc_histLimit r \<Longrightarrow>
   rc_history (snd (collect record_line r ws)) =
     keep_last (rc_histLimit r) (rc_history r @ fst (collect record_line r ws))"
proof (induction ws arbitrary: r)
  case (Cons w ws)
  let ?r = "snd (record_line r w)"
  have "length (rc_history ?r) \<le> rc_histLimit ?r" by (simp add: record_line_history)
  with Cons.IH[of ?r] show ?case
    by (simp add: Let_def split_beta record_line_history keep_last_append)
qed simp

text \<open>
  C23: Recording refines an unbounded log: starting from \<open>startSeq\<close> and an initial history, the
  lines recorded are numbered \<open>startSeq + 1, startSeq + 2, \<dots>\<close> without gaps as long as the counter
  does not wrap, and the history kept is the last \<open>histLimit\<close> lines of the initial history followed
  by all lines recorded.\<close>

theorem recorder_refines_log:
  fixes startSeq :: u64 and listener :: "'l listener option" and initial histLimit meta
  defines "r \<equiv> NewRecorder startSeq initial histLimit meta listener"
  assumes "unat startSeq + length ws < 2 ^ 64" and "ws \<noteq> []"
  shows "map (\<lambda>ln. (unat (ln_Seq ln), ln_Role ln, ln_Text ln)) (fst (collect record_line r ws)) =
           map (\<lambda>i. (unat startSeq + 1 + i, ws ! i)) [0..<length ws]
         \<and> Recorder_FullHistory (snd (collect record_line r ws)) =
           keep_last histLimit (initial @ fst (collect record_line r ws))"
proof
  have len: "length (fst (collect record_line r ws)) = length ws" by simp
  have texts: "map (\<lambda>ln. (ln_Role ln, ln_Text ln)) (fst (collect record_line s vs)) = vs"
    for s :: "'l recorder" and vs
    by (induction vs arbitrary: s) (auto simp: record_line_eq Let_def split_beta)
  have seqs: "map (unat \<circ> ln_Seq) (fst (collect record_line r ws)) =
      map (\<lambda>i. unat startSeq + 1 + i) [0..<length ws]"
    using recorder.collect_unat_seqs[of r ws] assms by (simp add: NewRecorder_def)
  have "map (\<lambda>ln. (unat (ln_Seq ln), ln_Role ln, ln_Text ln)) (fst (collect record_line r ws)) =
      zip (map (unat \<circ> ln_Seq) (fst (collect record_line r ws)))
          (map (\<lambda>ln. (ln_Role ln, ln_Text ln)) (fst (collect record_line r ws)))"
    by (simp add: zip_map_map zip_same_conv_map)
  also have "\<dots> = zip (map (\<lambda>i. unat startSeq + 1 + i) [0..<length ws]) (map ((!) ws) [0..<length ws])"
    by (simp only: seqs texts map_nth)
  also have "\<dots> = map (\<lambda>i. (unat startSeq + 1 + i, ws ! i)) [0..<length ws]"
    by (simp add: zip_map_map zip_same_conv_map)
  finally show "map (\<lambda>ln. (unat (ln_Seq ln), ln_Role ln, ln_Text ln)) (fst (collect record_line r ws)) =
      map (\<lambda>i. (unat startSeq + 1 + i, ws ! i)) [0..<length ws]" .
  show "Recorder_FullHistory (snd (collect record_line r ws)) =
      keep_last histLimit (initial @ fst (collect record_line r ws))"
    using collect_history[of ws r] assms
    by (simp add: Recorder_FullHistory_def NewRecorder_def)
qed

theorem recorder_refines_log_witness:
  "Recorder_FullHistory (snd (collect record_line
      (NewRecorder 7 [] 2 \<lparr>sm_SessionID = ''s'', sm_UserID = ''u'', sm_Provider = ''gemini''\<rparr>
         (None :: unit listener option))
      [(''user'', ''a''), (''model'', ''b''), (''user'', ''c'')])) =
   [\<lparr>ln_Seq = 9, ln_Role = ''model'', ln_Text = ''b''\<rparr>,
    \<lparr>ln_Seq = 10, ln_Role = ''user'', ln_Text = ''c''\<rparr>]"
  using recorder_refines_log[of 7 "[(''user'', ''a''), (''model'', ''b''), (''user'', ''c'')]" "[]" 2
      "\<lparr>sm_SessionID = ''s'', sm_UserID = ''u'', sm_Provider = ''gemini''\<rparr>"
      "None :: unit listener option"]
  by (simp add: record_line_eq NewRecorder_def keep_last_def Let_def)

text \<open>
  Replay after a sequence number is exact: as long as the counter does not wrap, a snapshot
  after \<open>afterSeq\<close> holds, in order, precisely the retained lines numbered above \<open>afterSeq\<close>; its
  numbers are strictly increasing, above \<open>afterSeq\<close> and at most the recorder's \<open>MaxSeq\<close>.\<close>

theorem snapshot_exact:
  fixes r :: "'l recorder" and ws
  defines "r' \<equiv> snd (collect record_line r ws)"
  assumes "ordered_upto (rc_seq r) (rc_history r)" and "unat (rc_seq r) + length ws < 2 ^ 64"
  shows "ordered_upto (Recorder_MaxSeq r') (Recorder_Snapshot r' afterSeq)
    \<and> set (Recorder_Snapshot r' afterSeq) = {ln \<in> set (Recorder_FullHistory r'). afterSeq < ln_Seq ln}"
  using recorder.collect_ordered[of r ws] assms
  by (auto simp: Recorder_Snapshot_def Recorder_MaxSeq_def Recorder_FullHistory_def
      intro: ordered_upto_filter)

definition demo_recorder :: "unit recorder" where
  "demo_recorder = NewRecorder 3 [] 256
     \<lparr>sm_SessionID = ''s'', sm_UserID = ''u'', sm_Provider = ''gemini''\<rparr> None"

theorem snapshot_exact_witness:
  "ordered_upto (Recorder_MaxSeq (snd (collect record_line demo_recorder [(''user'', ''a'')])))
     (Recorder_Snapshot (snd (collect record_line demo_recorder [(''user'', ''a'')])) 3)"
proof -
  have "ordered_upto (rc_seq demo_recorder) (rc_history demo_recorder)"
    and "unat (rc_seq demo_recorder) + length [(''user'', ''a'')] < 2 ^ 64"
    by (simp_all add: demo_recorder_def NewRecorder_def ordered_upto_def)
  from snapshot_exact[OF this] show ?thesis by blast
qed

end
