(* ===== verification/Sidechannel.thy ===== *)
theory Sidechannel
  imports Transcript "HOL-Library.Sublist"
begin

text \<open>
  The transcript side-channel, \<open>internal/sidechannel\<close>: the event message, the tap that turns
  recorded lines into events and the inverse conversion used by replay, the Kafka publisher with
  its bounded queue, and the HTTP client of the replay index.

  The publisher is a concurrent object: sessions publish, one goroutine drains, one caller closes.
  Its critical sections are the events of a machine, and every interleaving is a run of it.  A Go
  panic (a send on a closed channel) is the state \<^const>\<open>None\<close>.  Protobuf encoding and HTTP are
  not code of the repository and are parameters.
\<close>

subsection \<open>Events\<close>

datatype Role = ROLE_UNSPECIFIED | ROLE_USER | ROLE_MODEL | ROLE_other int

record transcript_event =
  ev_SchemaVersion :: u32
  ev_EventId :: string
  ev_SessionId :: string
  ev_UserId :: string
  ev_Seq :: u64
  ev_Role :: Role
  ev_Text :: string
  ev_Ts :: int
  ev_Provider :: string

definition roleString :: "Role \<Rightarrow> string" where
  "roleString r = (if r = ROLE_USER then ''user'' else ''model'')"

definition LineFromEvent :: "transcript_event \<Rightarrow> line" where
  "LineFromEvent ev =
     \<lparr>ln_Seq = ev_Seq ev, ln_Role = roleString (ev_Role ev), ln_Text = ev_Text ev\<rparr>"

text \<open>
  The publishers a tap may hold: the no-op, the logging one and Kafka.  A tap publishes the event
  below; \<open>eventId\<close> is the fresh UUID and \<open>unixMilli\<close> the clock reading.
\<close>

datatype publisher = NopPublisher | StdoutPublisher | KafkaPublisher

record tap =
  tp_pub :: publisher
  tp_meta :: session_meta

definition Tap :: "publisher option \<Rightarrow> session_meta \<Rightarrow> tap listener" where
  "Tap pub meta =
     (case pub of None \<Rightarrow> NopListener | Some p \<Rightarrow> Listener \<lparr>tp_pub = p, tp_meta = meta\<rparr>)"

definition tap_OnLine :: "tap \<Rightarrow> string \<Rightarrow> int \<Rightarrow> session_meta \<Rightarrow> line \<Rightarrow> publisher \<times> transcript_event" where
  "tap_OnLine t eventId unixMilli meta ln =
     (tp_pub t,
      \<lparr>ev_SchemaVersion = 1, ev_EventId = eventId, ev_SessionId = sm_SessionID meta,
       ev_UserId = sm_UserID meta, ev_Seq = ln_Seq ln,
       ev_Role = (if ln_Role ln = ''user'' then ROLE_USER else ROLE_MODEL),
       ev_Text = ln_Text ln, ev_Ts = unixMilli, ev_Provider = sm_Provider meta\<rparr>)"

text \<open>
  A line survives the side-channel: the event a tap publishes for a line of a user or the
  model converts back to the same line, with its sequence number, and carries the session, user
  and provider of the recorder that produced it.\<close>

theorem tap_line_roundtrip:
  assumes "ln_Role ln \<in> {''user'', ''model''}"
  shows "LineFromEvent (snd (tap_OnLine t eventId ms meta ln)) = ln
    \<and> ev_SessionId (snd (tap_OnLine t eventId ms meta ln)) = sm_SessionID meta
    \<and> ev_UserId (snd (tap_OnLine t eventId ms meta ln)) = sm_UserID meta
    \<and> ev_Provider (snd (tap_OnLine t eventId ms meta ln)) = sm_Provider meta"
  using assms by (auto simp: LineFromEvent_def tap_OnLine_def roleString_def)

theorem tap_line_roundtrip_witness:
  "LineFromEvent (snd (tap_OnLine \<lparr>tp_pub = KafkaPublisher,
       tp_meta = \<lparr>sm_SessionID = ''s'', sm_UserID = ''u'', sm_Provider = ''doubao''\<rparr>\<rparr> ''id'' 17
       \<lparr>sm_SessionID = ''s'', sm_UserID = ''u'', sm_Provider = ''doubao''\<rparr>
       \<lparr>ln_Seq = 4, ln_Role = ''user'', ln_Text = ''hi''\<rparr>))
   = \<lparr>ln_Seq = 4, ln_Role = ''user'', ln_Text = ''hi''\<rparr>"
  using tap_line_roundtrip[of "\<lparr>ln_Seq = 4, ln_Role = ''user'', ln_Text = ''hi''\<rparr>"] by simp

subsection \<open>The Kafka publisher\<close>

definition kafkaBuffer :: nat where
  "kafkaBuffer = 1024"

definition partitionKey :: "transcript_event \<Rightarrow> string" where
  "partitionKey ev = (if ev_UserId ev \<noteq> '''' then ev_UserId ev else ev_SessionId ev)"

text \<open>
  \<open>kf_ch\<close> is the buffered channel, \<open>kf_chClosed\<close> whether it has been closed, \<open>kf_closed\<close> the flag the
  mutex guards, \<open>kf_done\<close> the channel the drain goroutine closes when it ends, and \<open>kf_produced\<close> the
  records handed to the client, with their partition keys.
\<close>

record kafka =
  kf_ch :: "transcript_event list"
  kf_chClosed :: bool
  kf_done :: bool
  kf_dropped :: u64
  kf_closed :: bool
  kf_clClosed :: bool
  kf_produced :: "(string \<times> bytes) list"

definition NewKafka :: kafka where
  "NewKafka = \<lparr>kf_ch = [], kf_chClosed = False, kf_done = False, kf_dropped = 0,
     kf_closed = False, kf_clClosed = False, kf_produced = []\<rparr>"

definition Kafka_Dropped :: "kafka \<Rightarrow> u64" where
  "Kafka_Dropped k = kf_dropped k"

definition Kafka_Publish :: "transcript_event \<Rightarrow> kafka \<Rightarrow> kafka option" where
  "Kafka_Publish ev k =
     (if kf_closed k then Some (k\<lparr>kf_dropped := kf_dropped k + 1\<rparr>)
      else if kf_chClosed k then None
      else if length (kf_ch k) < kafkaBuffer then Some (k\<lparr>kf_ch := kf_ch k @ [ev]\<rparr>)
      else Some (k\<lparr>kf_dropped := kf_dropped k + 1\<rparr>))"

text \<open>One turn of the drain goroutine: it takes an event, or ends when the closed channel is empty.\<close>

definition Kafka_run :: "(transcript_event \<Rightarrow> bytes option) \<Rightarrow> kafka \<Rightarrow> kafka option" where
  "Kafka_run marshal k =
     (if kf_done k then Some k
      else (case kf_ch k of
              [] \<Rightarrow> Some (if kf_chClosed k then k\<lparr>kf_done := True\<rparr> else k)
            | ev # evs \<Rightarrow>
                (case marshal ev of
                   None \<Rightarrow> Some (k\<lparr>kf_ch := evs\<rparr>)
                 | Some val \<Rightarrow>
                     Some (k\<lparr>kf_ch := evs, kf_produced := kf_produced k @ [(partitionKey ev, val)]\<rparr>))))"

text \<open>
  \<open>Close\<close>: the critical section that marks the publisher closed and closes the channel (a second
  call returns at once; closing a closed channel would panic), and the part after the wait for
  \<open>done\<close>, which can only run once the drain goroutine has ended.
\<close>

definition Kafka_Close_begin :: "kafka \<Rightarrow> kafka option" where
  "Kafka_Close_begin k =
     (if kf_closed k then Some k
      else if kf_chClosed k then None
      else Some (k\<lparr>kf_closed := True, kf_chClosed := True\<rparr>))"

definition Kafka_Close_finish :: "kafka \<Rightarrow> kafka option" where
  "Kafka_Close_finish k = Some (if kf_closed k \<and> kf_done k then k\<lparr>kf_clClosed := True\<rparr> else k)"

datatype kafka_event = Publish transcript_event | Drain | CloseBegin | CloseFinish

fun kafka_step ::
  "(transcript_event \<Rightarrow> bytes option) \<Rightarrow> kafka option \<Rightarrow> kafka_event \<Rightarrow> kafka option" where
  "kafka_step marshal None e = None"
| "kafka_step marshal (Some k) (Publish ev) = Kafka_Publish ev k"
| "kafka_step marshal (Some k) Drain = Kafka_run marshal k"
| "kafka_step marshal (Some k) CloseBegin = Kafka_Close_begin k"
| "kafka_step marshal (Some k) CloseFinish = Kafka_Close_finish k"

fun published :: "kafka_event list \<Rightarrow> transcript_event list" where
  "published [] = []"
| "published (Publish ev # es) = ev # published es"
| "published (_ # es) = published es"

lemma published_append [simp]: "published (es @ fs) = published es @ published fs"
  by (induction es rule: published.induct) auto

lemmas kafka_defs [op_defs] = Kafka_Publish_def Kafka_run_def Kafka_Close_begin_def Kafka_Close_finish_def

definition kafka_ok :: "kafka option \<Rightarrow> bool" where
  "kafka_ok s = (case s of None \<Rightarrow> False | Some k \<Rightarrow>
     length (kf_ch k) \<le> kafkaBuffer \<and> kf_chClosed k = kf_closed k \<and>
     (kf_done k \<longrightarrow> kf_closed k \<and> kf_ch k = []) \<and> (kf_clClosed k \<longrightarrow> kf_done k))"

lemma kafka_step_ok: "kafka_ok s \<Longrightarrow> kafka_ok (kafka_step marshal s e)"
  by (cases s; cases e) (auto simp: kafka_defs kafka_ok_def split: list.splits option.splits)

interpretation kafka: machine "kafka_step marshal" kafka_ok
  by unfold_locales (rule kafka_step_ok)

definition producible :: "(transcript_event \<Rightarrow> bytes option) \<Rightarrow> transcript_event \<Rightarrow> (string \<times> bytes) option" where
  "producible marshal ev = map_option (Pair (partitionKey ev)) (marshal ev)"

text \<open>How the publisher accounts for the events \<open>pubs\<close> published so far.\<close>

definition accounts :: "(transcript_event \<Rightarrow> bytes option) \<Rightarrow> kafka \<Rightarrow> transcript_event list \<Rightarrow> bool" where
  "accounts marshal k pubs = (\<exists>taken.
     subseq (taken @ kf_ch k) pubs \<and>
     kf_produced k = List.map_filter (producible marshal) taken \<and>
     kf_dropped k = word_of_nat (length pubs - length (taken @ kf_ch k)))"

lemma map_filter_snoc:
  "List.map_filter f (xs @ [x]) =
     List.map_filter f xs @ (case f x of None \<Rightarrow> [] | Some y \<Rightarrow> [y])"
  by (induction xs) (auto simp: List.map_filter_simps split: option.splits)

lemma accounts_step:
  assumes "kafka_ok (Some k)" and "accounts marshal k pubs"
    and "kafka_step marshal (Some k) e = Some k'"
  shows "accounts marshal k' (pubs @ published [e])"
proof -
  from assms(2) obtain taken where t: "subseq (taken @ kf_ch k) pubs"
    "kf_produced k = List.map_filter (producible marshal) taken"
    "kf_dropped k = word_of_nat (length pubs - length (taken @ kf_ch k))"
    by (auto simp: accounts_def)
  note len = list_emb_length[OF t(1)]
  show ?thesis
  proof (cases e)
    case (Publish ev)
    have acc: "subseq (taken @ kf_ch k @ [ev]) (pubs @ [ev])"
      using t(1) by (simp add: list_emb_append_mono flip: append_assoc)
    have drop: "subseq (taken @ kf_ch k) (pubs @ [ev])"
      using t(1) by (simp add: subseq_rev_drop_many)
    show ?thesis
      using Publish assms(3) t(2,3) acc drop len
      by (auto simp: kafka_defs accounts_def Suc_diff_le split: if_splits intro!: exI[of _ taken])
  next
    case Drain
    show ?thesis
    proof (cases "kf_done k \<or> kf_ch k = []")
      case True
      with Drain assms(3) t show ?thesis
        by (auto simp: kafka_defs accounts_def split: if_splits list.splits intro!: exI[of _ taken])
    next
      case False
      then obtain ev evs where "kf_ch k = ev # evs" by (cases "kf_ch k") auto
      with False Drain assms(3) t show ?thesis
        by (auto simp: kafka_defs accounts_def producible_def map_filter_snoc
            split: option.splits intro!: exI[of _ "taken @ [ev]"])
    qed
  next
    case CloseBegin
    with assms(3) t show ?thesis
      by (auto simp: kafka_defs accounts_def split: if_splits intro!: exI[of _ taken])
  next
    case CloseFinish
    with assms(3) t show ?thesis
      by (auto simp: kafka_defs accounts_def split: if_splits intro!: exI[of _ taken])
  qed
qed

lemma kafka_run_accounts:
  "\<exists>k. run (kafka_step marshal) (Some NewKafka) es = Some k
     \<and> length (kf_ch k) \<le> kafkaBuffer \<and> accounts marshal k (published es)"
proof -
  have ok: "kafka_ok (run (kafka_step marshal) (Some NewKafka) es)" for es
    by (rule kafka.run_inv) (simp add: kafka_ok_def NewKafka_def)
  have "\<exists>k. run (kafka_step marshal) (Some NewKafka) es = Some k \<and> accounts marshal k (published es)"
  proof (induction es rule: rev_induct)
    case Nil
    show ?case by (auto simp: accounts_def NewKafka_def List.map_filter_simps intro!: exI[of _ "[]"])
  next
    case (snoc e es)
    then obtain k where k: "run (kafka_step marshal) (Some NewKafka) es = Some k"
      "accounts marshal k (published es)" by blast
    with ok[of "es @ [e]"] obtain k' where "kafka_step marshal (Some k) e = Some k'"
      by (auto simp: kafka_ok_def split: option.splits)
    with accounts_step[OF _ k(2)] ok[of es] k show ?case by simp
  qed
  with ok[of es] show ?thesis by (auto simp: kafka_ok_def split: option.splits)
qed

text \<open>A publisher that has dropped nothing and has nothing left in its queue has produced everything.\<close>

lemma accounts_complete:
  assumes "accounts marshal k pubs" and "kf_dropped k = 0" and "kf_ch k = []" and "length pubs < 2 ^ 64"
  shows "kf_produced k = List.map_filter (producible marshal) pubs"
proof -
  from assms(1,3) obtain taken where t: "subseq taken pubs"
    "kf_produced k = List.map_filter (producible marshal) taken"
    "kf_dropped k = word_of_nat (length pubs - length taken)"
    by (auto simp: accounts_def)
  have "unat (kf_dropped k) = length pubs - length taken"
    using assms(4) by (simp add: t(3) unat_of_nat)
  then have "length taken = length pubs" using assms(2) list_emb_length[OF t(1)] by simp
  then have "taken = pubs" using t(1) by (simp add: subseq_same_length)
  then show ?thesis using t(2) by simp
qed

text \<open>
  C24: The publisher never panics and never loses count: under every interleaving of publishing,
  draining and closing, no send or close hits a closed channel; the queue holds at most 1024
  events; the events accepted are a subsequence of those published, in order, of which the drained
  ones were produced in that order under their partition keys (those that marshal) and the rest are
  queued; and \<open>dropped\<close> counts exactly the others.\<close>

theorem kafka_accounting:
  "\<exists>k. run (kafka_step marshal) (Some NewKafka) es = Some k
     \<and> length (kf_ch k) \<le> kafkaBuffer \<and> accounts marshal k (published es)"
  by (rule kafka_run_accounts)

text \<open>
  Shutdown completes and drains: once closed, a publisher with \<open>n\<close> queued events ends after
  \<open>n + 1\<close> turns of its drain goroutine, with every queued event handed on in order and \<open>Close\<close> free
  to return.\<close>

theorem kafka_close_drains:
  assumes "kafka_ok (Some k)" and "kf_closed k" and "\<not> kf_done k"
  shows "\<exists>k'. run (kafka_step marshal) (Some k) (replicate (length (kf_ch k) + 1) Drain @ [CloseFinish])
           = Some k' \<and> kf_clClosed k' \<and> kf_ch k' = [] \<and>
           kf_produced k' = kf_produced k @ List.map_filter (producible marshal) (kf_ch k)"
proof -
  have "run (kafka_step marshal) (Some k) (replicate (length evs + 1) Drain @ [CloseFinish]) =
      Some (k\<lparr>kf_ch := [], kf_done := True, kf_clClosed := True,
             kf_produced := kf_produced k @ List.map_filter (producible marshal) evs\<rparr>)"
    if "kf_ch k = evs" "kf_chClosed k" "kf_closed k" "\<not> kf_done k" for evs and k :: kafka
    using that
  proof (induction evs arbitrary: k)
    case Nil
    then show ?case by (auto simp: kafka_defs List.map_filter_simps)
  next
    case (Cons ev evs)
    let ?k = "k\<lparr>kf_ch := evs, kf_produced := kf_produced k @
        (case producible marshal ev of None \<Rightarrow> [] | Some y \<Rightarrow> [y])\<rparr>"
    have "Kafka_run marshal k = Some ?k"
      using Cons.prems by (auto simp: Kafka_run_def producible_def split: option.splits)
    with Cons.IH[of ?k] Cons.prems show ?case
      by (simp add: List.map_filter_simps split: option.splits)
  qed
  with assms show ?thesis by (auto simp: kafka_ok_def)
qed

definition demo_event :: transcript_event where
  "demo_event = \<lparr>ev_SchemaVersion = 1, ev_EventId = ''e'', ev_SessionId = ''s'', ev_UserId = ''u'',
     ev_Seq = 1, ev_Role = ROLE_USER, ev_Text = ''hi'', ev_Ts = 0, ev_Provider = ''gemini''\<rparr>"

theorem kafka_close_drains_witness:
  "\<exists>k'. run (kafka_step (\<lambda>ev. Some [1])) (Some (NewKafka\<lparr>kf_ch := [demo_event], kf_closed := True, kf_chClosed := True\<rparr>))
      (replicate 2 Drain @ [CloseFinish]) = Some k' \<and> kf_clClosed k' \<and> kf_produced k' = [(''u'', [1])]"
proof -
  let ?k = "NewKafka\<lparr>kf_ch := [demo_event], kf_closed := True, kf_chClosed := True\<rparr>"
  have "kafka_ok (Some ?k)" "kf_closed ?k" "\<not> kf_done ?k"
    by (simp_all add: kafka_ok_def NewKafka_def kafkaBuffer_def)
  from kafka_close_drains[OF this, of "\<lambda>ev. Some [1]"] show ?thesis
    by (auto simp: NewKafka_def demo_event_def partitionKey_def producible_def List.map_filter_simps
        numeral_2_eq_2)
qed

subsection \<open>The replay client\<close>

text \<open>\<open>strings.TrimRight(s, "/")\<close>.\<close>

definition trim_slashes :: "string \<Rightarrow> string" where
  "trim_slashes s = rev (dropWhile (\<lambda>c. c = CHR ''/'') (rev s))"

definition NewReplayClient :: "string \<Rightarrow> string" where
  "NewReplayClient baseURL = trim_slashes (trim_space baseURL)"

text \<open>
  A request is the base URL with the path and the query parameters.  \<open>http\<close> performs it and reads the
  response (third-party HTTP and JSON decoding): an error, or the status, the body's start and the
  decoding of the events.
\<close>

type_synonym query = "(string \<times> string) list"

record http_reply =
  hr_status :: int
  hr_statusText :: string
  hr_bodyStart :: string
  hr_events :: "go_error + transcript_event list"

definition ReplayClient_Replay ::
  "(string \<Rightarrow> query \<Rightarrow> go_error + http_reply) \<Rightarrow> string option \<Rightarrow> SessionID \<Rightarrow> UserID \<Rightarrow> string
     \<Rightarrow> u64 \<Rightarrow> int \<Rightarrow> go_error + transcript_event list" where
  "ReplayClient_Replay http c sessionID userID provider afterSeq limit =
     (case c of
        None \<Rightarrow> Inr []
      | Some base \<Rightarrow>
          (if base = '''' \<or> sessionID = '''' \<or> Anonymous userID then Inr []
           else (let limit' = (if limit \<le> 0 then 256 else limit);
                     q = [(''session_id'', sessionID), (''user_id'', userID), (''provider'', provider),
                          (''after_seq'', format_nat (unat afterSeq)), (''limit'', format_int limit')] in
                 case http (base @ ''/v1/replay'') q of
                   Inl e \<Rightarrow> Inl e
                 | Inr r \<Rightarrow>
                     (if hr_status r \<noteq> 200
                      then Inl (''replay-index: '' @ hr_statusText r @ '': '' @ trim_space (hr_bodyStart r))
                      else hr_events r))))"

end
