(* ===== verification/Replayindex.thy ===== *)
theory Replayindex
  imports Sidechannel "HOL-Library.AList" "HOL-Library.Multiset"
begin

text \<open>
  The replay index, \<open>internal/replayindex/store.go\<close>, and its HTTP endpoint in \<open>cmd/replay/main.go\<close>:
  a bounded in-memory index of side-channel events, by session, that serves the cross-node
  reconnect.

  The sessions are an association list with distinct keys.  Go's iteration order over a map is
  unspecified, and matters where the oldest session is evicted: an ingest carries the order its
  \<open>range\<close> loop happens to use, as a rearrangement of the list.  A session index is a pointer, so an
  ingest that evicts the very session it has just added goes on to write to an index that is no
  longer in the map.
\<close>

subsection \<open>State\<close>

record index_config =
  ic_MaxSessions :: int
  ic_MaxLinesPerSess :: int
  ic_SessionTTL :: duration

record session_index =
  si_userID :: string
  si_provider :: string
  si_events :: "transcript_event list"
  si_maxSeq :: u64
  si_expiry :: time

record store =
  ix_cfg :: index_config
  ix_sessions :: "(string \<times> session_index) list"

type_synonym range_order = "(string \<times> session_index) list \<Rightarrow> (string \<times> session_index) list"

definition NewStore :: "index_config \<Rightarrow> store" where
  "NewStore cfg =
     \<lparr>ix_cfg =
        \<lparr>ic_MaxSessions = (if ic_MaxSessions cfg \<le> 0 then 10000 else ic_MaxSessions cfg),
         ic_MaxLinesPerSess = (if ic_MaxLinesPerSess cfg \<le> 0 then 512 else ic_MaxLinesPerSess cfg),
         ic_SessionTTL = (if ic_SessionTTL cfg \<le> 0 then 24 * 60 * minute else ic_SessionTTL cfg)\<rparr>,
      ix_sessions = []\<rparr>"

subsection \<open>Operations\<close>

definition evictExpired :: "time \<Rightarrow> store \<Rightarrow> store" where
  "evictExpired now s =
     s\<lparr>ix_sessions := filter (\<lambda>(sid, idx). \<not> si_expiry idx < now) (ix_sessions s)\<rparr>"

text \<open>The order of a \<open>range\<close> loop: \<open>iter\<close> where it rearranges the entries, the list's own otherwise.\<close>

definition ranged :: "range_order \<Rightarrow> range_order" where
  "ranged iter xs = (if mset (iter xs) = mset xs then iter xs else xs)"

text \<open>The loop's variables \<open>oldestID\<close> and \<open>oldestExpiry\<close>; \<^const>\<open>None\<close> while \<open>first\<close> holds.\<close>

fun oldest :: "(string \<times> time) option \<Rightarrow> (string \<times> session_index) list \<Rightarrow> (string \<times> time) option" where
  "oldest acc [] = acc"
| "oldest acc ((sid, idx) # rest) =
     (case acc of
        None \<Rightarrow> oldest (Some (sid, si_expiry idx)) rest
      | Some (oid, oexp) \<Rightarrow>
          oldest (if si_expiry idx < oexp then Some (sid, si_expiry idx) else acc) rest)"

definition evictOldest :: "range_order \<Rightarrow> store \<Rightarrow> store" where
  "evictOldest iter s =
     (case oldest None (ranged iter (ix_sessions s)) of
        None \<Rightarrow> s
      | Some (oid, _) \<Rightarrow>
          if oid \<noteq> '''' then s\<lparr>ix_sessions := AList.delete oid (ix_sessions s)\<rparr> else s)"

text \<open>
  The part of \<open>Ingest\<close> that works on the session's index: a known sequence number is a duplicate;
  a new event is added in order, the list is cut to its last lines, and \<open>maxSeq\<close> is raised.  Sequence
  numbers in an index are distinct, so that \<open>sort.Slice\<close> is not stable makes no difference.
\<close>

definition index_add :: "nat \<Rightarrow> transcript_event \<Rightarrow> session_index \<Rightarrow> session_index" where
  "index_add maxLines ev idx =
     (if \<exists>existing \<in> set (si_events idx). ev_Seq existing = ev_Seq ev then idx
      else idx\<lparr>si_events := keep_last maxLines (sort_key ev_Seq (si_events idx @ [ev])),
               si_maxSeq := (if si_maxSeq idx < ev_Seq ev then ev_Seq ev else si_maxSeq idx)\<rparr>)"

text \<open>The session's index, created when it is missing, and the store with it.\<close>

definition index_for ::
  "range_order \<Rightarrow> time \<Rightarrow> transcript_event \<Rightarrow> store \<Rightarrow> session_index \<times> store" where
  "index_for iter expiry ev s =
     (case map_of (ix_sessions s) (ev_SessionId ev) of
        Some idx \<Rightarrow> (idx, s)
      | None \<Rightarrow>
          (let idx = \<lparr>si_userID = ev_UserId ev, si_provider = ev_Provider ev,
                      si_events = [], si_maxSeq = 0, si_expiry = expiry\<rparr>;
               s' = s\<lparr>ix_sessions := (ev_SessionId ev, idx) # ix_sessions s\<rparr> in
           (idx, if ic_MaxSessions (ix_cfg s) < int (length (ix_sessions s'))
                 then evictOldest iter s' else s')))"

text \<open>The rest of \<open>Ingest\<close> writes through the pointer: the map sees it if it still holds the index.\<close>

definition index_write :: "time \<Rightarrow> transcript_event \<Rightarrow> session_index \<Rightarrow> store \<Rightarrow> store" where
  "index_write expiry ev idx s =
     (let idx1 = idx\<lparr>si_userID := ev_UserId ev, si_provider := ev_Provider ev,
                     si_expiry := expiry\<rparr>;
          idx2 = index_add (nat (ic_MaxLinesPerSess (ix_cfg s))) ev idx1 in
      if ev_SessionId ev \<in> fst ` set (ix_sessions s)
      then s\<lparr>ix_sessions := AList.update (ev_SessionId ev) idx2 (ix_sessions s)\<rparr>
      else s)"

definition Ingest :: "range_order \<Rightarrow> time \<Rightarrow> transcript_event option \<Rightarrow> store \<Rightarrow> store" where
  "Ingest iter now evp s =
     (case evp of
        None \<Rightarrow> s
      | Some ev \<Rightarrow>
          if ev_SessionId ev = '''' \<or> ev_UserId ev = '''' then s
          else
            (let expiry = now + ic_SessionTTL (ix_cfg s);
                 (idx, s2) = index_for iter expiry ev (evictExpired now s) in
             index_write expiry ev idx s2))"

definition Query ::
  "store \<Rightarrow> time \<Rightarrow> string \<Rightarrow> string \<Rightarrow> string \<Rightarrow> u64 \<Rightarrow> int \<Rightarrow> transcript_event list" where
  "Query s now sessionID userID provider afterSeq limit =
     (if sessionID = '''' \<or> userID = '''' then []
      else
        (let limit' = (if limit \<le> 0 then 256 else limit) in
         case map_of (ix_sessions s) sessionID of
           None \<Rightarrow> []
         | Some idx \<Rightarrow>
             (if si_userID idx \<noteq> userID \<or> si_provider idx \<noteq> provider \<or> si_expiry idx < now then []
              else take (nat limit') (filter (\<lambda>ev. \<not> ev_Seq ev \<le> afterSeq) (si_events idx)))))"

text \<open>
  The allocation of \<open>Query\<close>, made while the read lock is held: \<open>make\<close> panics for a capacity of more than
  2^45 pointers (2^48 bytes, the address space of a 64-bit Go program).
\<close>

definition maxSliceCap :: int where
  "maxSliceCap = 2 ^ 45"

definition Query_panics :: "store \<Rightarrow> time \<Rightarrow> string \<Rightarrow> string \<Rightarrow> string \<Rightarrow> int \<Rightarrow> bool" where
  "Query_panics s now sessionID userID provider limit =
     (if sessionID = '''' \<or> userID = '''' then False
      else
        (let limit' = (if limit \<le> 0 then 256 else limit) in
         case map_of (ix_sessions s) sessionID of
           None \<Rightarrow> False
         | Some idx \<Rightarrow>
             (if si_userID idx \<noteq> userID \<or> si_provider idx \<noteq> provider \<or> si_expiry idx < now then False
              else maxSliceCap < limit')))"

text \<open>
  The endpoint passes on any limit that \<open>strconv.Atoi\<close> reads, so the owner of a live session can make
  \<open>Query\<close> panic; the HTTP server recovers the panic, but the read lock is never given back, and the next
  \<open>Ingest\<close> waits for it for ever.
\<close>

lemma huge_limit_panics:
  assumes "map_of (ix_sessions s) sid = Some idx" and "\<not> si_expiry idx < now" and "sid \<noteq> ''''" and "si_userID idx \<noteq> ''''"
  shows "Query_panics s now sid (si_userID idx) (si_provider idx) (2 ^ 63 - 1)"
  using assms by (simp add: Query_panics_def maxSliceCap_def)

definition Store_Stats :: "store \<Rightarrow> time \<Rightarrow> nat \<times> nat" where
  "Store_Stats s now =
     (let live = filter (\<lambda>(sid, idx). \<not> si_expiry idx < now) (ix_sessions s) in
      (length live, sum_list (map (\<lambda>(sid, idx). length (si_events idx)) live)))"

subsection \<open>The endpoint\<close>

text \<open>\<open>r.URL.Query().Get(key)\<close>: the first value of the key, or the empty string.\<close>

definition query_get :: "query \<Rightarrow> string \<Rightarrow> string" where
  "query_get q key = (case map_of q key of None \<Rightarrow> '''' | Some v \<Rightarrow> v)"

text \<open>
  \<open>GET /v1/replay\<close>: the status and, when it is 200, the JSON encodings of the events found.
  \<open>encode\<close> is \<open>protojson.Marshal\<close>.
\<close>

definition replay_endpoint ::
  "(transcript_event \<Rightarrow> string option) \<Rightarrow> store \<Rightarrow> time \<Rightarrow> string \<Rightarrow> query
     \<Rightarrow> int \<times> string \<times> string list" where
  "replay_endpoint encode s now method q =
     (if method \<noteq> ''GET'' then (405, ''method not allowed'', [])
      else
        (let sessionID = trim_space (query_get q ''session_id'');
             userID = trim_space (query_get q ''user_id'');
             provider = trim_space (query_get q ''provider'') in
         case parse_uint64 (query_get q ''after_seq'') of
           None \<Rightarrow> (400, ''invalid after_seq'', [])
         | Some afterSeq \<Rightarrow>
             (let limit = (case atoi (query_get q ''limit'') of
                             None \<Rightarrow> 256 | Some l \<Rightarrow> if l \<le> 0 then 256 else l);
                  evs = Query s now sessionID userID provider afterSeq limit in
              if \<exists>ev \<in> set evs. encode ev = None then (500, ''encode event'', [])
              else (200, '''', List.map_filter encode evs))))"

subsection \<open>The invariant\<close>

definition seq_sorted :: "transcript_event list \<Rightarrow> bool" where
  "seq_sorted evs = sorted_wrt (\<lambda>a b. ev_Seq a < ev_Seq b) evs"

definition index_ok :: "nat \<Rightarrow> string \<Rightarrow> session_index \<Rightarrow> bool" where
  "index_ok maxLines sid idx =
     (seq_sorted (si_events idx) \<and> length (si_events idx) \<le> maxLines \<and>
      (\<forall>ev \<in> set (si_events idx). ev_Seq ev \<le> si_maxSeq idx \<and> ev_SessionId ev = sid) \<and>
      si_userID idx \<noteq> '''')"

definition store_ok :: "store \<Rightarrow> bool" where
  "store_ok s =
     (0 < ic_MaxSessions (ix_cfg s) \<and> 0 < ic_MaxLinesPerSess (ix_cfg s) \<and>
      0 < ic_SessionTTL (ix_cfg s) \<and>
      distinct (map fst (ix_sessions s)) \<and>
      int (length (ix_sessions s)) \<le> ic_MaxSessions (ix_cfg s) \<and>
      (\<forall>(sid, idx) \<in> set (ix_sessions s).
         sid \<noteq> '''' \<and> index_ok (nat (ic_MaxLinesPerSess (ix_cfg s))) sid idx))"

lemma seq_sorted_iff: "seq_sorted evs \<longleftrightarrow> sorted (map ev_Seq evs) \<and> distinct (map ev_Seq evs)"
  by (simp only: seq_sorted_def strict_sorted_iff[symmetric] sorted_wrt_map[symmetric])

lemma sort_key_seq_sorted:
  assumes "seq_sorted evs" and "\<forall>e \<in> set evs. ev_Seq e \<noteq> ev_Seq ev"
  shows "seq_sorted (sort_key ev_Seq (evs @ [ev]))"
proof -
  have "distinct (map ev_Seq (evs @ [ev]))" using assms by (auto simp: seq_sorted_iff)
  moreover have "mset (map ev_Seq (sort_key ev_Seq (evs @ [ev]))) = mset (map ev_Seq (evs @ [ev]))"
    by simp
  ultimately have "distinct (map ev_Seq (sort_key ev_Seq (evs @ [ev])))"
    by (metis mset_eq_imp_distinct_iff)
  then show ?thesis by (simp only: seq_sorted_iff sorted_sort_key simp_thms)
qed

lemma index_add_ok [inv_rules]:
  assumes "index_ok n sid idx" and "ev_SessionId ev = sid"
  shows "index_ok n sid (index_add n ev idx)"
proof (cases "\<exists>e \<in> set (si_events idx). ev_Seq e = ev_Seq ev")
  case False
  let ?evs = "sort_key ev_Seq (si_events idx @ [ev])"
  have "seq_sorted ?evs" using assms False by (auto simp: index_ok_def intro: sort_key_seq_sorted)
  then have "seq_sorted (keep_last n ?evs)" by (simp add: seq_sorted_def sorted_wrt_keep_last)
  then show ?thesis
    using assms False
    by (auto simp: index_ok_def index_add_def dest!: in_keep_lastD)
      (meson order.strict_implies_order order_le_less_trans)
qed (simp add: assms index_add_def)

lemma oldest_mem:
  "oldest acc xs = Some (i, t) \<Longrightarrow> acc = Some (i, t) \<or> i \<in> fst ` set xs"
  by (induction acc xs rule: oldest.induct) (force split: option.splits if_splits)+

lemma oldest_Some: "acc \<noteq> None \<or> xs \<noteq> [] \<Longrightarrow> oldest acc xs \<noteq> None"
  by (induction acc xs rule: oldest.induct) (auto split: option.splits)

lemma set_ranged [simp]: "set (ranged iter xs) = set xs"
  using mset_eq_setD[of "iter xs" xs] by (auto simp: ranged_def)

lemma length_ranged [simp]: "length (ranged iter xs) = length xs"
  using mset_eq_length[of "iter xs" xs] by (auto simp: ranged_def)

lemma length_delete_key:
  "distinct (map fst xs) \<Longrightarrow> k \<in> fst ` set xs \<Longrightarrow> Suc (length (AList.delete k xs)) = length xs"
proof (induction xs)
  case (Cons x xs)
  show ?case
  proof (cases "fst x = k")
    case True
    with Cons.prems have "AList.delete k xs = xs" by (simp add: delete_id)
    with True show ?thesis by (cases x) (simp add: AList.delete_eq)
  next
    case False
    with Cons show ?thesis by (cases x) (auto simp: AList.delete_eq)
  qed
qed simp

lemma evictOldest_facts:
  assumes "distinct (map fst (ix_sessions s))" and "ix_sessions s \<noteq> []"
    and "'''' \<notin> fst ` set (ix_sessions s)"
  shows "Suc (length (ix_sessions (evictOldest iter s))) = length (ix_sessions s)"
    and "distinct (map fst (ix_sessions (evictOldest iter s)))"
    and "set (ix_sessions (evictOldest iter s)) \<subseteq> set (ix_sessions s)"
    and "ix_cfg (evictOldest iter s) = ix_cfg s"
proof -
  have "ranged iter (ix_sessions s) \<noteq> []" using assms(2) length_ranged by (metis length_0_conv)
  then obtain oid t where o: "oldest None (ranged iter (ix_sessions s)) = Some (oid, t)"
    using oldest_Some by (metis option.exhaust surj_pair)
  then have k: "oid \<in> fst ` set (ix_sessions s)" using oldest_mem by fastforce
  with assms(3) have "oid \<noteq> ''''" by metis
  with o have e: "evictOldest iter s = s\<lparr>ix_sessions := AList.delete oid (ix_sessions s)\<rparr>"
    by (simp add: evictOldest_def)
  show "Suc (length (ix_sessions (evictOldest iter s))) = length (ix_sessions s)"
    using assms(1) k by (simp add: e length_delete_key)
  show "distinct (map fst (ix_sessions (evictOldest iter s)))"
    using assms(1) by (simp add: e distinct_delete)
  show "set (ix_sessions (evictOldest iter s)) \<subseteq> set (ix_sessions s)"
    by (auto simp: e AList.delete_eq)
  show "ix_cfg (evictOldest iter s) = ix_cfg s" by (simp add: e)
qed

lemma evictExpired_ok [inv_rules]: "store_ok s \<Longrightarrow> store_ok (evictExpired now s)"
  by (auto simp: store_ok_def evictExpired_def distinct_map_filter
      intro: order_trans[OF of_nat_mono[OF length_filter_le]])

lemma index_for_ok:
  assumes "store_ok s" and "ev_SessionId ev \<noteq> ''''" and "ev_UserId ev \<noteq> ''''"
    and "index_for iter expiry ev s = (idx, s2)"
  shows "store_ok s2" and "index_ok (nat (ic_MaxLinesPerSess (ix_cfg s2))) (ev_SessionId ev) idx"
proof -
  let ?sid = "ev_SessionId ev"
  let ?idx = "\<lparr>si_userID = ev_UserId ev, si_provider = ev_Provider ev,
               si_events = [], si_maxSeq = 0, si_expiry = expiry\<rparr>"
  let ?s' = "s\<lparr>ix_sessions := (?sid, ?idx) # ix_sessions s\<rparr>"
  have new: "index_ok n ?sid ?idx" for n using assms(3) by (simp add: index_ok_def seq_sorted_def)
  have "store_ok s2 \<and> index_ok (nat (ic_MaxLinesPerSess (ix_cfg s2))) ?sid idx"
  proof (cases "map_of (ix_sessions s) ?sid")
    case (Some i)
    then show ?thesis using assms(1,4) by (auto simp: index_for_def store_ok_def dest: map_of_SomeD)
  next
    case None
    then have fresh: "?sid \<notin> fst ` set (ix_sessions s)" by (simp add: map_of_eq_None_iff)
    show ?thesis
    proof (cases "ic_MaxSessions (ix_cfg s) < int (length (ix_sessions ?s'))")
      case False
      with None assms(4) have "idx = ?idx" "s2 = ?s'" by (auto simp: index_for_def Let_def)
      then show ?thesis using assms(1,2) False fresh new by (auto simp: store_ok_def)
    next
      case True
      with None assms(4) have eq: "idx = ?idx" "s2 = evictOldest iter ?s'"
        by (auto simp: index_for_def Let_def)
      have "distinct (map fst (ix_sessions ?s'))" "ix_sessions ?s' \<noteq> []"
        "'''' \<notin> fst ` set (ix_sessions ?s')"
        using assms(1,2) fresh by (auto simp: store_ok_def)
      note facts = evictOldest_facts[OF this, of iter, folded eq(2)]
      have "\<forall>(sid, idx) \<in> set (ix_sessions ?s').
          sid \<noteq> '''' \<and> index_ok (nat (ic_MaxLinesPerSess (ix_cfg s))) sid idx"
        using assms(1,2) new by (auto simp: store_ok_def)
      with facts have "\<forall>(sid, idx) \<in> set (ix_sessions s2).
          sid \<noteq> '''' \<and> index_ok (nat (ic_MaxLinesPerSess (ix_cfg s))) sid idx"
        by blast
      then show ?thesis using assms(1) facts new by (simp add: store_ok_def eq(1))
    qed
  qed
  then show "store_ok s2" and "index_ok (nat (ic_MaxLinesPerSess (ix_cfg s2))) ?sid idx" by auto
qed

lemma set_update_subset: "set (AList.update k v xs) \<subseteq> insert (k, v) (set xs)"
  by (induction xs) auto

lemma index_write_ok:
  assumes "store_ok s" and "ev_SessionId ev \<noteq> ''''" and "ev_UserId ev \<noteq> ''''"
    and "index_ok (nat (ic_MaxLinesPerSess (ix_cfg s))) (ev_SessionId ev) idx"
  shows "store_ok (index_write expiry ev idx s)"
proof (cases "ev_SessionId ev \<in> fst ` set (ix_sessions s)")
  case True
  define idx2 where "idx2 = index_add (nat (ic_MaxLinesPerSess (ix_cfg s))) ev
    (idx\<lparr>si_userID := ev_UserId ev, si_provider := ev_Provider ev, si_expiry := expiry\<rparr>)"
  have ok: "index_ok (nat (ic_MaxLinesPerSess (ix_cfg s))) (ev_SessionId ev) idx2"
    unfolding idx2_def by (rule index_add_ok) (use assms(3,4) in \<open>auto simp: index_ok_def\<close>)
  let ?xs = "AList.update (ev_SessionId ev) idx2 (ix_sessions s)"
  have "map fst ?xs = map fst (ix_sessions s)" using True by (simp add: update_keys)
  then have "length ?xs = length (ix_sessions s)" by (metis length_map)
  moreover have "set ?xs \<subseteq> insert (ev_SessionId ev, idx2) (set (ix_sessions s))"
    by (rule set_update_subset)
  moreover have "index_write expiry ev idx s = s\<lparr>ix_sessions := ?xs\<rparr>"
    using True by (simp add: index_write_def idx2_def)
  ultimately show ?thesis
    using assms(1,2) ok by (auto simp: store_ok_def distinct_update)
next
  case False
  then show ?thesis using assms(1) by (simp add: index_write_def Let_def)
qed

lemma Ingest_ok [inv_rules]:
  assumes "store_ok s"
  shows "store_ok (Ingest iter now evp s)"
proof (cases "\<exists>ev. evp = Some ev \<and> ev_SessionId ev \<noteq> '''' \<and> ev_UserId ev \<noteq> ''''")
  case False
  then show ?thesis using assms by (auto simp: Ingest_def split: option.splits)
next
  case True
  then obtain ev where ev: "evp = Some ev" "ev_SessionId ev \<noteq> ''''" "ev_UserId ev \<noteq> ''''" by blast
  obtain idx s2 where
    i: "index_for iter (now + ic_SessionTTL (ix_cfg s)) ev (evictExpired now s) = (idx, s2)"
    by fastforce
  note ok = index_for_ok[OF evictExpired_ok[OF assms] ev(2,3) i]
  show ?thesis using index_write_ok[OF ok(1) ev(2,3) ok(2)] ev i by (simp add: Ingest_def)
qed

type_synonym ingest_event = "range_order \<times> time \<times> transcript_event option"

definition index_step :: "store \<Rightarrow> ingest_event \<Rightarrow> store" where
  "index_step s e = (case e of (iter, now, evp) \<Rightarrow> Ingest iter now evp s)"

interpretation index: machine index_step store_ok
  by unfold_locales (auto simp: index_step_def intro: inv_rules)

lemma NewStore_ok: "store_ok (NewStore cfg)"
  by (simp add: NewStore_def store_ok_def)

lemma index_bounded_cfg:
  "ix_cfg (run index_step (NewStore cfg) es) = ix_cfg (NewStore cfg)"
proof -
  have "ix_cfg (evictOldest iter t) = ix_cfg t" for iter t
    by (simp add: evictOldest_def split: option.splits)
  then have "ix_cfg (index_step s e) = ix_cfg s" for s e
    by (auto simp: index_step_def Ingest_def evictExpired_def index_for_def index_write_def Let_def
        split: prod.splits option.splits if_splits)
  then show ?thesis by (induction es rule: rev_induct) auto
qed

text \<open>
  C25: Whatever is consumed from the topic, in whatever order and at whatever times, the index stays
  within its bounds: at most \<open>MaxSessions\<close> sessions, at most \<open>MaxLinesPerSess\<close> events each (the
  defaults standing in for bounds that are not positive), every list strictly increasing in \<open>seq\<close>
  and holding events of its own session only, and no session without an authenticated user.
\<close>

theorem index_bounded:
  "store_ok (run index_step (NewStore cfg) es) \<and>
   ix_cfg (run index_step (NewStore cfg) es) = ix_cfg (NewStore cfg)"
  using index.run_inv[OF NewStore_ok] index_bounded_cfg by simp

subsection \<open>What a session's index holds\<close>

text \<open>
  The specification: the full log of a session, its events once each in the order of \<open>seq\<close>; the
  index holds the last \<open>n\<close> of it.
\<close>

definition log_add :: "transcript_event \<Rightarrow> transcript_event list \<Rightarrow> transcript_event list" where
  "log_add ev evs =
     (if \<exists>e \<in> set evs. ev_Seq e = ev_Seq ev then evs else sort_key ev_Seq (evs @ [ev]))"

lemma log_add_sorted: "seq_sorted evs \<Longrightarrow> seq_sorted (log_add ev evs)"
  by (auto simp: log_add_def intro: sort_key_seq_sorted)

lemma set_log_add:
  "\<forall>e \<in> set evs. ev_Seq e = ev_Seq ev \<longrightarrow> e = ev \<Longrightarrow> set (log_add ev evs) = insert ev (set evs)"
  by (auto simp: log_add_def)

lemma seq_sorted_unique:
  assumes "seq_sorted xs" and "seq_sorted ys" and "set xs = set ys"
  shows "xs = ys"
proof (rule map_sorted_distinct_set_unique)
  show "inj_on ev_Seq (set xs \<union> set ys)" using assms by (simp add: seq_sorted_iff distinct_map)
qed (use assms in \<open>auto simp: seq_sorted_iff\<close>)

lemma seq_sorted_append:
  "seq_sorted (xs @ ys) \<longleftrightarrow>
     seq_sorted xs \<and> seq_sorted ys \<and> (\<forall>x \<in> set xs. \<forall>y \<in> set ys. ev_Seq x < ev_Seq y)"
  by (simp add: seq_sorted_def sorted_wrt_append)

lemma seq_sorted_keep_last: "seq_sorted evs \<Longrightarrow> seq_sorted (keep_last n evs)"
  by (simp add: seq_sorted_def sorted_wrt_keep_last)

text \<open>Cutting the window commutes with adding an event, also one that was cut before.\<close>

lemma log_add_window:
  assumes "seq_sorted evs"
  shows "keep_last n (log_add ev (keep_last n evs)) = keep_last n (log_add ev evs)"
proof -
  obtain us where evs: "evs = us @ keep_last n evs" using keep_last_suffix by blast
  define w where "w = keep_last n evs"
  have ew: "evs = us @ w" using evs by (simp add: w_def)
  show ?thesis
  proof (cases "us = []")
    case True
    with ew show ?thesis by (simp add: w_def)
  next
    case False
    with ew have lw: "length w = n"
      by (metis append_self_conv2 keep_last_short length_keep_last min.absorb1 nat_le_linear w_def)
    have so: "seq_sorted us" "seq_sorted w" "\<forall>x \<in> set us. \<forall>y \<in> set w. ev_Seq x < ev_Seq y"
      using assms by (auto simp: ew seq_sorted_append)
    have kl: "keep_last n (xs @ ys) = keep_last n ys" if "n \<le> length ys" for xs ys :: "transcript_event list"
      using that by (simp add: keep_last_def)
    consider (w) e where "e \<in> set w" "ev_Seq e = ev_Seq ev"
      | (us) e where "e \<in> set us" "ev_Seq e = ev_Seq ev"
      | (low) e where "e \<in> set us" "ev_Seq ev < ev_Seq e" "\<forall>e \<in> set evs. ev_Seq e \<noteq> ev_Seq ev"
      | (high) "\<forall>e \<in> set us. ev_Seq e < ev_Seq ev" "\<forall>e \<in> set evs. ev_Seq e \<noteq> ev_Seq ev"
      using ew by (metis Un_iff linorder_neqE set_append)
    then show ?thesis
    proof cases
      case w
      then have "log_add ev w = w" "log_add ev evs = evs" using ew by (auto simp: log_add_def)
      then show ?thesis using lw by (simp add: w_def[symmetric])
    next
      case us
      then have lt: "\<forall>y \<in> set w. ev_Seq ev < ev_Seq y" using so by metis
      then have "\<not> (\<exists>y \<in> set w. ev_Seq y = ev_Seq ev)" by auto
      moreover from this have "sort_key ev_Seq (w @ [ev]) = ev # w"
        using lt so by (intro seq_sorted_unique sort_key_seq_sorted) (auto simp: seq_sorted_def)
      ultimately have "log_add ev w = [ev] @ w" by (simp add: log_add_def)
      moreover have "log_add ev evs = us @ w" using us ew by (auto simp: log_add_def)
      ultimately show ?thesis using lw kl by (simp only: w_def[symmetric])
    next
      case low
      then have lt: "\<forall>y \<in> set w. ev_Seq ev < ev_Seq y" using so by (metis less_trans)
      have "sort_key ev_Seq (w @ [ev]) = [ev] @ w"
        using lt so low ew by (intro seq_sorted_unique sort_key_seq_sorted) (auto simp: seq_sorted_def)
      moreover have "sort_key ev_Seq (evs @ [ev]) = sort_key ev_Seq (us @ [ev]) @ w"
        using lt so low ew assms
        by (intro seq_sorted_unique sort_key_seq_sorted)
          (auto simp: seq_sorted_append intro: sort_key_seq_sorted)
      moreover have "log_add ev w = sort_key ev_Seq (w @ [ev])"
        "log_add ev evs = sort_key ev_Seq (evs @ [ev])"
        using low ew by (auto simp: log_add_def)
      ultimately show ?thesis using lw kl by (simp only: w_def[symmetric])
    next
      case high
      have "sort_key ev_Seq (evs @ [ev]) = us @ sort_key ev_Seq (w @ [ev])"
        using so high ew assms
        by (intro seq_sorted_unique sort_key_seq_sorted)
          (auto simp: seq_sorted_append intro: sort_key_seq_sorted)
      moreover have "log_add ev w = sort_key ev_Seq (w @ [ev])"
        "log_add ev evs = sort_key ev_Seq (evs @ [ev])"
        using high ew by (auto simp: log_add_def)
      ultimately show ?thesis using lw kl by (simp only: w_def[symmetric]) simp
    qed
  qed
qed

lemma index_add_log:
  assumes "0 < n" and "seq_sorted evs" and "si_events idx = keep_last n evs"
  shows "si_events (index_add n ev idx) = keep_last n (log_add ev evs)"
proof -
  have "si_events (index_add n ev idx) = keep_last n (log_add ev (keep_last n evs))"
    using assms(3) by (simp add: index_add_def log_add_def)
  then show ?thesis using log_add_window[OF assms(2)] by simp
qed

text \<open>The events of a run that \<open>Ingest\<close> indexes, those of one session, and its log.\<close>

definition accepted :: "ingest_event list \<Rightarrow> transcript_event list" where
  "accepted es = filter (\<lambda>ev. ev_SessionId ev \<noteq> '''' \<and> ev_UserId ev \<noteq> '''')
     (List.map_filter (\<lambda>(iter, now, evp). evp) es)"

definition events_of :: "string \<Rightarrow> ingest_event list \<Rightarrow> transcript_event list" where
  "events_of sid es = filter (\<lambda>ev. ev_SessionId ev = sid) (accepted es)"

definition session_log :: "string \<Rightarrow> ingest_event list \<Rightarrow> transcript_event list" where
  "session_log sid es = fold log_add (events_of sid es) []"

lemma accepted_append [simp]: "accepted (es @ fs) = accepted es @ accepted fs"
  by (simp add: accepted_def map_filter_def)

lemma events_of_append [simp]: "events_of sid (es @ fs) = events_of sid es @ events_of sid fs"
  by (simp add: events_of_def)

lemma fold_log_add_sorted: "seq_sorted evs \<Longrightarrow> seq_sorted (fold log_add xs evs)"
  by (induction xs arbitrary: evs) (auto intro: log_add_sorted)

lemma session_log_sorted: "seq_sorted (session_log sid es)"
  unfolding session_log_def by (rule fold_log_add_sorted) (simp add: seq_sorted_def)

lemma set_session_log:
  assumes "\<forall>a \<in> set (events_of sid es). \<forall>b \<in> set (events_of sid es). ev_Seq a = ev_Seq b \<longrightarrow> a = b"
  shows "set (session_log sid es) = set (events_of sid es)"
proof -
  have "set (fold log_add xs evs) = set evs \<union> set xs"
    if "\<forall>a \<in> set evs \<union> set xs. \<forall>b \<in> set evs \<union> set xs. ev_Seq a = ev_Seq b \<longrightarrow> a = b" for xs evs
    using that
  proof (induction xs arbitrary: evs)
    case (Cons x xs)
    then have "set (log_add x evs) = insert x (set evs)" by (intro set_log_add) auto
    with Cons show ?case by auto
  qed simp
  from this[of "[]" "events_of sid es"] assms show ?thesis by (simp add: session_log_def)
qed

text \<open>
  The situation in which nothing is evicted: the times of the run lie within one \<open>SessionTTL\<close>, and
  it has at most \<open>MaxSessions\<close> sessions.
\<close>

definition no_eviction :: "index_config \<Rightarrow> time \<Rightarrow> ingest_event list \<Rightarrow> bool" where
  "no_eviction cfg t0 es =
     ((\<forall>(iter, now, evp) \<in> set es. t0 \<le> now \<and> now \<le> t0 + ic_SessionTTL cfg) \<and>
      int (card (ev_SessionId ` set (accepted es))) \<le> ic_MaxSessions cfg)"

definition index_of_log :: "store \<Rightarrow> time \<Rightarrow> ingest_event list \<Rightarrow> bool" where
  "index_of_log s t0 es =
     (distinct (map fst (ix_sessions s)) \<and>
      fst ` set (ix_sessions s) = ev_SessionId ` set (accepted es) \<and>
      (\<forall>sid idx. map_of (ix_sessions s) sid = Some idx \<longrightarrow>
         si_events idx = keep_last (nat (ic_MaxLinesPerSess (ix_cfg s))) (session_log sid es) \<and>
         t0 + ic_SessionTTL (ix_cfg s) \<le> si_expiry idx \<and>
         si_userID idx = ev_UserId (last (events_of sid es)) \<and>
         si_provider idx = ev_Provider (last (events_of sid es))))"

lemma index_of_log_Ingest:
  assumes inv: "index_of_log s t0 es" and cfg: "0 < ic_MaxLinesPerSess (ix_cfg s)"
    and ev: "ev_SessionId ev \<noteq> ''''" "ev_UserId ev \<noteq> ''''"
    and t: "t0 \<le> now" "now \<le> t0 + ic_SessionTTL (ix_cfg s)"
    and room: "int (card (insert (ev_SessionId ev) (ev_SessionId ` set (accepted es))))
                 \<le> ic_MaxSessions (ix_cfg s)"
  shows "index_of_log (Ingest iter now (Some ev) s) t0 (es @ [(iter, now, Some ev)])"
proof -
  let ?sid = "ev_SessionId ev" and ?n = "nat (ic_MaxLinesPerSess (ix_cfg s))"
  let ?es' = "es @ [(iter, now, Some ev)]"
  have acc: "accepted [(iter, now, Some ev)] = [ev]" using ev by (simp add: accepted_def map_filter_def)
  have evs: "events_of sid ?es' = events_of sid es @ (if ?sid = sid then [ev] else [])" for sid
    by (simp add: events_of_def acc)
  have log: "session_log sid ?es' =
      (if ?sid = sid then log_add ev (session_log sid es) else session_log sid es)" for sid
    unfolding session_log_def evs by simp
  have "(sid, idx) \<in> set (ix_sessions s) \<Longrightarrow> \<not> si_expiry idx < now" for sid idx
    using inv t by (fastforce simp: index_of_log_def)
  then have "filter (\<lambda>(sid, idx). \<not> si_expiry idx < now) (ix_sessions s) = ix_sessions s"
    by (auto simp: filter_id_conv)
  then have e0: "evictExpired now s = s" by (simp add: evictExpired_def)

  define idx where "idx = (case map_of (ix_sessions s) ?sid of Some i \<Rightarrow> i
    | None \<Rightarrow> \<lparr>si_userID = ev_UserId ev, si_provider = ev_Provider ev, si_events = [], si_maxSeq = 0,
              si_expiry = now + ic_SessionTTL (ix_cfg s)\<rparr>)"
  define idx2 where "idx2 = index_add ?n ev (idx\<lparr>si_userID := ev_UserId ev,
    si_provider := ev_Provider ev, si_expiry := now + ic_SessionTTL (ix_cfg s)\<rparr>)"
  let ?s' = "Ingest iter now (Some ev) s"
  have keys: "distinct (map fst (ix_sessions s))"
    "fst ` set (ix_sessions s) = ev_SessionId ` set (accepted es)"
    using inv by (auto simp: index_of_log_def)
  then have len: "length (ix_sessions s) = card (ev_SessionId ` set (accepted es))"
    by (metis distinct_card length_map list.set_map)
  have s': "distinct (map fst (ix_sessions ?s')) \<and> ix_cfg ?s' = ix_cfg s \<and>
      fst ` set (ix_sessions ?s') = insert ?sid (fst ` set (ix_sessions s)) \<and>
      map_of (ix_sessions ?s') = (map_of (ix_sessions s))(?sid \<mapsto> idx2)"
  proof (cases "map_of (ix_sessions s) ?sid")
    case None
    then have new: "?sid \<notin> fst ` set (ix_sessions s)" by (simp add: map_of_eq_None_iff)
    then have "int (Suc (length (ix_sessions s))) \<le> ic_MaxSessions (ix_cfg s)"
      using room by (simp add: len keys(2))
    then have "index_for iter (now + ic_SessionTTL (ix_cfg s)) ev s =
        (idx, s\<lparr>ix_sessions := (?sid, idx) # ix_sessions s\<rparr>)"
      using None by (simp add: index_for_def idx_def Let_def)
    then have "?s' = s\<lparr>ix_sessions := (?sid, idx2) # ix_sessions s\<rparr>"
      using ev by (simp add: Ingest_def e0 index_write_def idx2_def)
    then show ?thesis using keys(1) new by simp
  next
    case (Some i)
    then have mem: "?sid \<in> fst ` set (ix_sessions s)" by (metis domI dom_map_of_conv_image_fst)
    have "index_for iter (now + ic_SessionTTL (ix_cfg s)) ev s = (idx, s)"
      using Some by (simp add: index_for_def idx_def)
    then have "?s' = s\<lparr>ix_sessions := AList.update ?sid idx2 (ix_sessions s)\<rparr>"
      using ev mem by (simp add: Ingest_def e0 index_write_def idx2_def)
    moreover have "fst ` set (AList.update ?sid idx2 (ix_sessions s)) = fst ` set (ix_sessions s)"
      using mem by (metis list.set_map update_keys)
    ultimately show ?thesis using keys(1) mem by (auto simp: distinct_update update_conv')
  qed
  have idx_log: "si_events idx = keep_last ?n (session_log ?sid es)"
  proof (cases "map_of (ix_sessions s) ?sid")
    case None
    then have "?sid \<notin> ev_SessionId ` set (accepted es)" using keys by (simp add: map_of_eq_None_iff)
    then have "events_of ?sid es = []"
      unfolding events_of_def filter_empty_conv by (metis imageI)
    then show ?thesis by (simp add: idx_def None session_log_def)
  next
    case (Some i)
    then show ?thesis using inv by (simp add: idx_def index_of_log_def)
  qed
  have idx2: "si_events idx2 = keep_last ?n (session_log ?sid ?es') \<and>
      si_expiry idx2 = now + ic_SessionTTL (ix_cfg s) \<and>
      si_userID idx2 = ev_UserId ev \<and> si_provider idx2 = ev_Provider ev"
    using index_add_log[OF _ session_log_sorted, of ?n _ ?sid es ev] idx_log cfg
    by (simp add: idx2_def log) (simp add: index_add_def)
  show ?thesis
    using inv s' idx2 t by (auto simp: index_of_log_def acc evs log simp del: events_of_append)
qed

lemma index_of_log_run:
  assumes "no_eviction (ix_cfg (NewStore cfg)) t0 es"
  shows "index_of_log (run index_step (NewStore cfg) es) t0 es \<and>
    ix_cfg (run index_step (NewStore cfg) es) = ix_cfg (NewStore cfg)"
  using assms
proof (induction es rule: rev_induct)
  case Nil
  then show ?case by (simp add: index_of_log_def NewStore_def accepted_def map_filter_def)
next
  case (snoc e es)
  obtain iter now evp where e: "e = (iter, now, evp)" by (cases e)
  let ?s = "run index_step (NewStore cfg) es" and ?c = "ix_cfg (NewStore cfg)"
  have fin: "finite (ev_SessionId ` set (accepted (es @ [e])))" by simp
  have "card (ev_SessionId ` set (accepted es)) \<le> card (ev_SessionId ` set (accepted (es @ [e])))"
    by (rule card_mono) auto
  with snoc.prems have "no_eviction ?c t0 es" by (auto simp: no_eviction_def)
  with snoc.IH have IH: "index_of_log ?s t0 es" "ix_cfg ?s = ?c" by auto
  have ok: "store_ok ?s" by (rule index.run_inv[OF NewStore_ok])
  have step: "run index_step (NewStore cfg) (es @ [e]) = Ingest iter now evp ?s"
    by (simp add: e index_step_def)
  have cfg: "ix_cfg (run index_step (NewStore cfg) (es @ [e])) = ?c"
    by (rule index_bounded_cfg)
  show ?case
  proof (cases "\<exists>ev. evp = Some ev \<and> ev_SessionId ev \<noteq> '''' \<and> ev_UserId ev \<noteq> ''''")
    case False
    then have "accepted [e] = []" by (auto simp: accepted_def map_filter_def e split: option.splits)
    moreover have "Ingest iter now evp ?s = ?s" using False by (auto simp: Ingest_def split: option.splits)
    then have "run index_step (NewStore cfg) (es @ [e]) = ?s" by (simp only: step)
    ultimately show ?thesis
      using IH by (simp add: index_of_log_def events_of_def session_log_def del: run_append)
  next
    case True
    then obtain ev where ev: "evp = Some ev" "ev_SessionId ev \<noteq> ''''" "ev_UserId ev \<noteq> ''''" by blast
    have "accepted [e] = [ev]" using ev by (simp add: accepted_def map_filter_def e)
    then have "index_of_log (Ingest iter now (Some ev) ?s) t0 (es @ [(iter, now, Some ev)])"
      using snoc.prems ok ev
      by (intro index_of_log_Ingest[OF IH(1)]) (auto simp: no_eviction_def e IH(2) store_ok_def)
    then show ?thesis using cfg step by (simp only: e ev(1))
  qed
qed

lemma query_of_log:
  assumes "index_of_log s t0 es"
    and "now \<le> t0 + ic_SessionTTL (ix_cfg s)"
    and "sid \<noteq> ''''" and "uid \<noteq> ''''"
    and "\<forall>a \<in> set (events_of sid es). \<forall>b \<in> set (events_of sid es). ev_Seq a = ev_Seq b \<longrightarrow> a = b"
    and "\<forall>ev \<in> set (events_of sid es). ev_UserId ev = uid \<and> ev_Provider ev = provider"
    and "seq_sorted ordered" and "set ordered = set (events_of sid es)"
  shows "Query s now sid uid provider afterSeq limit =
    take (if limit \<le> 0 then 256 else nat limit)
      (filter (\<lambda>ev. afterSeq < ev_Seq ev)
         (keep_last (nat (ic_MaxLinesPerSess (ix_cfg s))) ordered))"
proof -
  have ord: "ordered = session_log sid es"
    using assms(5,7,8) session_log_sorted set_session_log by (metis seq_sorted_unique)
  have lim: "nat (if limit \<le> 0 then 256 else limit) = (if limit \<le> 0 then 256 else nat limit)" by simp
  show ?thesis
  proof (cases "map_of (ix_sessions s) sid")
    case None
    then have "sid \<notin> ev_SessionId ` set (accepted es)"
      using assms(1) by (simp add: map_of_eq_None_iff index_of_log_def)
    then have "events_of sid es = []" by (auto simp: events_of_def filter_empty_conv)
    then show ?thesis using assms(8) None by (simp add: Query_def)
  next
    case (Some idx)
    then have "sid \<in> ev_SessionId ` set (accepted es)"
      using assms(1) by (metis domI dom_map_of_conv_image_fst index_of_log_def)
    then have ne: "events_of sid es \<noteq> []" by (auto simp: events_of_def filter_empty_conv)
    with assms(6) have "ev_UserId (last (events_of sid es)) = uid"
      "ev_Provider (last (events_of sid es)) = provider" by auto
    then have "si_userID idx = uid" "si_provider idx = provider"
      "t0 + ic_SessionTTL (ix_cfg s) \<le> si_expiry idx"
      "si_events idx = keep_last (nat (ic_MaxLinesPerSess (ix_cfg s))) ordered"
      using assms(1) Some by (auto simp: index_of_log_def ord)
    moreover from this(3) assms(2) have "\<not> si_expiry idx < now" by linarith
    ultimately show ?thesis
      using Some assms(3,4) by (simp add: Query_def Let_def lim linorder_not_le)
  qed
qed

text \<open>
  C26: A reconnecting owner gets exactly what was published.  As long as nothing is evicted (the
  events and the query fall within one \<open>SessionTTL\<close>, at most \<open>MaxSessions\<close> sessions), events of the
  session with equal \<open>seq\<close> are equal (redeliveries of one event), and the limit is at most 2^45, a query
  for a session, by the user and provider of its events, does not panic and returns the events after
  \<open>afterSeq\<close> among the last \<open>MaxLinesPerSess\<close> of the session, once each and in the order of \<open>seq\<close>, at
  most \<open>limit\<close> of them (256 when no limit is given); in particular the answer does not depend on the
  order in which the topic delivered them, nor on redelivered events.  (A session whose reconnect was cut
  by a limit can reuse a number: theory \<open>Recovery\<close>, lemma \<open>limited_replay_reuses_numbers\<close>.)
\<close>

theorem query_exact:
  fixes es :: "ingest_event list" and cfg :: index_config
  defines "s \<equiv> run index_step (NewStore cfg) es"
  assumes "no_eviction (ix_cfg s) t0 es"
    and "now \<le> t0 + ic_SessionTTL (ix_cfg s)"
    and "sid \<noteq> ''''" and "uid \<noteq> ''''"
    and "\<forall>a \<in> set (events_of sid es). \<forall>b \<in> set (events_of sid es). ev_Seq a = ev_Seq b \<longrightarrow> a = b"
    and "\<forall>ev \<in> set (events_of sid es). ev_UserId ev = uid \<and> ev_Provider ev = provider"
    and "seq_sorted ordered" and "set ordered = set (events_of sid es)" and "limit \<le> 2 ^ 45"
  shows "\<not> Query_panics s now sid uid provider limit \<and>
    Query s now sid uid provider afterSeq limit =
      take (if limit \<le> 0 then 256 else nat limit)
        (filter (\<lambda>ev. afterSeq < ev_Seq ev)
           (keep_last (nat (ic_MaxLinesPerSess (ix_cfg s))) ordered))"
proof
  show "\<not> Query_panics s now sid uid provider limit"
    using assms(10) by (simp add: Query_panics_def maxSliceCap_def split: option.split)
  have "index_of_log s t0 es"
    using index_of_log_run assms(2) index_bounded_cfg unfolding s_def by metis
  then show "Query s now sid uid provider afterSeq limit =
      take (if limit \<le> 0 then 256 else nat limit)
        (filter (\<lambda>ev. afterSeq < ev_Seq ev)
           (keep_last (nat (ic_MaxLinesPerSess (ix_cfg s))) ordered))"
    by (rule query_of_log) (use assms(3-9) in simp_all)
qed

definition index_demo :: "ingest_event list" where
  "index_demo =
     [(\<lambda>xs. xs, 0, Some (demo_event\<lparr>ev_Seq := 2\<rparr>)), (\<lambda>xs. xs, 5, Some demo_event),
      (\<lambda>xs. xs, 6, Some demo_event)]"

theorem query_exact_witness:
  "Query (run index_step (NewStore \<lparr>ic_MaxSessions = 1, ic_MaxLinesPerSess = 8, ic_SessionTTL = 10\<rparr>)
       index_demo) 9 ''s'' ''u'' ''gemini'' 0 0 = [demo_event, demo_event\<lparr>ev_Seq := 2\<rparr>]"
proof -
  let ?cfg = "\<lparr>ic_MaxSessions = 1, ic_MaxLinesPerSess = 8, ic_SessionTTL = 10\<rparr>"
  let ?s = "run index_step (NewStore ?cfg) index_demo"
  have cfg: "ix_cfg ?s = ?cfg" by (simp only: index_bounded_cfg) (simp add: NewStore_def)
  have acc: "accepted index_demo = [demo_event\<lparr>ev_Seq := 2\<rparr>, demo_event, demo_event]"
    by (simp add: accepted_def index_demo_def map_filter_def demo_event_def)
  then have evs: "events_of ''s'' index_demo = [demo_event\<lparr>ev_Seq := 2\<rparr>, demo_event, demo_event]"
    by (simp add: events_of_def demo_event_def)
  have "no_eviction (ix_cfg ?s) 0 index_demo"
    by (simp only: cfg no_eviction_def acc) (simp add: index_demo_def demo_event_def)
  moreover have "9 \<le> 0 + ic_SessionTTL (ix_cfg ?s)" by (simp only: cfg) simp
  moreover have "seq_sorted [demo_event, demo_event\<lparr>ev_Seq := 2\<rparr>]"
    by (simp add: seq_sorted_def demo_event_def)
  ultimately have "Query ?s 9 ''s'' ''u'' ''gemini'' 0 0 =
      take (if (0::int) \<le> 0 then 256 else nat 0)
        (filter (\<lambda>ev. 0 < ev_Seq ev) (keep_last (nat (ic_MaxLinesPerSess (ix_cfg ?s)))
           [demo_event, demo_event\<lparr>ev_Seq := 2\<rparr>]))"
    by (intro query_exact[THEN conjunct2]) (auto simp: evs demo_event_def insert_commute)
  then show ?thesis by (simp add: cfg demo_event_def)
qed

subsection \<open>The client against the endpoint\<close>

text \<open>
  The HTTP exchange seen from the client: the endpoint's answer, with the events decoded by
  \<open>decode\<close>, which is \<open>protojson.Unmarshal\<close>.  The transport delivers the query unchanged.
\<close>

definition served ::
  "(transcript_event \<Rightarrow> string option) \<Rightarrow> (string \<Rightarrow> transcript_event option) \<Rightarrow> store \<Rightarrow> time
     \<Rightarrow> string \<Rightarrow> query \<Rightarrow> go_error + http_reply" where
  "served encode decode s now url q =
     (let (status, msg, raws) = replay_endpoint encode s now ''GET'' q in
      Inr \<lparr>hr_status = status, hr_statusText = msg, hr_bodyStart = msg,
           hr_events = (if \<forall>raw \<in> set raws. decode raw \<noteq> None
                        then Inr (List.map_filter decode raws) else Inl ''unmarshal'')\<rparr>)"

lemma map_filter_roundtrip:
  "\<forall>x \<in> set xs. \<exists>b. encode x = Some b \<and> decode b = Some x \<Longrightarrow>
   List.map_filter decode (List.map_filter encode xs) = xs \<and>
   (\<forall>b \<in> set (List.map_filter encode xs). decode b \<noteq> None)"
  by (induction xs) (auto simp: List.map_filter_simps)

text \<open>
  Client and endpoint of the replay index agree: a reconnecting node that asks for a session with
  its identifiers gets exactly the events the index would return for them, the sequence number, the
  limit and the filters surviving the query string, and an endpoint error never passes for an empty
  replay.  The hypotheses are that identifiers carry no outer white space and the library's JSON
  decoding inverts its encoding.
\<close>

lemma replay_client_roundtrip:
  assumes "base \<noteq> ''''" and "sid \<noteq> ''''" and "\<not> Anonymous uid"
    and "trim_space sid = sid" and "trim_space uid = uid" and "trim_space provider = provider"
    and "limit < 2 ^ 63"
    and "\<forall>ev \<in> set (Query s now sid uid provider afterSeq limit).
           \<exists>b. encode ev = Some b \<and> decode b = Some ev"
  shows "ReplayClient_Replay (served encode decode s now) (Some base) sid uid provider afterSeq limit
    = Inr (Query s now sid uid provider afterSeq limit)"
proof -
  let ?l = "if limit \<le> 0 then 256 else limit"
  let ?q = "[(''session_id'', sid), (''user_id'', uid), (''provider'', provider),
             (''after_seq'', format_nat (unat afterSeq)), (''limit'', format_int ?l)]"
  let ?evs = "Query s now sid uid provider afterSeq limit"
  have l: "atoi (format_int ?l) = Some ?l" by (rule atoi_format_int) (use assms(7) in auto)
  have q: "Query s now sid uid provider afterSeq ?l = ?evs" by (simp add: Query_def)
  have none: "\<not> (\<exists>ev \<in> set ?evs. encode ev = None)" using assms(8) by (metis option.distinct(1))
  have get: "query_get ?q ''session_id'' = sid" "query_get ?q ''user_id'' = uid"
    "query_get ?q ''provider'' = provider" "query_get ?q ''after_seq'' = format_nat (unat afterSeq)"
    "query_get ?q ''limit'' = format_int ?l"
    by (simp_all add: query_get_def)
  have "(if ?l \<le> 0 then 256 else ?l) = ?l" by simp
  then have "replay_endpoint encode s now ''GET'' ?q = (200, '''', List.map_filter encode ?evs)"
    unfolding replay_endpoint_def get assms(4-6) parse_format_uint l using none
    by (simp only: option.case Let_def q simp_thms if_True if_False)
  then have "served encode decode s now (base @ ''/v1/replay'') ?q =
      Inr \<lparr>hr_status = 200, hr_statusText = '''', hr_bodyStart = '''', hr_events = Inr ?evs\<rparr>"
    using map_filter_roundtrip[of ?evs encode decode] assms(8) by (simp add: served_def)
  then show ?thesis using assms(1-3) by (simp add: ReplayClient_Replay_def Let_def)
qed

theorem replay_client_roundtrip_witness:
  "ReplayClient_Replay
     (served (\<lambda>ev. Some ''{}'') (\<lambda>raw. Some demo_event)
        ((NewStore \<lparr>ic_MaxSessions = 1, ic_MaxLinesPerSess = 8, ic_SessionTTL = 10\<rparr>)
           \<lparr>ix_sessions := [(''s'', \<lparr>si_userID = ''u'', si_provider = ''gemini'',
              si_events = [demo_event], si_maxSeq = 1, si_expiry = 10\<rparr>)]\<rparr>) 3)
     (Some ''http://r'') ''s'' ''u'' ''gemini'' 0 5 = Inr [demo_event]"
proof -
  let ?s = "(NewStore \<lparr>ic_MaxSessions = 1, ic_MaxLinesPerSess = 8, ic_SessionTTL = 10\<rparr>)
           \<lparr>ix_sessions := [(''s'', \<lparr>si_userID = ''u'', si_provider = ''gemini'',
              si_events = [demo_event], si_maxSeq = 1, si_expiry = 10\<rparr>)]\<rparr>"
  have q: "Query ?s 3 ''s'' ''u'' ''gemini'' 0 5 = [demo_event]"
    by (simp add: Query_def NewStore_def demo_event_def)
  have t: "trim_space ''s'' = ''s''" "trim_space ''u'' = ''u''" "trim_space ''gemini'' = ''gemini''"
    by (simp_all add: trim_space_def white_space_def)
  have "ReplayClient_Replay (served (\<lambda>ev. Some ''{}'') (\<lambda>raw. Some demo_event) ?s 3)
      (Some ''http://r'') ''s'' ''u'' ''gemini'' 0 5 = Inr (Query ?s 3 ''s'' ''u'' ''gemini'' 0 5)"
    by (rule replay_client_roundtrip) (auto simp: t q Anonymous_def)
  then show ?thesis by (simp only: q)
qed

subsection \<open>Eviction\<close>

lemma oldest_min:
  "oldest acc xs = Some (k, t) \<Longrightarrow>
   (acc = Some (k, t) \<or> (\<exists>i. (k, i) \<in> set xs \<and> t = si_expiry i)) \<and>
   (\<forall>k' t'. acc = Some (k', t') \<longrightarrow> t \<le> t') \<and> (\<forall>(k', i) \<in> set xs. t \<le> si_expiry i)"
proof (induction xs arbitrary: acc)
  case (Cons x xs)
  obtain k' i where x: "x = (k', i)" by (cases x)
  show ?case
  proof (cases acc)
    case None
    with Cons.prems x have "oldest (Some (k', si_expiry i)) xs = Some (k, t)" by simp
    from Cons.IH[OF this] show ?thesis using None x by auto
  next
    case (Some a)
    obtain ak at where a: "a = (ak, at)" by (cases a)
    with Cons.prems Some x
    have "oldest (if si_expiry i < at then Some (k', si_expiry i) else Some (ak, at)) xs = Some (k, t)"
      by simp
    from Cons.IH[OF this] show ?thesis using Some x a by (auto split: if_splits)
  qed
qed auto

text \<open>
  Making room for a new session drops one session only, one that expires first; in particular
  the new session is kept as long as some other session expires strictly before it.
\<close>

theorem eviction_drops_oldest:
  assumes "distinct (map fst (ix_sessions s))" and "'''' \<notin> fst ` set (ix_sessions s)"
    and "(sid, idx) \<in> set (ix_sessions s)" and "(old, oidx) \<in> set (ix_sessions s)"
    and "si_expiry oidx < si_expiry idx"
  shows "(sid, idx) \<in> set (ix_sessions (evictOldest iter s)) \<and>
    (\<exists>(victim, vidx) \<in> set (ix_sessions s).
       evictOldest iter s = s\<lparr>ix_sessions := AList.delete victim (ix_sessions s)\<rparr> \<and>
       (\<forall>(k, i) \<in> set (ix_sessions s). si_expiry vidx \<le> si_expiry i))"
proof -
  have "ranged iter (ix_sessions s) \<noteq> []" using assms(3) by (metis empty_iff set_empty set_ranged)
  then obtain k t where o: "oldest None (ranged iter (ix_sessions s)) = Some (k, t)"
    using oldest_Some by (metis option.exhaust surj_pair)
  from oldest_min[OF o] obtain v where v: "(k, v) \<in> set (ix_sessions s)" "t = si_expiry v"
    and min: "\<forall>(k', i) \<in> set (ix_sessions s). t \<le> si_expiry i" by auto
  from v(1) assms(2) have "k \<noteq> ''''" by (metis fst_conv imageI)
  with o have e: "evictOldest iter s = s\<lparr>ix_sessions := AList.delete k (ix_sessions s)\<rparr>"
    by (simp add: evictOldest_def)
  have "sid \<noteq> k"
  proof
    assume "sid = k"
    with assms(1,3) v(1) have "idx = v" by (metis eq_key_imp_eq_value)
    with min assms(4,5) v(2) show False by fastforce
  qed
  then have "(sid, idx) \<in> set (ix_sessions (evictOldest iter s))"
    using assms(3) by (simp add: e AList.delete_eq)
  with e v min show ?thesis by blast
qed

theorem eviction_drops_oldest_witness:
  "let i = (\<lambda>t. \<lparr>si_userID = ''u'', si_provider = ''p'', si_events = [], si_maxSeq = 0, si_expiry = t\<rparr>);
       s = (NewStore \<lparr>ic_MaxSessions = 1, ic_MaxLinesPerSess = 8, ic_SessionTTL = 10\<rparr>)
             \<lparr>ix_sessions := [(''b'', i 12), (''a'', i 10)]\<rparr> in
   (''b'', i 12) \<in> set (ix_sessions (evictOldest rev s))"
proof -
  let ?i = "\<lambda>t. \<lparr>si_userID = ''u'', si_provider = ''p'', si_events = [], si_maxSeq = 0, si_expiry = t\<rparr>"
  let ?s = "(NewStore \<lparr>ic_MaxSessions = 1, ic_MaxLinesPerSess = 8, ic_SessionTTL = 10\<rparr>)
             \<lparr>ix_sessions := [(''b'', ?i 12), (''a'', ?i 10)]\<rparr>"
  have "(''b'', ?i 12) \<in> set (ix_sessions (evictOldest rev ?s)) \<and>
    (\<exists>(victim, vidx) \<in> set (ix_sessions ?s).
       evictOldest rev ?s = ?s\<lparr>ix_sessions := AList.delete victim (ix_sessions ?s)\<rparr> \<and>
       (\<forall>(k, i) \<in> set (ix_sessions ?s). si_expiry vidx \<le> si_expiry i))"
    by (rule eviction_drops_oldest[where old = "''a''" and oidx = "?i 10"]) auto
  then show ?thesis by (simp add: Let_def)
qed

text \<open>
  On a tie the choice is the map's: a new session can be the victim of its own ingest, and its first
  event is then lost.
\<close>

lemma eviction_tie_loses_event:
  "let i = (\<lambda>t. \<lparr>si_userID = ''u'', si_provider = ''p'', si_events = [], si_maxSeq = 0, si_expiry = t\<rparr>);
       s = (NewStore \<lparr>ic_MaxSessions = 1, ic_MaxLinesPerSess = 8, ic_SessionTTL = 10\<rparr>)
             \<lparr>ix_sessions := [(''b'', i 13)]\<rparr> in
   ix_sessions (Ingest (\<lambda>xs. xs) 3 (Some demo_event) s) = [(''b'', i 13)]"
  by (simp add: Ingest_def evictExpired_def index_for_def index_write_def evictOldest_def ranged_def
      demo_event_def NewStore_def Let_def AList.delete_eq)

end
