(* ===== verification/Replayserver.thy ===== *)
theory Replayserver
  imports Replayindex
begin

text \<open>
  The process around the replay index, \<open>cmd/replay/main.go\<close>: its flags, the loop that consumes the
  topic, and the routes of its HTTP server.  The Kafka client and protobuf decoding are parameters:
  a poll gives what \<open>PollFetches\<close> returned, with its error if it had one.
\<close>

subsection \<open>Start\<close>

record replay_flags =
  rf_addr :: string
  rf_kafkaBrokers :: string
  rf_kafkaTopic :: string
  rf_group :: string
  rf_maxSessions :: int
  rf_maxLines :: int
  rf_sessionTTL :: duration

definition replay_flag_defaults :: replay_flags where
  "replay_flag_defaults =
     \<lparr>rf_addr = '':8090'', rf_kafkaBrokers = '''', rf_kafkaTopic = ''transcripts'',
      rf_group = ''replay-index'', rf_maxSessions = 10000, rf_maxLines = 512,
      rf_sessionTTL = 24 * 60 * minute\<rparr>"

text \<open>The store the process starts with; without brokers it ends at once.\<close>

definition replay_start :: "replay_flags \<Rightarrow> string + store" where
  "replay_start f =
     (if rf_kafkaBrokers f = '''' then Inl ''missing -kafka''
      else Inr (NewStore \<lparr>ic_MaxSessions = rf_maxSessions f, ic_MaxLinesPerSess = rf_maxLines f,
                          ic_SessionTTL = rf_sessionTTL f\<rparr>))"

subsection \<open>The consumer\<close>

text \<open>
  One turn of the loop of \<open>consume\<close>: whether the context is done at the top, the error of the fetches
  and whether the context is done by then, and the records, each with the time at which it is ingested
  and the order of the \<open>range\<close> loop at that moment.
\<close>

record poll =
  pl_done :: bool
  pl_err :: bool
  pl_ctxErr :: bool
  pl_records :: "(range_order \<times> time \<times> bytes) list"

definition consume_record ::
  "(bytes \<Rightarrow> transcript_event option) \<Rightarrow> range_order \<times> time \<times> bytes \<Rightarrow> store \<Rightarrow> store" where
  "consume_record unmarshal r s =
     (case r of (iter, now, val) \<Rightarrow>
        (case unmarshal val of None \<Rightarrow> s | Some ev \<Rightarrow> Ingest iter now (Some ev) s))"

fun consume :: "(bytes \<Rightarrow> transcript_event option) \<Rightarrow> poll list \<Rightarrow> store \<Rightarrow> store" where
  "consume unmarshal [] s = s"
| "consume unmarshal (p # ps) s =
     (if pl_done p then s
      else if pl_err p then (if pl_ctxErr p then s else consume unmarshal ps s)
      else consume unmarshal ps (fold (consume_record unmarshal) (pl_records p) s))"

text \<open>The records that reach the index, as the ingests they make.\<close>

fun delivered :: "poll list \<Rightarrow> (range_order \<times> time \<times> bytes) list" where
  "delivered [] = []"
| "delivered (p # ps) =
     (if pl_done p then []
      else if pl_err p then (if pl_ctxErr p then [] else delivered ps)
      else pl_records p @ delivered ps)"

definition ingest_of ::
  "(bytes \<Rightarrow> transcript_event option) \<Rightarrow> range_order \<times> time \<times> bytes \<Rightarrow> ingest_event" where
  "ingest_of unmarshal r = (case r of (iter, now, val) \<Rightarrow> (iter, now, unmarshal val))"

lemma consume_record_step:
  "consume_record unmarshal r s = index_step s (ingest_of unmarshal r)"
  by (cases r) (simp add: consume_record_def ingest_of_def index_step_def Ingest_def split: option.split)

lemma fold_consume_record:
  "fold (consume_record unmarshal) rs s = run index_step s (map (ingest_of unmarshal) rs)"
  by (induction rs arbitrary: s) (simp_all add: consume_record_step)

lemma consume_run:
  "consume unmarshal ps s = run index_step s (map (ingest_of unmarshal) (delivered ps))"
  by (induction unmarshal ps s rule: consume.induct) (simp_all add: fold_consume_record)

text \<open>
  A poll that returns an error for one partition and records of another loses the records: the loop
  goes on to the next poll, which starts behind them.
\<close>

lemma partial_fetch_loses_records:
  "consume unmarshal
     [\<lparr>pl_done = False, pl_err = True, pl_ctxErr = False, pl_records = rs\<rparr>,
      \<lparr>pl_done = False, pl_err = False, pl_ctxErr = False, pl_records = rs'\<rparr>] s =
   fold (consume_record unmarshal) rs' s"
  by simp

lemma delivered_quiet:
  "list_all (\<lambda>p. \<not> pl_done p \<and> \<not> pl_err p) ps \<Longrightarrow> delivered ps = concat (map pl_records ps)"
  by (induction ps) simp_all

subsection \<open>The routes\<close>

datatype replay_answer =
  Healthy | StatsOf nat nat | ReplayOf "int \<times> string \<times> string list" | NoRoute

definition replay_mux ::
  "(transcript_event \<Rightarrow> string option) \<Rightarrow> store \<Rightarrow> time \<Rightarrow> string \<Rightarrow> string \<Rightarrow> query \<Rightarrow> replay_answer" where
  "replay_mux encode s now path method q =
     (if path = ''/healthz'' then Healthy
      else if path = ''/stats'' then
        (let (sessions, events) = Store_Stats s now in StatsOf sessions events)
      else if path = ''/v1/replay'' then ReplayOf (replay_endpoint encode s now method q)
      else NoRoute)"

text \<open>
  The process is ready with its defaults and one broker, and what it reports stays within its bounds:
  whatever the topic delivers, \<open>/stats\<close> counts at most \<open>max-sessions\<close> sessions and \<open>max-lines\<close> events
  in each.
\<close>

lemma live_events_bound:
  assumes "\<forall>(sid, idx) \<in> set xs. length (si_events idx) \<le> n"
  shows "sum_list (map (\<lambda>(sid, idx). length (si_events idx)) (filter P xs)) \<le> length (filter P xs) * n"
  using assms by (induction xs) auto

lemma stats_bounded:
  assumes "replay_start f = Inr s0" and "replay_mux encode (consume unmarshal ps s0) now ''/stats'' m q = StatsOf n k"
  shows "int n \<le> ic_MaxSessions (ix_cfg s0) \<and> int k \<le> int n * ic_MaxLinesPerSess (ix_cfg s0)"
proof -
  let ?s = "consume unmarshal ps s0"
  obtain cfg where s0: "s0 = NewStore cfg" using assms(1) by (auto simp: replay_start_def split: if_splits)
  have ok: "store_ok ?s" unfolding consume_run s0 by (rule index.run_inv[OF NewStore_ok])
  have cfg: "ix_cfg ?s = ix_cfg s0" unfolding consume_run s0 by (rule index_bounded_cfg)
  define m where "m = nat (ic_MaxLinesPerSess (ix_cfg s0))"
  define live where "live = filter (\<lambda>(sid, idx). \<not> si_expiry idx < now) (ix_sessions ?s)"
  have m: "int m = ic_MaxLinesPerSess (ix_cfg s0)" using ok by (simp add: m_def store_ok_def cfg)
  have "\<forall>(sid, idx) \<in> set (ix_sessions ?s). length (si_events idx) \<le> m"
    using ok by (auto simp: store_ok_def index_ok_def cfg m_def)
  then have "sum_list (map (\<lambda>(sid, idx). length (si_events idx)) live) \<le> length live * m"
    unfolding live_def by (rule live_events_bound)
  moreover have "n = length live" "k = sum_list (map (\<lambda>(sid, idx). length (si_events idx)) live)"
    using assms(2) by (auto simp: replay_mux_def Store_Stats_def live_def Let_def)
  moreover have "int (length live) \<le> ic_MaxSessions (ix_cfg s0)"
    using ok le_trans[OF length_filter_le] unfolding live_def
    by (auto simp: store_ok_def cfg intro: order_trans[OF of_nat_mono[OF length_filter_le]])
  ultimately show ?thesis using m by (metis of_nat_le_iff of_nat_mult)
qed


subsection \<open>The program\<close>

text \<open>
  \<open>main\<close> up to the listener: the store, the Kafka client (a parameter, which may refuse its options),
  the consumer goroutine and the server.
\<close>

record replay_process =
  rs_store :: store
  rs_consuming :: bool
  rs_signalled :: bool
  rs_serving :: bool

definition replay_main ::
  "(string list \<Rightarrow> string \<Rightarrow> string \<Rightarrow> go_error option) \<Rightarrow> replay_flags \<Rightarrow> go_error + replay_process" where
  "replay_main newClient f =
     (case replay_start f of
        Inl err \<Rightarrow> Inl err
      | Inr s \<Rightarrow>
          (case newClient (split_on CHR '','' (rf_kafkaBrokers f)) (rf_group f) (rf_kafkaTopic f) of
             Some err \<Rightarrow> Inl (''kafka client: '' @ err)
           | None \<Rightarrow> Inr \<lparr>rs_store = s, rs_consuming = True, rs_signalled = False, rs_serving = True\<rparr>))"

text \<open>
  While it runs: the consumer's next poll, a request to the server, the signal, and \<open>Shutdown\<close>, which
  stops the listener.
\<close>

datatype replay_event = Polled poll | Asked time string string query | Interrupted | ServerShutdown

definition take_poll :: "(bytes \<Rightarrow> transcript_event option) \<Rightarrow> poll \<Rightarrow> replay_process \<Rightarrow> replay_process" where
  "take_poll unmarshal p s =
     (if \<not> rs_consuming s then s
      else if pl_done p \<or> pl_err p \<and> pl_ctxErr p then s\<lparr>rs_consuming := False\<rparr>
      else if pl_err p then s
      else s\<lparr>rs_store := fold (consume_record unmarshal) (pl_records p) (rs_store s)\<rparr>)"

fun replay_step ::
  "(bytes \<Rightarrow> transcript_event option) \<Rightarrow> (transcript_event \<Rightarrow> string option) \<Rightarrow> replay_process \<Rightarrow> replay_event
     \<Rightarrow> replay_answer option \<times> replay_process" where
  "replay_step unmarshal encode s (Polled p) = (None, take_poll unmarshal p s)"
| "replay_step unmarshal encode s (Asked now path method q) =
     (if rs_serving s then Some (replay_mux encode (rs_store s) now path method q) else None, s)"
| "replay_step unmarshal encode s Interrupted = (None, s\<lparr>rs_signalled := True\<rparr>)"
| "replay_step unmarshal encode s ServerShutdown = (None, if rs_signalled s then s\<lparr>rs_serving := False\<rparr> else s)"

fun polls_of :: "replay_event list \<Rightarrow> poll list" where
  "polls_of [] = []"
| "polls_of (Polled p # es) = p # polls_of es"
| "polls_of (e # es) = polls_of es"

text \<open>The store of the process is what the consumer has made of the polls so far.\<close>

lemma process_store:
  assumes "collect (replay_step unmarshal encode) s es = (os, s')"
  shows "rs_store s' = (if rs_consuming s then consume unmarshal (polls_of es) (rs_store s) else rs_store s)"
  using assms
proof (induction es arbitrary: s os)
  case (Cons e es)
  let ?s1 = "snd (replay_step unmarshal encode s e)"
  have "collect (replay_step unmarshal encode) ?s1 es = (fst (collect (replay_step unmarshal encode) ?s1 es), s')"
    using Cons.prems by (auto simp: split_beta Let_def)
  from Cons.IH[OF this] show ?case by (cases e) (auto simp: take_poll_def)
qed simp

text \<open>
  What a running process answers to \<open>/v1/replay\<close> is the query of the index built from the records it has
  consumed until then, whatever requests came before; and its \<open>/stats\<close> stay within the flags.
\<close>

lemma process_answers:
  assumes "replay_main newClient f = Inr s0" and "collect (replay_step unmarshal encode) s0 es = (os, s)" and "rs_serving s"
  shows "fst (replay_step unmarshal encode s (Asked now ''/v1/replay'' method q)) =
    Some (ReplayOf (replay_endpoint encode (consume unmarshal (polls_of es) (rs_store s0)) now method q))"
    and "fst (replay_step unmarshal encode s (Asked now ''/stats'' method q)) = Some (StatsOf n k) \<Longrightarrow>
      int n \<le> ic_MaxSessions (ix_cfg (rs_store s0)) \<and> int k \<le> int n * ic_MaxLinesPerSess (ix_cfg (rs_store s0))"
proof -
  have start: "rs_consuming s0" "replay_start f = Inr (rs_store s0)"
    using assms(1) by (auto simp: replay_main_def split: sum.splits option.splits)
  then have store: "rs_store s = consume unmarshal (polls_of es) (rs_store s0)" using process_store[OF assms(2)] by simp
  then show "fst (replay_step unmarshal encode s (Asked now ''/v1/replay'' method q)) =
      Some (ReplayOf (replay_endpoint encode (consume unmarshal (polls_of es) (rs_store s0)) now method q))"
    using assms(3) by (simp add: replay_mux_def)
  show "int n \<le> ic_MaxSessions (ix_cfg (rs_store s0)) \<and> int k \<le> int n * ic_MaxLinesPerSess (ix_cfg (rs_store s0))"
    if "fst (replay_step unmarshal encode s (Asked now ''/stats'' method q)) = Some (StatsOf n k)"
    using stats_bounded[OF start(2)] that assms(3) by (simp add: store)
qed

end
