(* ===== verification/Model.thy ===== *)
theory Model
  imports Transcript
begin

text \<open>
  The provider-agnostic seam, \<open>internal/model/model.go\<close> and \<open>capabilities.go\<close>: the values that cross
  it and the resolution of a model's optional capabilities.  A model value is represented by which
  interfaces its type implements and what it answers to \<open>SupportsInterruption\<close>.
\<close>

text \<open>JSON values, for the messages the adapters build; \<open>JRaw\<close> is a \<open>json.RawMessage\<close>, already encoded.\<close>

datatype json =
  JStr string | JNum int | JBool bool | JObj "(string \<times> json) list" | JArr "json list"
| JRaw string

record model_transcript =
  tr_Role :: string
  tr_Text :: string

record restored_turn =
  rt_Role :: string
  rt_Text :: string

record session_params =
  sp_SystemSuffix :: string

record tool_call =
  tc_ID :: string
  tc_Name :: string
  tc_Args :: string

record tool_result =
  tl_ID :: string
  tl_Name :: string
  tl_Response :: string

record model_type =
  mt_restorer :: bool
  mt_transcriber :: bool
  mt_tools :: bool
  mt_interrupter :: bool
  mt_supportsInterruption :: bool

record capabilities =
  cp_Restorer :: bool
  cp_Transcriber :: bool
  cp_Tools :: bool
  cp_Interrupter :: bool

definition Resolve :: "model_type \<Rightarrow> capabilities" where
  "Resolve m =
     \<lparr>cp_Restorer = mt_restorer m, cp_Transcriber = mt_transcriber m, cp_Tools = mt_tools m,
      cp_Interrupter = (mt_interrupter m \<and> mt_supportsInterruption m)\<rparr>"

text \<open>\<open>restoredTurns\<close> of the bridge: the recorded lines as turns a model accepts.\<close>

definition restoredTurns :: "line list \<Rightarrow> restored_turn list" where
  "restoredTurns ls = map (\<lambda>ln. \<lparr>rt_Role = ln_Role ln, rt_Text = ln_Text ln\<rparr>) ls"

end
