(* ===== verification/Hub.thy ===== *)
theory Hub
  imports Model "HOL-Library.AList"
begin

text \<open>
  The session manager, \<open>internal/rtc\<close>: the archive of disconnected sessions (\<open>archive.go\<close>), the scope
  that owns one bridge's resources (\<open>scope.go\<close>), and the hub with its registry, takeover and
  set-up (\<open>bridge.go\<close>).

  A session and its scope are pointers that the registry, the callbacks and the reconnect share, so
  they live in a heap: a scope's address is its index in \<open>hb_scopes\<close>, and the registry maps session
  ids to addresses.  A session's \<open>cleanup\<close> is nil until \<open>commit\<close> sets it to the scope's \<open>Close\<close>; a
  call through nil panics, which ends the process (\<^const>\<open>None\<close>).
\<close>

subsection \<open>The archive\<close>

record session_archive =
  ar_provider :: string
  ar_userID :: UserID
  ar_history :: "line list"
  ar_maxSeq :: u64
  ar_expiry :: time

record archive_store =
  as_archives :: "SessionID \<Rightarrow> session_archive option"
  as_ttl :: duration

definition newSessionArchiveStore :: "duration \<Rightarrow> archive_store" where
  "newSessionArchiveStore ttl = \<lparr>as_archives = (\<lambda>_. None), as_ttl = ttl\<rparr>"

definition archive_put ::
  "time \<Rightarrow> SessionID \<Rightarrow> string \<Rightarrow> UserID \<Rightarrow> line list \<Rightarrow> u64 \<Rightarrow> archive_store \<Rightarrow> archive_store" where
  "archive_put now sid provider userID history maxSeq s =
     (let kept = (\<lambda>i. case as_archives s i of
                        None \<Rightarrow> None
                      | Some arch \<Rightarrow> if ar_expiry arch < now then None else Some arch) in
      s\<lparr>as_archives := kept(sid \<mapsto> \<lparr>ar_provider = provider, ar_userID = userID, ar_history = history,
                                    ar_maxSeq = maxSeq, ar_expiry = now + as_ttl s\<rparr>)\<rparr>)"

type_synonym resumed = "line list \<times> line list \<times> u64"

definition archive_resume ::
  "archive_store \<Rightarrow> time \<Rightarrow> SessionID \<Rightarrow> UserID \<Rightarrow> string \<Rightarrow> u64 \<Rightarrow> resumed option" where
  "archive_resume s now sid userID provider afterSeq =
     (case as_archives s sid of
        None \<Rightarrow> None
      | Some arch \<Rightarrow>
          (if ar_userID arch \<noteq> userID \<or> ar_provider arch \<noteq> provider \<or> ar_expiry arch < now then None
           else (let full = ar_history arch;
                     replay = filter (\<lambda>ln. afterSeq < ln_Seq ln) full in
                 Some (full, replay, ar_maxSeq arch))))"

definition archive_state ::
  "archive_store \<Rightarrow> time \<Rightarrow> SessionID \<Rightarrow> UserID \<Rightarrow> (string \<times> u64) option" where
  "archive_state s now sid userID =
     (case as_archives s sid of
        None \<Rightarrow> None
      | Some arch \<Rightarrow>
          (if ar_userID arch \<noteq> userID \<or> ar_expiry arch < now then None
           else Some (ar_provider arch, ar_maxSeq arch)))"

subsection \<open>Sessions, scopes and the hub\<close>

record 'l session =
  ss_id :: SessionID
  ss_userID :: UserID
  ss_provider :: string
  ss_createdAt :: time
  ss_rec :: "'l recorder"
  ss_cleanup :: bool

text \<open>The counters say how often the model and the peer connection have been closed.\<close>

record 'l scope =
  sc_sess :: "'l session"
  sc_committed :: bool
  sc_done :: bool
  sc_cancelled :: bool
  sc_modelCloses :: nat
  sc_pcCloses :: nat

record 'l hub =
  hb_conns :: "(SessionID \<times> nat) list"
  hb_archives :: archive_store
  hb_scopes :: "'l scope list"

definition archiveTTL :: duration where
  "archiveTTL = 5 * minute"

definition NewHub :: "'l hub" where
  "NewHub = \<lparr>hb_conns = [], hb_archives = newSessionArchiveStore archiveTTL, hb_scopes = []\<rparr>"

definition upd_scope :: "nat \<Rightarrow> ('l scope \<Rightarrow> 'l scope) \<Rightarrow> 'l hub \<Rightarrow> 'l hub" where
  "upd_scope a f h = h\<lparr>hb_scopes := (hb_scopes h)[a := f (hb_scopes h ! a)]\<rparr>"

abbreviation sess_at :: "'l hub \<Rightarrow> nat \<Rightarrow> 'l session" where
  "sess_at h a \<equiv> sc_sess (hb_scopes h ! a)"

definition newSessionScope :: "'l session \<Rightarrow> 'l hub \<Rightarrow> nat \<times> 'l hub" where
  "newSessionScope sess h =
     (length (hb_scopes h),
      h\<lparr>hb_scopes := hb_scopes h @
          [\<lparr>sc_sess = sess, sc_committed = False, sc_done = False, sc_cancelled = False,
            sc_modelCloses = 0, sc_pcCloses = 0\<rparr>]\<rparr>)"

definition hub_add :: "nat \<Rightarrow> 'l hub \<Rightarrow> 'l hub" where
  "hub_add a h = h\<lparr>hb_conns := AList.update (ss_id (sess_at h a)) a (hb_conns h)\<rparr>"

definition hub_remove :: "time \<Rightarrow> nat \<Rightarrow> 'l hub \<Rightarrow> 'l hub" where
  "hub_remove now a h =
     (let s = sess_at h a;
          snapshot = Recorder_FullHistory (ss_rec s);
          maxSeq = Recorder_MaxSeq (ss_rec s);
          h1 = h\<lparr>hb_conns := AList.delete (ss_id s) (hb_conns h)\<rparr> in
      if 0 < length snapshot
      then h1\<lparr>hb_archives := archive_put now (ss_id s) (ss_provider s) (ss_userID s) snapshot maxSeq
                               (hb_archives h1)\<rparr>
      else h1)"

definition scope_commit :: "nat \<Rightarrow> 'l hub \<Rightarrow> 'l hub" where
  "scope_commit a h =
     (let h1 = upd_scope a (\<lambda>sc. sc\<lparr>sc_committed := True\<rparr>) h;
          h2 = hub_add a h1 in
      upd_scope a (\<lambda>sc. sc\<lparr>sc_sess := (sc_sess sc)\<lparr>ss_cleanup := True\<rparr>\<rparr>) h2)"

definition scope_Close :: "time \<Rightarrow> nat \<Rightarrow> 'l hub \<Rightarrow> 'l hub" where
  "scope_Close now a h =
     (if sc_done (hb_scopes h ! a) then h
      else
        (let h1 = upd_scope a (\<lambda>sc. sc\<lparr>sc_done := True, sc_cancelled := True,
                    sc_modelCloses := sc_modelCloses sc + 1, sc_pcCloses := sc_pcCloses sc + 1\<rparr>) h in
         if sc_committed (hb_scopes h1 ! a) then hub_remove now a h1 else h1))"

definition abortIfUncommitted :: "time \<Rightarrow> nat \<Rightarrow> 'l hub \<Rightarrow> 'l hub" where
  "abortIfUncommitted now a h =
     (if \<not> sc_committed (hb_scopes h ! a) then scope_Close now a h else h)"

text \<open>A call of \<open>sess.cleanup()\<close>, as the connection state handler makes it.\<close>

definition cleanup :: "time \<Rightarrow> nat \<Rightarrow> 'l hub \<Rightarrow> 'l hub option" where
  "cleanup now a h =
     (if ss_cleanup (sess_at h a) then Some (scope_Close now a h) else None)"

definition CloseAll :: "time \<Rightarrow> 'l hub \<Rightarrow> 'l hub option" where
  "CloseAll now h =
     fold (\<lambda>a acc. case acc of None \<Rightarrow> None | Some h' \<Rightarrow> cleanup now a h') (map snd (hb_conns h)) (Some h)"

definition Count :: "'l hub \<Rightarrow> nat" where
  "Count h = length (hb_conns h)"

definition Resume ::
  "time \<Rightarrow> SessionID \<Rightarrow> UserID \<Rightarrow> string \<Rightarrow> u64 \<Rightarrow> 'l hub \<Rightarrow> resumed option \<times> 'l hub" where
  "Resume now sid userID provider afterSeq h =
     (if sid = '''' \<or> Anonymous userID then (None, h)
      else
        (case map_of (hb_conns h) sid of
           Some a \<Rightarrow>
             (if ss_provider (sess_at h a) \<noteq> provider \<or> ss_userID (sess_at h a) \<noteq> userID then (None, h)
              else
                (let full = Recorder_FullHistory (ss_rec (sess_at h a));
                     startSeq = Recorder_MaxSeq (ss_rec (sess_at h a));
                     h1 = (if ss_cleanup (sess_at h a) then scope_Close now a h else h);
                     replay = filter (\<lambda>ln. afterSeq < ln_Seq ln) full in
                 (Some (full, replay, startSeq), h1)))
         | None \<Rightarrow> (archive_resume (hb_archives h) now sid userID provider afterSeq, h)))"

definition SessionState ::
  "time \<Rightarrow> SessionID \<Rightarrow> UserID \<Rightarrow> 'l hub \<Rightarrow> (string \<times> u64) option" where
  "SessionState now sid userID h =
     (if sid = '''' \<or> Anonymous userID then None
      else
        (case map_of (hb_conns h) sid of
           Some a \<Rightarrow>
             (if ss_userID (sess_at h a) \<noteq> userID then None
              else Some (ss_provider (sess_at h a), Recorder_MaxSeq (ss_rec (sess_at h a))))
         | None \<Rightarrow> archive_state (hb_archives h) now sid userID))"

text \<open>The bridge records a line of a session: user text, or a transcript from the model.\<close>

definition session_record :: "nat \<Rightarrow> string \<Rightarrow> string \<Rightarrow> 'l hub \<Rightarrow> line \<times> 'l line_call \<times> 'l hub" where
  "session_record a role text h =
     (let (ln, call, r) = Recorder_Record (ss_rec (sess_at h a)) role text in
      (ln, call, upd_scope a (\<lambda>sc. sc\<lparr>sc_sess := (sc_sess sc)\<lparr>ss_rec := r\<rparr>\<rparr>) h))"

subsection \<open>Setting up a session\<close>

record 'l session_info =
  in_ID :: SessionID
  in_UserID :: UserID
  in_Provider :: string
  in_StartSeq :: u64
  in_InitialHistory :: "line list"
  in_Replay :: "line list"
  in_Transcript :: "'l listener option"
  in_StreamFaultAt :: bool

text \<open>
  The outcome of each call into the WebRTC library that \<open>Serve\<close> makes, an error where there is one,
  and the SDP of the local description.
\<close>

record webrtc_env =
  we_NewPeerConnection :: "go_error option"
  we_NewTrack :: "go_error option"
  we_AddTrack :: "go_error option"
  we_SetRemoteDescription :: "go_error option"
  we_CreateAnswer :: "go_error option"
  we_SetLocalDescription :: "go_error option"
  we_LocalSDP :: string

text \<open>What \<open>Serve\<close> does besides the hub: the closes of its early error paths, the model's restored turns
  and the binding of the stream fault reporter to the start time.\<close>

datatype serve_effect =
  ModelClose | PcClose | RestoreContext "restored_turn list" | BindStreamFault time

definition new_session :: "time \<Rightarrow> 'l session_info \<Rightarrow> 'l session" where
  "new_session started info =
     \<lparr>ss_id = in_ID info, ss_userID = in_UserID info, ss_provider = in_Provider info,
      ss_createdAt = started,
      ss_rec = NewRecorder (in_StartSeq info) (in_InitialHistory info) 256
        \<lparr>sm_SessionID = in_ID info, sm_UserID = in_UserID info, sm_Provider = in_Provider info\<rparr>
        (in_Transcript info),
      ss_cleanup = False\<rparr>"

fun first_error :: "go_error option list \<Rightarrow> go_error option" where
  "first_error [] = None"
| "first_error (None # es) = first_error es"
| "first_error (Some e # es) = Some e"

text \<open>The end of \<open>Serve\<close>: the SDP negotiation, the commit of the scope and its deferred abort.\<close>

definition negotiate ::
  "webrtc_env \<Rightarrow> time \<Rightarrow> nat \<Rightarrow> 'l hub \<Rightarrow> (go_error + string) \<times> 'l hub" where
  "negotiate env started a h =
     (case first_error [we_SetRemoteDescription env, we_CreateAnswer env, we_SetLocalDescription env] of
        Some e \<Rightarrow> (Inl e, abortIfUncommitted started a h)
      | None \<Rightarrow> (Inr (we_LocalSDP env), abortIfUncommitted started a (scope_commit a h)))"

definition Serve ::
  "webrtc_env \<Rightarrow> time \<Rightarrow> model_type \<Rightarrow> 'l session_info \<Rightarrow> 'l hub
     \<Rightarrow> (go_error + string) \<times> serve_effect list \<times> 'l hub" where
  "Serve env started m info h =
     (case we_NewPeerConnection env of
        Some e \<Rightarrow> (Inl e, [ModelClose], h)
      | None \<Rightarrow>
     (case first_error [we_NewTrack env, we_AddTrack env] of
        Some e \<Rightarrow> (Inl e, [PcClose, ModelClose], h)
      | None \<Rightarrow>
     (let caps = Resolve m;
          restore = (if cp_Restorer caps \<and> 0 < length (in_InitialHistory info)
                     then [RestoreContext (restoredTurns (in_InitialHistory info))] else []);
          (a, h1) = newSessionScope (new_session started info) h;
          bind = (if in_StreamFaultAt info then [BindStreamFault started] else []) in
      map_prod id (Pair (restore @ bind)) (negotiate env started a h1))))"

subsection \<open>The hub as a machine\<close>

text \<open>
  What happens to a hub: a \<open>Serve\<close> call opens a scope and later commits or aborts it, sessions record
  lines, connections end, clients reconnect, and the process shuts down.  A commit comes once and
  before the scope is closed: it is the last statement of \<open>Serve\<close>.
\<close>

datatype 'l hub_event =
    Open time "'l session_info"
  | Commit nat
  | Abort time nat
  | RecordLine nat string string
  | ConnectionEnd time nat
  | ResumeReq time SessionID UserID string u64
  | Shutdown time

fun hub_step :: "'l hub option \<Rightarrow> 'l hub_event \<Rightarrow> 'l hub option" where
  "hub_step None e = None"
| "hub_step (Some h) (Open now info) = Some (snd (newSessionScope (new_session now info) h))"
| "hub_step (Some h) (Commit a) =
     Some (if a < length (hb_scopes h) \<and> \<not> sc_committed (hb_scopes h ! a) \<and> \<not> sc_done (hb_scopes h ! a)
           then scope_commit a h else h)"
| "hub_step (Some h) (Abort now a) =
     Some (if a < length (hb_scopes h) then abortIfUncommitted now a h else h)"
| "hub_step (Some h) (RecordLine a role text) =
     Some (if a < length (hb_scopes h) then snd (snd (session_record a role text h)) else h)"
| "hub_step (Some h) (ConnectionEnd now a) =
     (if a < length (hb_scopes h) then cleanup now a h else Some h)"
| "hub_step (Some h) (ResumeReq now sid uid provider afterSeq) =
     Some (snd (Resume now sid uid provider afterSeq h))"
| "hub_step (Some h) (Shutdown now) = CloseAll now h"

definition scope_ok :: "'l scope \<Rightarrow> bool" where
  "scope_ok sc =
     (sc_modelCloses sc = (if sc_done sc then 1 else 0) \<and> sc_pcCloses sc = sc_modelCloses sc \<and>
      sc_cancelled sc = sc_done sc \<and> ss_cleanup (sc_sess sc) = sc_committed sc)"

definition conn_ok :: "'l hub \<Rightarrow> SessionID \<Rightarrow> nat \<Rightarrow> bool" where
  "conn_ok h sid a =
     (a < length (hb_scopes h) \<and> sc_committed (hb_scopes h ! a) \<and> \<not> sc_done (hb_scopes h ! a) \<and>
      ss_id (sess_at h a) = sid)"

definition hub_ok :: "'l hub \<Rightarrow> bool" where
  "hub_ok h =
     (distinct (map fst (hb_conns h)) \<and> (\<forall>(sid, a) \<in> set (hb_conns h). conn_ok h sid a) \<and>
      (\<forall>a < length (hb_scopes h). scope_ok (hb_scopes h ! a)))"

lemma hub_okI:
  assumes "distinct (map fst (hb_conns h))"
    and "\<And>sid a. (sid, a) \<in> set (hb_conns h) \<Longrightarrow> conn_ok h sid a"
    and "\<And>a. a < length (hb_scopes h) \<Longrightarrow> scope_ok (hb_scopes h ! a)"
  shows "hub_ok h"
  using assms by (auto simp: hub_ok_def)

lemma hub_ok_conn: "hub_ok h \<Longrightarrow> (sid, a) \<in> set (hb_conns h) \<Longrightarrow> conn_ok h sid a"
  by (auto simp: hub_ok_def)

lemma hub_ok_scope: "hub_ok h \<Longrightarrow> a < length (hb_scopes h) \<Longrightarrow> scope_ok (hb_scopes h ! a)"
  by (simp add: hub_ok_def)

lemma hub_ok_distinct: "hub_ok h \<Longrightarrow> distinct (map fst (hb_conns h))"
  by (simp add: hub_ok_def)

lemma upd_scope_simps [simp]:
  "hb_conns (upd_scope a f h) = hb_conns h"
  "hb_archives (upd_scope a f h) = hb_archives h"
  "length (hb_scopes (upd_scope a f h)) = length (hb_scopes h)"
  "a < length (hb_scopes h) \<Longrightarrow>
     hb_scopes (upd_scope a f h) ! b = (if b = a then f (hb_scopes h ! a) else hb_scopes h ! b)"
  by (auto simp: upd_scope_def nth_list_update)

lemma hub_remove_simps [simp]:
  "hb_conns (hub_remove now a h) = AList.delete (ss_id (sess_at h a)) (hb_conns h)"
  "hb_scopes (hub_remove now a h) = hb_scopes h"
  by (simp_all add: hub_remove_def Let_def)

lemma hub_okD:
  assumes "hub_ok h" and "map_of (hb_conns h) sid = Some a"
  shows "a < length (hb_scopes h)" and "sc_committed (hb_scopes h ! a)"
    and "\<not> sc_done (hb_scopes h ! a)" and "ss_id (sess_at h a) = sid"
    and "ss_cleanup (sess_at h a)" and "scope_ok (hb_scopes h ! a)"
  using hub_ok_conn[OF assms(1) map_of_SomeD[OF assms(2)]] hub_ok_scope[OF assms(1), of a]
  by (auto simp: conn_ok_def scope_ok_def)

lemma newSessionScope_ok [inv_rules]:
  assumes "hub_ok h"
  shows "hub_ok (snd (newSessionScope (new_session now info) h))"
proof (rule hub_okI)
  fix sid a
  assume "(sid, a) \<in> set (hb_conns (snd (newSessionScope (new_session now info) h)))"
  then have "conn_ok h sid a" using hub_ok_conn[OF assms] by (simp add: newSessionScope_def)
  then show "conn_ok (snd (newSessionScope (new_session now info) h)) sid a"
    by (simp add: conn_ok_def newSessionScope_def nth_append)
next
  fix a assume "a < length (hb_scopes (snd (newSessionScope (new_session now info) h)))"
  then show "scope_ok (hb_scopes (snd (newSessionScope (new_session now info) h)) ! a)"
    using hub_ok_scope[OF assms, of a]
    by (auto simp: newSessionScope_def nth_append new_session_def less_Suc_eq)
      (simp_all add: scope_ok_def)
qed (use hub_ok_distinct[OF assms] in \<open>simp add: newSessionScope_def\<close>)

lemma scope_commit_conns:
  assumes "a < length (hb_scopes h)"
  shows "hb_conns (scope_commit a h) = AList.update (ss_id (sess_at h a)) a (hb_conns h)"
    and "hb_archives (scope_commit a h) = hb_archives h"
    and "length (hb_scopes (scope_commit a h)) = length (hb_scopes h)"
    and "hb_scopes (scope_commit a h) ! b =
      (if b = a then (hb_scopes h ! a)\<lparr>sc_committed := True,
                        sc_sess := (sess_at h a)\<lparr>ss_cleanup := True\<rparr>\<rparr>
       else hb_scopes h ! b)"
  using assms by (simp_all add: scope_commit_def hub_add_def Let_def upd_scope_def nth_list_update)

lemma in_updateD:
  "distinct (map fst xs) \<Longrightarrow> (k', v') \<in> set (AList.update k v xs) \<Longrightarrow>
   (k' = k \<and> v' = v) \<or> (k' \<noteq> k \<and> (k', v') \<in> set xs)"
  by (induction xs) (force split: if_splits)+

lemma scope_commit_ok [inv_rules]:
  assumes "hub_ok h" and "a < length (hb_scopes h)" and "\<not> sc_done (hb_scopes h ! a)"
  shows "hub_ok (scope_commit a h)"
proof (rule hub_okI)
  fix sid b
  assume "(sid, b) \<in> set (hb_conns (scope_commit a h))"
  then have "(sid = ss_id (sess_at h a) \<and> b = a) \<or> conn_ok h sid b"
    using in_updateD[OF hub_ok_distinct[OF assms(1)]] hub_ok_conn[OF assms(1)]
    by (metis assms(2) scope_commit_conns(1))
  then show "conn_ok (scope_commit a h) sid b"
    using assms(2,3) by (auto simp: conn_ok_def scope_commit_conns)
next
  fix b assume "b < length (hb_scopes (scope_commit a h))"
  then show "scope_ok (hb_scopes (scope_commit a h) ! b)"
    using hub_ok_scope[OF assms(1), of b] assms(2,3)
    by (cases "b = a") (auto simp: scope_commit_conns scope_ok_def)
qed (use hub_ok_distinct[OF assms(1)] in \<open>simp add: scope_commit_conns(1)[OF assms(2)] distinct_update\<close>)

lemma scope_Close_simps:
  assumes "a < length (hb_scopes h)" and "\<not> sc_done (hb_scopes h ! a)"
  shows "hb_conns (scope_Close now a h) =
      (if sc_committed (hb_scopes h ! a) then AList.delete (ss_id (sess_at h a)) (hb_conns h) else hb_conns h)"
    and "length (hb_scopes (scope_Close now a h)) = length (hb_scopes h)"
    and "hb_scopes (scope_Close now a h) ! b =
      (if b = a then (hb_scopes h ! a)\<lparr>sc_done := True, sc_cancelled := True,
                        sc_modelCloses := sc_modelCloses (hb_scopes h ! a) + 1,
                        sc_pcCloses := sc_pcCloses (hb_scopes h ! a) + 1\<rparr>
       else hb_scopes h ! b)"
    and "hb_archives (scope_Close now a h) =
      (if sc_committed (hb_scopes h ! a) \<and> rc_history (ss_rec (sess_at h a)) \<noteq> []
       then archive_put now (ss_id (sess_at h a)) (ss_provider (sess_at h a)) (ss_userID (sess_at h a))
              (rc_history (ss_rec (sess_at h a))) (rc_seq (ss_rec (sess_at h a))) (hb_archives h)
       else hb_archives h)"
  using assms
  by (simp_all add: scope_Close_def Let_def hub_remove_def Recorder_FullHistory_def Recorder_MaxSeq_def)

lemma scope_Close_done: "sc_done (hb_scopes h ! a) \<Longrightarrow> scope_Close now a h = h"
  by (simp add: scope_Close_def)

lemma scope_Close_ok [inv_rules]:
  assumes "hub_ok h" and "a < length (hb_scopes h)"
  shows "hub_ok (scope_Close now a h)"
proof (cases "sc_done (hb_scopes h ! a)")
  case False
  note simps = scope_Close_simps[OF assms(2) False, of now]
  show ?thesis
  proof (rule hub_okI)
    fix sid b
    assume b: "(sid, b) \<in> set (hb_conns (scope_Close now a h))"
    then have "(sid, b) \<in> set (hb_conns h)" by (auto simp: simps(1) AList.delete_eq split: if_splits)
    note c = hub_ok_conn[OF assms(1) this]
    have "b \<noteq> a"
    proof
      assume "b = a"
      with c b show False by (simp add: simps(1) AList.delete_eq conn_ok_def)
    qed
    with c show "conn_ok (scope_Close now a h) sid b" by (simp add: conn_ok_def simps)
  next
    fix b assume "b < length (hb_scopes (scope_Close now a h))"
    then show "scope_ok (hb_scopes (scope_Close now a h) ! b)"
      using hub_ok_scope[OF assms(1), of b] False by (cases "b = a") (auto simp: simps scope_ok_def)
  qed (use hub_ok_distinct[OF assms(1)] in \<open>simp add: simps(1) distinct_delete\<close>)
qed (simp add: assms scope_Close_done)

lemma abort_ok [inv_rules]:
  "hub_ok h \<Longrightarrow> a < length (hb_scopes h) \<Longrightarrow> hub_ok (abortIfUncommitted now a h)"
  by (simp add: abortIfUncommitted_def scope_Close_ok)

lemma Resume_ok [inv_rules]: "hub_ok h \<Longrightarrow> hub_ok (snd (Resume now sid uid provider afterSeq h))"
  by (auto simp: Resume_def Let_def scope_Close_ok hub_okD(1) split: option.splits)

lemma session_record_eq:
  "snd (snd (session_record a role text h)) =
     upd_scope a (\<lambda>sc. sc\<lparr>sc_sess := (sc_sess sc)\<lparr>ss_rec := snd (record_line (ss_rec (sess_at h a)) (role, text))\<rparr>\<rparr>) h"
  by (simp add: session_record_def record_line_def split_beta)

lemma session_record_ok [inv_rules]:
  assumes "hub_ok h" and "a < length (hb_scopes h)"
  shows "hub_ok (snd (snd (session_record a role text h)))"
  unfolding session_record_eq
proof (rule hub_okI, goal_cases)
  case (2 sid b)
  then show ?case using hub_ok_conn[OF assms(1), of sid b] assms(2) by (auto simp: conn_ok_def)
next
  case (3 b)
  then show ?case
    using hub_ok_scope[OF assms(1), of b] assms(2) by (cases "b = a") (auto simp: scope_ok_def)
qed (use hub_ok_distinct[OF assms(1)] in simp)

lemma scope_Close_length [simp]: "length (hb_scopes (scope_Close now a h)) = length (hb_scopes h)"
  by (simp add: scope_Close_def Let_def)

lemma fold_cleanup_None:
  "fold (\<lambda>a acc. case acc of None \<Rightarrow> None | Some h' \<Rightarrow> cleanup now a h') as None = None"
  by (induction as) auto

lemma CloseAll_ok [inv_rules]:
  assumes "hub_ok h" and "CloseAll now h = Some h'"
  shows "hub_ok h'"
proof -
  have "hub_ok h2" if "fold (\<lambda>a acc. case acc of None \<Rightarrow> None | Some h' \<Rightarrow> cleanup now a h') as (Some h1) = Some h2"
    and "hub_ok h1" and "\<forall>a \<in> set as. a < length (hb_scopes h1)" for as h1 h2
    using that
  proof (induction as arbitrary: h1)
    case (Cons a as)
    show ?case
    proof (cases "ss_cleanup (sess_at h1 a)")
      case True
      with Cons.prems show ?thesis
        by (intro Cons.IH[of "scope_Close now a h1"]) (auto simp: cleanup_def scope_Close_ok)
    next
      case False
      then have "cleanup now a h1 = None" by (simp add: cleanup_def)
      with Cons.prems(1) show ?thesis by (simp add: fold_cleanup_None)
    qed
  qed simp
  from this[of "map snd (hb_conns h)" h h'] assms show ?thesis
    by (force simp: CloseAll_def conn_ok_def dest: hub_ok_conn)
qed

definition hub_state_ok :: "'l hub option \<Rightarrow> bool" where
  "hub_state_ok st = (case st of None \<Rightarrow> True | Some h \<Rightarrow> hub_ok h)"

lemma hub_step_ok: "hub_state_ok st \<Longrightarrow> hub_state_ok (hub_step st e)"
proof (cases st)
  case (Some h)
  assume "hub_state_ok st"
  with Some have "hub_ok h" by (simp add: hub_state_ok_def)
  then show ?thesis unfolding Some
    by (cases e)
      (auto simp: hub_state_ok_def cleanup_def intro: inv_rules split: option.splits)
qed (simp add: hub_state_ok_def)

interpretation hub: machine hub_step hub_state_ok
  by unfold_locales (rule hub_step_ok)

lemma NewHub_ok: "hub_ok NewHub"
  by (simp add: hub_ok_def NewHub_def)

text \<open>
  C5: Resources: in any interleaving of set-ups, recorded lines, connection ends, reconnects and
  shutdowns, no model and no peer connection is ever closed twice, a scope that is done has closed
  each of them exactly once and cancelled its media, and every session in the registry is committed,
  still open and registered under its own id, with at most one session per id.
\<close>

theorem hub_resources:
  "case run hub_step (Some NewHub) es of
     None \<Rightarrow> True
   | Some h \<Rightarrow>
       (\<forall>sc \<in> set (hb_scopes h). sc_modelCloses sc = (if sc_done sc then 1 else 0) \<and>
          sc_pcCloses sc = (if sc_done sc then 1 else 0) \<and> sc_cancelled sc = sc_done sc) \<and>
       distinct (map fst (hb_conns h)) \<and>
       (\<forall>(sid, a) \<in> set (hb_conns h). a < length (hb_scopes h) \<and> sc_committed (hb_scopes h ! a) \<and>
          sc_modelCloses (hb_scopes h ! a) = 0 \<and> ss_id (sess_at h a) = sid)"
proof (cases "run hub_step (Some NewHub) es")
  case (Some h)
  have "hub_state_ok (run hub_step (Some NewHub) es)"
    by (rule hub.run_inv) (simp add: hub_state_ok_def NewHub_ok)
  then have ok: "hub_ok h" using Some by (simp add: hub_state_ok_def)
  then have "\<forall>sc \<in> set (hb_scopes h). scope_ok sc" by (simp add: hub_ok_def all_set_conv_all_nth)
  moreover have "a < length (hb_scopes h) \<and> sc_committed (hb_scopes h ! a) \<and>
      sc_modelCloses (hb_scopes h ! a) = 0 \<and> ss_id (sess_at h a) = sid"
    if "(sid, a) \<in> set (hb_conns h)" for sid a
    using hub_ok_conn[OF ok that] hub_ok_scope[OF ok, of a] by (auto simp: conn_ok_def scope_ok_def)
  ultimately show ?thesis using Some hub_ok_distinct[OF ok] by (auto simp: scope_ok_def)
qed simp

subsection \<open>Ownership\<close>

text \<open>
  What a step leaves as it is: sessions keep their identity and lines, and a new archive is the
  copy of a session's.
\<close>

definition quiet :: "'l hub \<Rightarrow> 'l hub \<Rightarrow> bool" where
  "quiet h h' =
     (length (hb_scopes h') = length (hb_scopes h) \<and>
      (\<forall>a < length (hb_scopes h). (sess_at h' a)\<lparr>ss_cleanup := False\<rparr> = (sess_at h a)\<lparr>ss_cleanup := False\<rparr>) \<and>
      (\<forall>sid arch. as_archives (hb_archives h') sid = Some arch \<longrightarrow>
         as_archives (hb_archives h) sid = Some arch \<or>
         (\<exists>a < length (hb_scopes h). sid = ss_id (sess_at h a) \<and> ar_userID arch = ss_userID (sess_at h a) \<and>
            ar_provider arch = ss_provider (sess_at h a) \<and>
            ar_history arch = rc_history (ss_rec (sess_at h a)))))"

lemma same_session:
  "s\<lparr>ss_cleanup := False\<rparr> = t\<lparr>ss_cleanup := False\<rparr> \<Longrightarrow>
   ss_id s = ss_id t \<and> ss_userID s = ss_userID t \<and> ss_provider s = ss_provider t \<and> ss_rec s = ss_rec t"
  by (metis session.ext_inject session.surjective session.update_convs(6))

lemma quiet_refl [simp]: "quiet h h"
  by (simp add: quiet_def)

lemma quiet_trans:
  assumes "quiet h1 h2" and "quiet h2 h3"
  shows "quiet h1 h3"
proof -
  have "ss_id (sess_at h2 a) = ss_id (sess_at h1 a) \<and> ss_userID (sess_at h2 a) = ss_userID (sess_at h1 a) \<and>
     ss_provider (sess_at h2 a) = ss_provider (sess_at h1 a) \<and> ss_rec (sess_at h2 a) = ss_rec (sess_at h1 a)"
    if "a < length (hb_scopes h1)" for a
    using assms(1) that by (intro same_session) (simp add: quiet_def)
  then show ?thesis using assms unfolding quiet_def by (metis (no_types, lifting))
qed

lemma archive_put_Some:
  "as_archives (archive_put now sid provider uid hist m s) i = Some arch \<Longrightarrow>
   as_archives s i = Some arch \<or>
   (i = sid \<and> ar_userID arch = uid \<and> ar_provider arch = provider \<and> ar_history arch = hist)"
  by (auto simp: archive_put_def split: if_splits option.splits)

lemma quiet_Close: "a < length (hb_scopes h) \<Longrightarrow> quiet h (scope_Close now a h)"
proof (cases "sc_done (hb_scopes h ! a)")
  case False
  assume a: "a < length (hb_scopes h)"
  note simps = scope_Close_simps[OF a False, of now]
  show ?thesis
    using a by (auto simp: quiet_def simps dest!: archive_put_Some split: if_splits)
qed (simp add: scope_Close_done)

lemma quiet_commit: "a < length (hb_scopes h) \<Longrightarrow> quiet h (scope_commit a h)"
  by (simp add: quiet_def scope_commit_conns)

lemma quiet_Resume:
  "hub_ok h \<Longrightarrow> quiet h (snd (Resume now sid uid provider afterSeq h))"
  by (auto simp: Resume_def Let_def quiet_Close hub_okD(1) split: option.splits)

lemma quiet_CloseAll:
  assumes "hub_ok h" and "CloseAll now h = Some h'"
  shows "quiet h h'"
proof -
  have "quiet h1 h2" if "fold (\<lambda>a acc. case acc of None \<Rightarrow> None | Some h' \<Rightarrow> cleanup now a h') as (Some h1) = Some h2"
    and "\<forall>a \<in> set as. a < length (hb_scopes h1)" for as h1 h2
    using that
  proof (induction as arbitrary: h1)
    case (Cons a as)
    show ?case
    proof (cases "ss_cleanup (sess_at h1 a)")
      case True
      with Cons.prems have "quiet (scope_Close now a h1) h2"
        by (intro Cons.IH) (auto simp: cleanup_def)
      then show ?thesis using quiet_Close Cons.prems(2) quiet_trans by (metis list.set_intros(1))
    next
      case False
      then have "cleanup now a h1 = None" by (simp add: cleanup_def)
      with Cons.prems(1) show ?thesis by (simp add: fold_cleanup_None)
    qed
  qed simp
  from this[of "map snd (hb_conns h)" h h'] assms show ?thesis
    by (force simp: CloseAll_def conn_ok_def dest: hub_ok_conn)
qed

text \<open>
  The lines a history of events gives to a user's session: those it was opened with, restored by a
  reconnect, and those recorded in it.  The address of a session is the number of those opened before.
\<close>

definition opens :: "'l hub_event list \<Rightarrow> 'l session_info list" where
  "opens es = List.map_filter (\<lambda>e. case e of Open now info \<Rightarrow> Some info | _ \<Rightarrow> None) es"

definition session_line :: "'l hub_event list \<Rightarrow> SessionID \<Rightarrow> UserID \<Rightarrow> string \<Rightarrow> line \<Rightarrow> bool" where
  "session_line es sid uid provider ln =
     (\<exists>a < length (opens es).
        in_ID (opens es ! a) = sid \<and> in_UserID (opens es ! a) = uid \<and> in_Provider (opens es ! a) = provider \<and>
        (ln \<in> set (in_InitialHistory (opens es ! a)) \<or> RecordLine a (ln_Role ln) (ln_Text ln) \<in> set es))"

definition traced :: "'l hub_event list \<Rightarrow> 'l hub \<Rightarrow> bool" where
  "traced es h =
     (length (hb_scopes h) = length (opens es) \<and>
      (\<forall>a < length (hb_scopes h). ss_id (sess_at h a) = in_ID (opens es ! a) \<and>
         ss_userID (sess_at h a) = in_UserID (opens es ! a) \<and>
         ss_provider (sess_at h a) = in_Provider (opens es ! a) \<and>
         (\<forall>ln \<in> set (rc_history (ss_rec (sess_at h a))).
            ln \<in> set (in_InitialHistory (opens es ! a)) \<or> RecordLine a (ln_Role ln) (ln_Text ln) \<in> set es)) \<and>
      (\<forall>sid arch. as_archives (hb_archives h) sid = Some arch \<longrightarrow>
         (\<forall>ln \<in> set (ar_history arch). session_line es sid (ar_userID arch) (ar_provider arch) ln)))"

lemma traced_session:
  "traced es h \<Longrightarrow> a < length (hb_scopes h) \<Longrightarrow> ln \<in> set (rc_history (ss_rec (sess_at h a))) \<Longrightarrow>
   session_line es (ss_id (sess_at h a)) (ss_userID (sess_at h a)) (ss_provider (sess_at h a)) ln"
  unfolding traced_def session_line_def by (intro exI[of _ a]) auto

lemma opens_append [simp]: "opens (es @ fs) = opens es @ opens fs"
  by (simp add: opens_def map_filter_def)

lemma session_line_mono: "session_line es sid uid provider ln \<Longrightarrow> session_line (es @ fs) sid uid provider ln"
  unfolding session_line_def by (fastforce simp: nth_append)

lemma traced_quiet:
  assumes "traced es h" and "quiet h h'" and "opens [e] = []"
  shows "traced (es @ [e]) h'"
proof -
  have o: "opens (es @ [e]) = opens es" using assms(3) by simp
  have s: "ss_id (sess_at h' a) = ss_id (sess_at h a) \<and> ss_userID (sess_at h' a) = ss_userID (sess_at h a) \<and>
     ss_provider (sess_at h' a) = ss_provider (sess_at h a) \<and> ss_rec (sess_at h' a) = ss_rec (sess_at h a)"
    if "a < length (hb_scopes h)" for a
    using assms(2) that by (intro same_session) (simp add: quiet_def)
  have len: "length (hb_scopes h') = length (hb_scopes h)" using assms(2) by (simp add: quiet_def)
  have "session_line es sid (ar_userID arch) (ar_provider arch) ln"
    if arch: "as_archives (hb_archives h') sid = Some arch" and ln: "ln \<in> set (ar_history arch)" for sid arch ln
  proof (cases "as_archives (hb_archives h) sid = Some arch")
    case True
    with assms(1) ln show ?thesis by (simp add: traced_def)
  next
    case False
    then obtain a where "a < length (hb_scopes h)" "sid = ss_id (sess_at h a)"
      "ar_userID arch = ss_userID (sess_at h a)" "ar_provider arch = ss_provider (sess_at h a)"
      "ar_history arch = rc_history (ss_rec (sess_at h a))"
      using assms(2) arch unfolding quiet_def by blast
    with traced_session[OF assms(1)] ln show ?thesis by metis
  qed
  then show ?thesis
    using assms(1) unfolding traced_def o len by (auto simp: s intro: session_line_mono)
qed

lemma record_line_mem:
  "ln \<in> set (rc_history (snd (record_line r w))) \<Longrightarrow>
   ln \<in> set (rc_history r) \<or> (ln_Role ln = fst w \<and> ln_Text ln = snd w)"
  by (auto simp: record_line_eq Let_def dest!: in_keep_lastD)

lemma traced_step:
  assumes "traced es h" and "hub_ok h" and "hub_step (Some h) e = Some h'"
  shows "traced (es @ [e]) h'"
proof (cases e)
  case (Open now info)
  then have "h' = snd (newSessionScope (new_session now info) h)" using assms(3) by simp
  moreover have "opens [e] = [info]" by (simp add: opens_def Open map_filter_def)
  ultimately show ?thesis
    using assms(1) unfolding traced_def
    by (auto simp: newSessionScope_def new_session_def NewRecorder_def nth_append less_Suc_eq
        intro: session_line_mono)
next
  case (RecordLine a role body)
  have o: "opens [e] = []" by (simp add: opens_def RecordLine map_filter_def)
  show ?thesis
  proof (cases "a < length (hb_scopes h)")
    case True
    then have h': "h' = upd_scope a (\<lambda>sc. sc\<lparr>sc_sess := (sc_sess sc)\<lparr>ss_rec :=
        snd (record_line (ss_rec (sess_at h a)) (role, body))\<rparr>\<rparr>) h"
      using assms(3) RecordLine by (simp add: session_record_eq)
    have "ln \<in> set (in_InitialHistory (opens es ! b)) \<or>
        hub_event.RecordLine b (ln_Role ln) (ln_Text ln) \<in> set (es @ [e])"
      if "b < length (hb_scopes h)" and "ln \<in> set (rc_history (ss_rec (sess_at h' b)))" for b ln
      using assms(1) that RecordLine True unfolding traced_def h'
      by (auto split: if_splits dest!: record_line_mem)
    then show ?thesis
      using assms(1) o True unfolding traced_def
      by (auto simp: h' intro: session_line_mono)
  next
    case False
    then show ?thesis using assms traced_quiet[OF assms(1) quiet_refl o] RecordLine by simp
  qed
qed (use assms in \<open>auto simp: abortIfUncommitted_def cleanup_def opens_def map_filter_def
       intro!: traced_quiet quiet_Close quiet_commit quiet_Resume intro: quiet_CloseAll split: if_splits\<close>)

lemma traced_run:
  assumes "run hub_step (Some NewHub) es = Some h"
  shows "traced es h"
  using assms
proof (induction es arbitrary: h rule: rev_induct)
  case Nil
  then show ?case by (auto simp: traced_def NewHub_def newSessionArchiveStore_def opens_def map_filter_def)
next
  case (snoc e es)
  obtain h0 where h0: "run hub_step (Some NewHub) es = Some h0"
    using snoc.prems by (cases "run hub_step (Some NewHub) es") auto
  have "hub_state_ok (run hub_step (Some NewHub) es)"
    by (rule hub.run_inv) (simp add: hub_state_ok_def NewHub_ok)
  then have "hub_ok h0" using h0 by (simp add: hub_state_ok_def)
  then show ?case using traced_step[OF snoc.IH[OF h0]] snoc.prems h0 by simp
qed

text \<open>
  C8: Transcript ownership: whatever has happened, a reconnect that succeeds gives a user only lines
  of that user's own session: the user is authenticated, and every line, restored or replayed, was
  recorded in (or given as restored history to) a session with the requested id, that user and that
  provider.  A session id learnt by somebody else yields nothing.
\<close>

theorem resume_ownership:
  assumes "run hub_step (Some NewHub) es = Some h"
    and "fst (Resume now sid uid provider afterSeq h) = Some (full, replay, startSeq)"
  shows "\<not> Anonymous uid \<and> replay = filter (\<lambda>ln. afterSeq < ln_Seq ln) full \<and>
    (\<forall>ln \<in> set full. session_line es sid uid provider ln)"
proof -
  have t: "traced es h" using assms(1) by (rule traced_run)
  have "hub_state_ok (run hub_step (Some NewHub) es)"
    by (rule hub.run_inv) (simp add: hub_state_ok_def NewHub_ok)
  then have ok: "hub_ok h" using assms(1) by (simp add: hub_state_ok_def)
  show ?thesis
  proof (cases "map_of (hb_conns h) sid")
    case (Some a)
    then show ?thesis
      using assms(2) hub_okD(1,4)[OF ok Some] traced_session[OF t, of a]
      by (auto simp: Resume_def Let_def Recorder_FullHistory_def split: if_splits)
  next
    case None
    then show ?thesis
      using assms(2) t
      by (auto simp: Resume_def archive_resume_def Let_def traced_def split: if_splits option.splits)
  qed
qed

definition demo_info :: "unit session_info" where
  "demo_info = \<lparr>in_ID = ''s'', in_UserID = ''u'', in_Provider = ''gemini'', in_StartSeq = 0,
     in_InitialHistory = [], in_Replay = [], in_Transcript = None, in_StreamFaultAt = False\<rparr>"

definition demo_events :: "unit hub_event list" where
  "demo_events = [Open 0 demo_info, Commit 0, RecordLine 0 ''user'' ''hi'', ConnectionEnd 9 0]"

definition demo_hub :: "unit hub" where
  "demo_hub = the (run hub_step (Some NewHub) demo_events)"

lemma demo_hub_run: "run hub_step (Some NewHub) demo_events = Some demo_hub"
  by (simp add: demo_hub_def demo_events_def cleanup_def newSessionScope_def new_session_def NewHub_def
      scope_commit_def hub_add_def upd_scope_def Let_def session_record_def Recorder_Record_def demo_info_def
      NewRecorder_def)

theorem hub_resources_witness:
  "distinct (map fst (hb_conns demo_hub)) \<and>
   sc_modelCloses (hb_scopes demo_hub ! 0) = (if sc_done (hb_scopes demo_hub ! 0) then 1 else 0)"
proof -
  have "hb_scopes demo_hub ! 0 \<in> set (hb_scopes demo_hub)"
    by (rule nth_mem) (simp add: demo_hub_def demo_events_def cleanup_def newSessionScope_def new_session_def NewHub_def
      scope_commit_def upd_scope_def hub_add_def scope_Close_def hub_remove_def session_record_def Let_def
      Recorder_Record_def NewRecorder_def Recorder_FullHistory_def Recorder_MaxSeq_def)
  with hub_resources[of demo_events] show ?thesis unfolding demo_hub_run by simp
qed

lemma demo_hub_eval:
  "Resume 10 ''s'' ''u'' ''gemini'' 0 demo_hub =
     (Some ([\<lparr>ln_Seq = 1, ln_Role = ''user'', ln_Text = ''hi''\<rparr>],
            [\<lparr>ln_Seq = 1, ln_Role = ''user'', ln_Text = ''hi''\<rparr>], 1), demo_hub)"
  by (simp add: demo_hub_def demo_events_def cleanup_def newSessionScope_def new_session_def NewHub_def
      scope_commit_def hub_add_def upd_scope_def Let_def session_record_def Recorder_Record_def demo_info_def
      NewRecorder_def scope_Close_def hub_remove_def Resume_def archive_resume_def archive_put_def
      Recorder_FullHistory_def Recorder_MaxSeq_def newSessionArchiveStore_def archiveTTL_def Anonymous_def
      minute_def second_def millisecond_def AList.delete_eq)

theorem resume_ownership_witness:
  "session_line demo_events ''s'' ''u'' ''gemini'' \<lparr>ln_Seq = 1, ln_Role = ''user'', ln_Text = ''hi''\<rparr>"
proof -
  have "fst (Resume 10 ''s'' ''u'' ''gemini'' 0 demo_hub) =
      Some ([\<lparr>ln_Seq = 1, ln_Role = ''user'', ln_Text = ''hi''\<rparr>],
            [\<lparr>ln_Seq = 1, ln_Role = ''user'', ln_Text = ''hi''\<rparr>], 1)"
    by (simp only: demo_hub_eval fst_conv)
  from resume_ownership[OF demo_hub_run this] show ?thesis by simp
qed

subsection \<open>Reconnecting\<close>

lemma in_conns_map_of: "hub_ok h \<Longrightarrow> (sid, a) \<in> set (hb_conns h) \<Longrightarrow> map_of (hb_conns h) sid = Some a"
  by (simp add: hub_ok_distinct)

text \<open>
  Reconnecting to a session that is still connected and reconnecting after it was disconnected are
  the same: for a registered session with recorded lines, the owner's takeover of the live session
  returns the same history, replay and sequence base as a reconnect after the connection has ended,
  at any time within the archive's time to live; and in both cases the old session is closed.
\<close>

theorem resume_live_or_archived:
  assumes "hub_ok h" and "map_of (hb_conns h) sid = Some a" and "rc_history (ss_rec (sess_at h a)) \<noteq> []"
    and "cleanup t a h = Some h'" and "t \<le> now" and "now \<le> t + as_ttl (hb_archives h)"
  shows "fst (Resume now sid uid provider afterSeq h') = fst (Resume t sid uid provider afterSeq h) \<and>
    map_of (hb_conns h') sid = None \<and> sc_done (hb_scopes h' ! a) \<and>
    (fst (Resume t sid uid provider afterSeq h) \<noteq> None \<longrightarrow> snd (Resume t sid uid provider afterSeq h) = h')"
proof -
  note a = hub_okD[OF assms(1,2)]
  note simps = scope_Close_simps[OF a(1,3), of t]
  have h': "h' = scope_Close t a h" using assms(4) a(5) by (simp add: cleanup_def)
  have gone: "map_of (hb_conns h') sid = None" by (simp add: h' simps(1) a(2,4) delete_conv')
  have arch: "as_archives (hb_archives h') sid =
      Some \<lparr>ar_provider = ss_provider (sess_at h a), ar_userID = ss_userID (sess_at h a),
            ar_history = rc_history (ss_rec (sess_at h a)), ar_maxSeq = rc_seq (ss_rec (sess_at h a)),
            ar_expiry = t + as_ttl (hb_archives h)\<rparr>"
    using assms(3) by (simp add: h' simps(4) a(2,4) archive_put_def)
  have "sc_done (hb_scopes h' ! a)" by (simp add: h' simps(3))
  moreover have "fst (Resume t sid uid provider afterSeq h) \<noteq> None \<longrightarrow>
      snd (Resume t sid uid provider afterSeq h) = h'"
    using assms(2) a(5) by (auto simp: Resume_def Let_def h')
  moreover have "fst (Resume now sid uid provider afterSeq h') = fst (Resume t sid uid provider afterSeq h)"
    using assms(2,6) gone arch
    by (auto simp: Resume_def archive_resume_def Let_def Recorder_FullHistory_def Recorder_MaxSeq_def)
  ultimately show ?thesis using gone by blast
qed

definition live_hub :: "unit hub" where
  "live_hub = the (run hub_step (Some NewHub) [Open 0 demo_info, Commit 0, RecordLine 0 ''user'' ''hi''])"

lemma live_hub_eval:
  "hb_conns live_hub = [(''s'', 0)]" "length (hb_scopes live_hub) = 1"
  "rc_history (ss_rec (sess_at live_hub 0)) = [\<lparr>ln_Seq = 1, ln_Role = ''user'', ln_Text = ''hi''\<rparr>]"
  "rc_seq (ss_rec (sess_at live_hub 0)) = 1" "as_ttl (hb_archives live_hub) = 5 * minute"
  "ss_cleanup (sess_at live_hub 0)" "ss_userID (sess_at live_hub 0) = ''u''"
  "ss_provider (sess_at live_hub 0) = ''gemini''" "hub_ok live_hub"
  by (simp_all add: live_hub_def newSessionScope_def new_session_def NewHub_def
      scope_commit_def hub_add_def upd_scope_def Let_def session_record_def Recorder_Record_def demo_info_def
      NewRecorder_def newSessionArchiveStore_def archiveTTL_def hub_ok_def conn_ok_def scope_ok_def)

theorem resume_live_or_archived_witness:
  "fst (Resume 60 ''s'' ''u'' ''gemini'' 0 (the (cleanup 9 0 live_hub))) =
   Some ([\<lparr>ln_Seq = 1, ln_Role = ''user'', ln_Text = ''hi''\<rparr>],
         [\<lparr>ln_Seq = 1, ln_Role = ''user'', ln_Text = ''hi''\<rparr>], 1)"
proof -
  have c: "map_of (hb_conns live_hub) ''s'' = Some 0" "rc_history (ss_rec (sess_at live_hub 0)) \<noteq> []"
    "cleanup 9 0 live_hub = Some (the (cleanup 9 0 live_hub))"
    "(60::time) \<le> 9 + as_ttl (hb_archives live_hub)"
    by (simp_all add: live_hub_eval cleanup_def minute_def second_def millisecond_def)
  have "fst (Resume 60 ''s'' ''u'' ''gemini'' 0 (the (cleanup 9 0 live_hub))) =
      fst (Resume 9 ''s'' ''u'' ''gemini'' 0 live_hub)"
    using resume_live_or_archived[OF live_hub_eval(9) c(1,2,3) _ c(4)] by (simp del: fst_conv)
  then show ?thesis
    by (simp add: Resume_def live_hub_eval Anonymous_def Let_def Recorder_FullHistory_def
        Recorder_MaxSeq_def)
qed

text \<open>
  C9: A reconnect is seamless: when the owner resumes a registered session and \<open>Serve\<close> then sets up
  the connection with what \<open>Resume\<close> returned, exactly the retained lines above the client's last
  sequence number are to be replayed, the new session is the one registered under the id, it starts
  from the whole retained history, and the next line it records has the number after the last one of
  the old session.
\<close>

theorem reconnect_continues:
  assumes "hub_ok h" and "map_of (hb_conns h) sid = Some a"
    and "Resume t sid uid provider afterSeq h = (Some (full, replay, startSeq), h1)"
    and "Serve env t m \<lparr>in_ID = sid, in_UserID = uid, in_Provider = provider, in_StartSeq = startSeq,
            in_InitialHistory = full, in_Replay = replay, in_Transcript = l, in_StreamFaultAt = f\<rparr> h1
         = (Inr answer, effects, h2)"
  shows "\<exists>b. map_of (hb_conns h2) sid = Some b \<and> b \<noteq> a \<and> sc_done (hb_scopes h2 ! a) \<and>
    \<not> sc_done (hb_scopes h2 ! b) \<and> replay = filter (\<lambda>ln. afterSeq < ln_Seq ln) (rc_history (ss_rec (sess_at h a))) \<and>
    rc_history (ss_rec (sess_at h2 b)) = rc_history (ss_rec (sess_at h a)) \<and>
    SessionState t sid uid h2 = Some (provider, rc_seq (ss_rec (sess_at h a))) \<and>
    ln_Seq (fst (session_record b role body h2)) = rc_seq (ss_rec (sess_at h a)) + 1"
proof -
  note a = hub_okD[OF assms(1,2)]
  have r: "uid \<noteq> ''''" "sid \<noteq> ''''" "ss_provider (sess_at h a) = provider" "ss_userID (sess_at h a) = uid"
    "full = rc_history (ss_rec (sess_at h a))" "startSeq = rc_seq (ss_rec (sess_at h a))"
    "replay = filter (\<lambda>ln. afterSeq < ln_Seq ln) full" "h1 = scope_Close t a h"
    using assms(2,3) a(5)
    by (auto simp: Resume_def Let_def Anonymous_def Recorder_FullHistory_def Recorder_MaxSeq_def split: if_splits)
  note simps = scope_Close_simps[OF a(1,3), of t, folded r(8)]
  let ?info = "\<lparr>in_ID = sid, in_UserID = uid, in_Provider = provider, in_StartSeq = startSeq,
            in_InitialHistory = full, in_Replay = replay, in_Transcript = l, in_StreamFaultAt = f\<rparr>"
  let ?b = "length (hb_scopes h1)" and ?h' = "snd (newSessionScope (new_session t ?info) h1)"
  have b: "?b < length (hb_scopes ?h')" by (simp add: newSessionScope_def)
  have h2: "h2 = scope_commit ?b ?h'"
    using assms(4) scope_commit_conns(4)[OF b, of ?b]
    by (auto simp: Serve_def negotiate_def Let_def newSessionScope_def abortIfUncommitted_def split: option.splits)
  have new: "sess_at ?h' ?b = new_session t ?info" by (simp add: newSessionScope_def)
  have old: "hb_scopes ?h' ! a = hb_scopes h1 ! a"
    using a(1) simps(2) by (simp add: newSessionScope_def nth_append)
  have ne: "?b \<noteq> a" using a(1) simps(2) by simp
  have reg: "map_of (hb_conns h2) sid = Some ?b"
    by (simp add: h2 scope_commit_conns(1)[OF b] new update_Some_unfold) (simp add: new_session_def)
  have s2: "ss_rec (sess_at h2 ?b) = NewRecorder startSeq full 256
      \<lparr>sm_SessionID = sid, sm_UserID = uid, sm_Provider = provider\<rparr> l"
    "ss_userID (sess_at h2 ?b) = uid" "ss_provider (sess_at h2 ?b) = provider"
    by (simp_all add: h2 scope_commit_conns(4)[OF b] new) (simp_all add: new_session_def)
  have d: "sc_done (hb_scopes h2 ! a)" "\<not> sc_done (hb_scopes h2 ! ?b)"
    using ne a(1) by (simp_all add: h2 scope_commit_conns(4)[OF b] old simps(3)) (simp add: newSessionScope_def)
  have "SessionState t sid uid h2 = Some (provider, rc_seq (ss_rec (sess_at h a)))"
    using r(1,2) by (simp add: SessionState_def reg s2 Anonymous_def Recorder_MaxSeq_def NewRecorder_def r(6))
  moreover have "ln_Seq (fst (session_record ?b role body h2)) = rc_seq (ss_rec (sess_at h a)) + 1"
    by (simp add: session_record_def s2 Recorder_Record_def Let_def NewRecorder_def r(6))
  moreover have "rc_history (ss_rec (sess_at h2 ?b)) = rc_history (ss_rec (sess_at h a))"
    by (simp add: s2 NewRecorder_def r(5))
  ultimately show ?thesis using reg ne d r(5,7) by blast
qed

definition env_ok :: webrtc_env where
  "env_ok = \<lparr>we_NewPeerConnection = None, we_NewTrack = None, we_AddTrack = None,
     we_SetRemoteDescription = None, we_CreateAnswer = None, we_SetLocalDescription = None,
     we_LocalSDP = ''v=0''\<rparr>"

theorem reconnect_continues_witness:
  "\<exists>h1 m info effects (h2 :: unit hub) b. Resume 9 ''s'' ''u'' ''gemini'' 1 live_hub =
       (Some ([\<lparr>ln_Seq = 1, ln_Role = ''user'', ln_Text = ''hi''\<rparr>], [], 1), h1) \<and>
     Serve env_ok 9 m info h1 = (Inr ''v=0'', effects, h2) \<and>
     map_of (hb_conns h2) ''s'' = Some b \<and> ln_Seq (fst (session_record b ''model'' ''yo'' h2)) = 2"
proof -
  let ?full = "[\<lparr>ln_Seq = 1, ln_Role = ''user'', ln_Text = ''hi''\<rparr>]"
  let ?info = "\<lparr>in_ID = ''s'', in_UserID = ''u'', in_Provider = ''gemini'', in_StartSeq = 1,
     in_InitialHistory = ?full, in_Replay = [], in_Transcript = None, in_StreamFaultAt = False\<rparr>"
  let ?m = "\<lparr>mt_restorer = True, mt_transcriber = True, mt_tools = True, mt_interrupter = False,
     mt_supportsInterruption = False\<rparr>"
  define h1 where "h1 = scope_Close 9 0 live_hub"
  have r: "Resume 9 ''s'' ''u'' ''gemini'' 1 live_hub = (Some (?full, [], 1), h1)"
    by (simp add: Resume_def live_hub_eval Anonymous_def Let_def Recorder_FullHistory_def
        Recorder_MaxSeq_def h1_def)
  obtain x effects h2 where s: "Serve env_ok 9 ?m ?info h1 = (x, effects, h2)" by (metis prod_cases3)
  have "x = Inr ''v=0''" using s by (auto simp: Serve_def negotiate_def env_ok_def Let_def split_beta)
  with s have s: "Serve env_ok 9 ?m ?info h1 = (Inr ''v=0'', effects, h2)" by simp
  have c: "map_of (hb_conns live_hub) ''s'' = Some 0" by (simp add: live_hub_eval)
  from reconnect_continues[OF live_hub_eval(9) c r s, of "''model''" "''yo''"]
  obtain b where "map_of (hb_conns h2) ''s'' = Some b"
    "ln_Seq (fst (session_record b ''model'' ''yo'' h2)) = rc_seq (ss_rec (sess_at live_hub 0)) + 1"
    by blast
  then have "map_of (hb_conns h2) ''s'' = Some b" "ln_Seq (fst (session_record b ''model'' ''yo'' h2)) = 2"
    by (simp_all add: live_hub_eval)
  with r s show ?thesis by blast
qed

subsection \<open>Set-up and shutdown\<close>

text \<open>The effects of \<open>Serve\<close> before the WebRTC negotiation, and its result in terms of the scope.\<close>

definition serve_prelude :: "model_type \<Rightarrow> time \<Rightarrow> 'l session_info \<Rightarrow> serve_effect list" where
  "serve_prelude m t info =
     (if cp_Restorer (Resolve m) \<and> 0 < length (in_InitialHistory info)
      then [RestoreContext (restoredTurns (in_InitialHistory info))] else [])
     @ (if in_StreamFaultAt info then [BindStreamFault t] else [])"

lemma serve_prelude_no_close [simp]:
  "ModelClose \<notin> set (serve_prelude m t info)" "PcClose \<notin> set (serve_prelude m t info)"
  by (auto simp: serve_prelude_def)

lemma Serve_eq:
  fixes h :: "'l hub" and info :: "'l session_info" and t
  defines "h1 \<equiv> snd (newSessionScope (new_session t info) h)"
  shows "Serve env t m info h =
     (case we_NewPeerConnection env of Some e \<Rightarrow> (Inl e, [ModelClose], h) | None \<Rightarrow>
       (case first_error [we_NewTrack env, we_AddTrack env] of Some e \<Rightarrow> (Inl e, [PcClose, ModelClose], h) | None \<Rightarrow>
         (case first_error [we_SetRemoteDescription env, we_CreateAnswer env, we_SetLocalDescription env] of
            Some e \<Rightarrow> (Inl e, serve_prelude m t info, scope_Close t (length (hb_scopes h)) h1)
          | None \<Rightarrow> (Inr (we_LocalSDP env), serve_prelude m t info, scope_commit (length (hb_scopes h)) h1))))"
proof -
  let ?b = "length (hb_scopes h)"
  have b: "?b < length (hb_scopes h1)" by (simp add: h1_def newSessionScope_def)
  have new: "\<not> sc_committed (hb_scopes h1 ! ?b)" by (simp add: h1_def newSessionScope_def)
  have ns: "newSessionScope (new_session t info) h = (?b, h1)" by (simp add: h1_def newSessionScope_def)
  have fin: "abortIfUncommitted t ?b h1 = scope_Close t ?b h1"
    "abortIfUncommitted t ?b (scope_commit ?b h1) = scope_commit ?b h1"
    by (simp_all add: abortIfUncommitted_def new scope_commit_conns(4)[OF b])
  show ?thesis unfolding Serve_def negotiate_def ns serve_prelude_def Let_def prod.case fin by (simp split: option.split)
qed

lemma aborted_scope:
  "hb_conns (scope_Close t (length (hb_scopes h)) (snd (newSessionScope (new_session t info) h))) = hb_conns h"
  "hb_archives (scope_Close t (length (hb_scopes h)) (snd (newSessionScope (new_session t info) h))) = hb_archives h"
  "hb_scopes (scope_Close t (length (hb_scopes h)) (snd (newSessionScope (new_session t info) h))) =
     hb_scopes h @ [\<lparr>sc_sess = new_session t info, sc_committed = False, sc_done = True,
       sc_cancelled = True, sc_modelCloses = 1, sc_pcCloses = 1\<rparr>]"
  by (simp_all add: scope_Close_def newSessionScope_def upd_scope_def)

lemma committed_scope:
  fixes h :: "'l hub" and t and info :: "'l session_info"
  defines "h' \<equiv> scope_commit (length (hb_scopes h)) (snd (newSessionScope (new_session t info) h))"
  shows "hb_conns h' = AList.update (in_ID info) (length (hb_scopes h)) (hb_conns h)"
    and "hb_archives h' = hb_archives h"
    and "hb_scopes h' = hb_scopes h @ [\<lparr>sc_sess = (new_session t info)\<lparr>ss_cleanup := True\<rparr>,
       sc_committed = True, sc_done = False, sc_cancelled = False, sc_modelCloses = 0, sc_pcCloses = 0\<rparr>]"
  by (simp_all add: h'_def scope_commit_def hub_add_def newSessionScope_def upd_scope_def Let_def new_session_def)

lemma Serve_Inl_conns: "Serve env t m info h = (Inl e, effects, h') \<Longrightarrow> hb_conns h' = hb_conns h"
  by (auto simp: Serve_eq aborted_scope split: option.splits)

text \<open>
  C10: \<open>Serve\<close> owns the model it is given: whatever call of its set-up fails, it returns that error, the
  model has been closed exactly once (the peer connection too, once it exists), and neither the
  registry nor the archive has changed; when nothing fails the session is registered, open and
  committed.
\<close>

theorem serve_owns_model:
  assumes "Serve env t m info h = (result, effects, h')"
  shows "case result of
      Inl e \<Rightarrow>
        first_error [we_NewPeerConnection env, we_NewTrack env, we_AddTrack env, we_SetRemoteDescription env,
                     we_CreateAnswer env, we_SetLocalDescription env] = Some e \<and>
        hb_conns h' = hb_conns h \<and> hb_archives h' = hb_archives h \<and>
        (if length (hb_scopes h') = length (hb_scopes h)
         then h' = h \<and> count_list effects ModelClose = 1 \<and>
              count_list effects PcClose = (if we_NewPeerConnection env = None then 1 else 0)
         else \<exists>sc. hb_scopes h' = hb_scopes h @ [sc] \<and> sc_modelCloses sc = 1 \<and> sc_pcCloses sc = 1 \<and>
              sc_cancelled sc \<and> ModelClose \<notin> set effects \<and> PcClose \<notin> set effects)
    | Inr answer \<Rightarrow>
        answer = we_LocalSDP env \<and> length (hb_scopes h') = length (hb_scopes h) + 1 \<and>
        map_of (hb_conns h') (in_ID info) = Some (length (hb_scopes h)) \<and>
        sc_modelCloses (last (hb_scopes h')) = 0 \<and> sc_committed (last (hb_scopes h')) \<and>
        ss_cleanup (sc_sess (last (hb_scopes h'))) \<and> ModelClose \<notin> set effects"
proof -
  let ?trk = "first_error [we_NewTrack env, we_AddTrack env]"
  let ?sdp = "first_error [we_SetRemoteDescription env, we_CreateAnswer env, we_SetLocalDescription env]"
  have errs: "first_error [we_NewPeerConnection env, we_NewTrack env, we_AddTrack env,
        we_SetRemoteDescription env, we_CreateAnswer env, we_SetLocalDescription env] =
      (case we_NewPeerConnection env of Some e \<Rightarrow> Some e | None \<Rightarrow>
        (case ?trk of Some e \<Rightarrow> Some e | None \<Rightarrow> ?sdp))"
    by (cases "we_NewPeerConnection env"; cases "we_NewTrack env"; cases "we_AddTrack env") auto
  consider (pc) e where "we_NewPeerConnection env = Some e"
    | (early) e where "we_NewPeerConnection env = None" "?trk = Some e"
    | (sdp) e where "we_NewPeerConnection env = None" "?trk = None" "?sdp = Some e"
    | (ok) "we_NewPeerConnection env = None" "?trk = None" "?sdp = None"
    by (metis option.exhaust)
  then show ?thesis
  proof cases
    case pc
    with assms have "result = Inl e" "effects = [ModelClose]" "h' = h" by (auto simp only: Serve_eq option.case)
    then show ?thesis using pc by simp
  next
    case early
    with assms have "result = Inl e" "effects = [PcClose, ModelClose]" "h' = h"
      by (auto simp only: Serve_eq option.case)
    moreover have "first_error [we_NewPeerConnection env, we_NewTrack env, we_AddTrack env,
        we_SetRemoteDescription env, we_CreateAnswer env, we_SetLocalDescription env] = Some e"
      unfolding errs by (simp only: early option.case)
    ultimately show ?thesis using early(1) by (simp del: first_error.simps)
  next
    case sdp
    with assms have "result = Inl e" "effects = serve_prelude m t info" "h' = scope_Close t (length (hb_scopes h)) (snd (newSessionScope (new_session t info) h))"
      by (auto simp only: Serve_eq option.case)
    moreover have "first_error [we_NewPeerConnection env, we_NewTrack env, we_AddTrack env,
        we_SetRemoteDescription env, we_CreateAnswer env, we_SetLocalDescription env] = Some e"
      unfolding errs by (simp only: sdp option.case)
    ultimately show ?thesis by (simp add: aborted_scope del: first_error.simps)
  next
    case ok
    with assms have "result = Inr (we_LocalSDP env)" "effects = serve_prelude m t info" "h' = scope_commit (length (hb_scopes h)) (snd (newSessionScope (new_session t info) h))"
      by (auto simp only: Serve_eq option.case)
    then show ?thesis by (simp add: committed_scope update_conv')
  qed
qed

theorem serve_owns_model_witness:
  "\<exists>h'. Serve (env_ok\<lparr>we_SetRemoteDescription := Some ''bad sdp''\<rparr>) 0
      \<lparr>mt_restorer = False, mt_transcriber = False, mt_tools = False, mt_interrupter = False,
       mt_supportsInterruption = False\<rparr> demo_info NewHub = (Inl ''bad sdp'', [], h') \<and>
     hb_conns h' = []"
proof -
  let ?m = "\<lparr>mt_restorer = False, mt_transcriber = False, mt_tools = False, mt_interrupter = False,
       mt_supportsInterruption = False\<rparr>"
  let ?env = "env_ok\<lparr>we_SetRemoteDescription := Some ''bad sdp''\<rparr>"
  obtain h' where s: "Serve ?env 0 ?m demo_info NewHub = (Inl ''bad sdp'', [], h')"
    by (simp add: Serve_def negotiate_def env_ok_def Resolve_def demo_info_def Let_def split_beta)
  from serve_owns_model[OF s] have "hb_conns h' = hb_conns (NewHub :: unit hub)" by simp
  with s show ?thesis by (simp add: NewHub_def)
qed

subsection \<open>Limits\<close>

text \<open>
  A connection that ends before \<open>Serve\<close> has committed its session calls a nil \<open>cleanup\<close>: the process
  panics.  It happens when a set-up step fails after the callbacks are installed, because the abort
  closes the peer connection, which reports the state \<open>Closed\<close>.
\<close>

lemma early_connection_end_panics:
  "run hub_step (Some NewHub) [Open 0 info, Abort 1 0, ConnectionEnd 2 0] = None"
  by (simp add: NewHub_def newSessionScope_def new_session_def abortIfUncommitted_def scope_Close_def
      upd_scope_def cleanup_def Let_def)

text \<open>
  \<open>remove\<close> deletes by id only.  When two sessions are set up with one id (two reconnects that both
  passed \<open>Resume\<close>), the end of the first takes the registration of the second with it: the second
  is alive, but the hub does not know it and \<open>CloseAll\<close> does not reach it.
\<close>

lemma second_session_unregistered:
  "\<exists>h. run hub_step (Some NewHub)
         [Open 0 demo_info, Open 0 demo_info, Commit 0, Commit 1, ConnectionEnd 5 0] = Some h \<and>
       hb_conns h = [] \<and> sc_committed (hb_scopes h ! 1) \<and> \<not> sc_done (hb_scopes h ! 1) \<and>
       CloseAll 9 h = Some h"
  by (simp add: NewHub_def newSessionScope_def new_session_def scope_Close_def scope_commit_def hub_add_def
      upd_scope_def cleanup_def Let_def demo_info_def NewRecorder_def hub_remove_def Recorder_FullHistory_def
      CloseAll_def AList.delete_eq)

end
