(* ===== verification/Metrics.thy ===== *)
theory Metrics
  imports Prelude
begin

text \<open>
  Process-wide telemetry, \<open>internal/metrics/metrics.go\<close>: the histogram of frame intervals, the
  counters of the outbound pump and the replay counters.  The atomics are 64-bit words that wrap.
  Interval edges are whole milliseconds, so comparing the quotient in floating point with an edge is
  comparing the nanoseconds.
\<close>

definition frameEdgesMs :: "int list" where
  "frameEdgesMs = [20, 21, 23, 25, 30]"

definition replayLatencyEdgesMs :: "int list" where
  "replayLatencyEdgesMs = [20, 50, 100, 200, 300]"

definition frameLabels :: "string list" where
  "frameLabels = [''<20ms'', ''20-21ms'', ''21-23ms'', ''23-25ms'', ''25-30ms'', ''>=30ms'']"

definition replaySources :: "string list" where
  "replaySources = [''memory'', ''index'']"

record metrics =
  mx_frameBuckets :: "u64 list"
  mx_replayAttempts :: "u64 list"
  mx_replayHits :: "u64 list"
  mx_replayTimeouts :: "u64 list"
  mx_replayErrors :: "u64 list"
  mx_replayLatency :: "u64 list list"
  mx_framesWritten :: u64
  mx_exitWriteSample :: u64
  mx_exitRecv :: u64
  mx_exitCtx :: u64

definition metrics_zero :: metrics where
  "metrics_zero =
     \<lparr>mx_frameBuckets = replicate 6 0, mx_replayAttempts = replicate 2 0, mx_replayHits = replicate 2 0,
      mx_replayTimeouts = replicate 2 0, mx_replayErrors = replicate 2 0,
      mx_replayLatency = replicate 2 (replicate 6 0), mx_framesWritten = 0, mx_exitWriteSample = 0,
      mx_exitRecv = 0, mx_exitCtx = 0\<rparr>"

definition add1 :: "nat \<Rightarrow> u64 list \<Rightarrow> u64 list" where
  "add1 i xs = xs[i := xs ! i + 1]"

text \<open>The loop over the edges: the index of the first edge above the interval, or the overflow bucket.\<close>

fun bucket_of :: "int list \<Rightarrow> duration \<Rightarrow> nat" where
  "bucket_of [] d = 0"
| "bucket_of (edge # edges) d = (if d < edge * millisecond then 0 else Suc (bucket_of edges d))"

definition RecordOutboundFrameWritten :: "metrics \<Rightarrow> metrics" where
  "RecordOutboundFrameWritten m = m\<lparr>mx_framesWritten := mx_framesWritten m + 1\<rparr>"

definition RecordOutboundPumpExit :: "string \<Rightarrow> metrics \<Rightarrow> metrics" where
  "RecordOutboundPumpExit reason m =
     (if reason = ''write_sample'' then m\<lparr>mx_exitWriteSample := mx_exitWriteSample m + 1\<rparr>
      else if reason = ''recv'' then m\<lparr>mx_exitRecv := mx_exitRecv m + 1\<rparr>
      else if reason = ''ctx'' then m\<lparr>mx_exitCtx := mx_exitCtx m + 1\<rparr>
      else m)"

definition OutboundMediaStats :: "metrics \<Rightarrow> (string \<times> u64) list" where
  "OutboundMediaStats m =
     [(''frames_written'', mx_framesWritten m), (''pump_exit_write_sample'', mx_exitWriteSample m),
      (''pump_exit_recv'', mx_exitRecv m), (''pump_exit_ctx'', mx_exitCtx m)]"

definition ObserveFrameInterval :: "duration \<Rightarrow> metrics \<Rightarrow> metrics" where
  "ObserveFrameInterval d m =
     m\<lparr>mx_frameBuckets := add1 (bucket_of frameEdgesMs d) (mx_frameBuckets m)\<rparr>"

definition FrameIntervalBuckets :: "metrics \<Rightarrow> (string \<times> u64) list" where
  "FrameIntervalBuckets m = zip frameLabels (mx_frameBuckets m)"

fun source_index :: "string list \<Rightarrow> string \<Rightarrow> nat option" where
  "source_index [] source = None"
| "source_index (s # ss) source =
     (if s = source then Some 0 else map_option Suc (source_index ss source))"

definition replaySourceIndex :: "string \<Rightarrow> nat option" where
  "replaySourceIndex source = source_index replaySources source"

definition ObserveReplayAttempt :: "string \<Rightarrow> metrics \<Rightarrow> metrics" where
  "ObserveReplayAttempt source m =
     (case replaySourceIndex source of None \<Rightarrow> m
      | Some i \<Rightarrow> m\<lparr>mx_replayAttempts := add1 i (mx_replayAttempts m)\<rparr>)"

definition observeReplayLatency :: "nat \<Rightarrow> duration \<Rightarrow> metrics \<Rightarrow> metrics" where
  "observeReplayLatency i d m =
     m\<lparr>mx_replayLatency := (mx_replayLatency m)
         [i := add1 (bucket_of replayLatencyEdgesMs d) (mx_replayLatency m ! i)]\<rparr>"

definition ObserveReplayHit :: "string \<Rightarrow> duration \<Rightarrow> metrics \<Rightarrow> metrics" where
  "ObserveReplayHit source d m =
     (case replaySourceIndex source of None \<Rightarrow> m
      | Some i \<Rightarrow> observeReplayLatency i d (m\<lparr>mx_replayHits := add1 i (mx_replayHits m)\<rparr>))"

definition ObserveReplayTimeout :: "string \<Rightarrow> metrics \<Rightarrow> metrics" where
  "ObserveReplayTimeout source m =
     (case replaySourceIndex source of None \<Rightarrow> m
      | Some i \<Rightarrow> m\<lparr>mx_replayTimeouts := add1 i (mx_replayTimeouts m)\<rparr>)"

definition ObserveReplayError :: "string \<Rightarrow> metrics \<Rightarrow> metrics" where
  "ObserveReplayError source m =
     (case replaySourceIndex source of None \<Rightarrow> m
      | Some i \<Rightarrow> m\<lparr>mx_replayErrors := add1 i (mx_replayErrors m)\<rparr>)"

lemma bucket_of_le: "bucket_of edges d \<le> length edges"
  by (induction edges) auto

lemma sum_add1: "i < length xs \<Longrightarrow> sum_list (add1 i xs) = sum_list xs + 1"
  by (induction xs arbitrary: i) (auto simp: add1_def nth_Cons' split: nat.splits)

lemma length_add1 [simp]: "length (add1 i xs) = length xs"
  by (simp add: add1_def)

text \<open>
  The pacing histogram neither loses nor invents samples: after any sequence of observed frame
  intervals its six buckets add up to the number of intervals (modulo the width of the counters),
  and each interval went to the bucket whose label bounds it.
\<close>

theorem frame_histogram_total:
  "sum_list (mx_frameBuckets (fold ObserveFrameInterval ds metrics_zero)) = word_of_nat (length ds) \<and>
   length (FrameIntervalBuckets (fold ObserveFrameInterval ds metrics_zero)) = 6 \<and>
   (bucket_of frameEdgesMs d < 5 \<longrightarrow> d < frameEdgesMs ! bucket_of frameEdgesMs d * millisecond) \<and>
   (0 < bucket_of frameEdgesMs d \<longrightarrow> frameEdgesMs ! (bucket_of frameEdgesMs d - 1) * millisecond \<le> d)"
proof -
  have len: "length (mx_frameBuckets (fold ObserveFrameInterval xs m)) = length (mx_frameBuckets m)" for xs m
    by (induction xs arbitrary: m) (auto simp: ObserveFrameInterval_def)
  have "sum_list (mx_frameBuckets (fold ObserveFrameInterval ds m)) =
      sum_list (mx_frameBuckets m) + word_of_nat (length ds)"
    if "length (mx_frameBuckets m) = 6" for m
    using that
  proof (induction ds arbitrary: m)
    case (Cons e ds)
    have "bucket_of frameEdgesMs e < 6" using bucket_of_le[of frameEdgesMs e] by (simp add: frameEdgesMs_def)
    with Cons show ?case by (simp add: ObserveFrameInterval_def sum_add1 algebra_simps)
  qed simp
  then have "sum_list (mx_frameBuckets (fold ObserveFrameInterval ds metrics_zero)) = word_of_nat (length ds)"
    by (simp add: metrics_zero_def sum_list_replicate)
  moreover have "length (FrameIntervalBuckets (fold ObserveFrameInterval ds metrics_zero)) = 6"
    by (simp add: FrameIntervalBuckets_def len) (simp add: metrics_zero_def frameLabels_def)
  ultimately show ?thesis by (auto simp: frameEdgesMs_def)
qed

theorem frame_histogram_total_witness:
  "sum_list (mx_frameBuckets (fold ObserveFrameInterval [19999999, 20000000, 40000000] metrics_zero)) = 3
   \<and> bucket_of frameEdgesMs 20000000 = 1 \<and> (20000000::int) < frameEdgesMs ! 1 * millisecond"
proof -
  have b: "bucket_of frameEdgesMs 20000000 = 1" by (simp add: frameEdgesMs_def millisecond_def)
  then have "bucket_of frameEdgesMs 20000000 < 5" by simp
  with frame_histogram_total[of "[19999999, 20000000, 40000000]" 20000000] b show ?thesis by simp
qed


subsection \<open>The replay report\<close>

definition replayLatencyLabels :: "string list" where
  "replayLatencyLabels = [''<20ms'', ''20-50ms'', ''50-100ms'', ''100-200ms'', ''200-300ms'', ''>=300ms'']"

record replay_report =
  rs_attempts :: u64
  rs_hits :: u64
  rs_timeouts :: u64
  rs_errors :: u64
  rs_latency :: "(string \<times> u64) list"

definition ReplayStats :: "metrics \<Rightarrow> (string \<times> replay_report) list" where
  "ReplayStats m =
     map (\<lambda>(i, source). (source,
       \<lparr>rs_attempts = mx_replayAttempts m ! i, rs_hits = mx_replayHits m ! i,
        rs_timeouts = mx_replayTimeouts m ! i, rs_errors = mx_replayErrors m ! i,
        rs_latency = zip replayLatencyLabels (mx_replayLatency m ! i)\<rparr>))
      (zip [0..<length replaySources] replaySources)"

text \<open>The arrays keep their lengths, and every hit has one latency sample.\<close>

definition metrics_ok :: "metrics \<Rightarrow> bool" where
  "metrics_ok m =
     (length (mx_frameBuckets m) = 6 \<and> length (mx_replayAttempts m) = 2 \<and> length (mx_replayHits m) = 2 \<and>
      length (mx_replayTimeouts m) = 2 \<and> length (mx_replayErrors m) = 2 \<and> length (mx_replayLatency m) = 2 \<and>
      (\<forall>i < 2. length (mx_replayLatency m ! i) = 6 \<and> sum_list (mx_replayLatency m ! i) = mx_replayHits m ! i))"

lemma metrics_zero_ok: "metrics_ok metrics_zero"
  by (auto simp: metrics_ok_def metrics_zero_def less_2_cases_iff sum_list_replicate)

lemma replaySourceIndex_less: "replaySourceIndex source = Some i \<Longrightarrow> i < 2"
  by (auto simp: replaySourceIndex_def replaySources_def split: if_splits)

lemma nth_add1: "i < length xs \<Longrightarrow> add1 i xs ! j = (if j = i then xs ! i + 1 else xs ! j)"
  by (auto simp: add1_def nth_list_update)

lemma observe_hit_ok:
  assumes "metrics_ok m"
  shows "metrics_ok (ObserveReplayHit source d m)"
proof (cases "replaySourceIndex source")
  case (Some i)
  then have i: "i < 2" by (rule replaySourceIndex_less)
  have "bucket_of replayLatencyEdgesMs d < 6"
    using bucket_of_le[of replayLatencyEdgesMs d] by (simp add: replayLatencyEdgesMs_def)
  then show ?thesis
    using assms i Some
    by (auto simp: metrics_ok_def ObserveReplayHit_def observeReplayLatency_def nth_list_update nth_add1 sum_add1)
qed (use assms in \<open>simp add: ObserveReplayHit_def\<close>)

lemma observe_counter_ok:
  assumes "metrics_ok m"
  shows "metrics_ok (ObserveReplayAttempt source m)" "metrics_ok (ObserveReplayTimeout source m)"
    "metrics_ok (ObserveReplayError source m)" "metrics_ok (ObserveFrameInterval d m)"
    "metrics_ok (RecordOutboundFrameWritten m)" "metrics_ok (RecordOutboundPumpExit reason m)"
  using assms
  by (auto simp: metrics_ok_def ObserveReplayAttempt_def ObserveReplayTimeout_def ObserveReplayError_def
      ObserveFrameInterval_def RecordOutboundFrameWritten_def RecordOutboundPumpExit_def split: option.split)

text \<open>The report has both sources, and its latencies add up to the hits.\<close>

lemma replay_report_consistent:
  assumes "metrics_ok m"
  shows "map fst (ReplayStats m) = replaySources \<and>
    (\<forall>(source, r) \<in> set (ReplayStats m). sum_list (map snd (rs_latency r)) = rs_hits r \<and>
       map fst (rs_latency r) = replayLatencyLabels)"
  using assms
  by (auto simp: ReplayStats_def replaySources_def metrics_ok_def replayLatencyLabels_def map_snd_zip_take
      upt_rec less_2_cases_iff)

end
