(* ===== verification/Replay.thy ===== *)
theory Replay
  imports Hub Sidechannel Metrics
begin

text \<open>
  Reconnect resolution, \<open>internal/offer/replay.go\<close>: the reconnect headers and the decision which
  session id, history and replay a new session gets.  What it needs of the session manager is the
  interface \<open>SessionLookup\<close> of the source, the locale \<open>session_lookup\<close> here, which the hub interprets;
  the replay index service is a parameter.  The hub's lookups of one request are taken at one reading
  of the clock.
\<close>

subsection \<open>Headers\<close>

record replay_headers =
  rh_Requested :: bool
  rh_SessionID :: SessionID
  rh_LastSeq :: u64
  rh_Version :: string
  rh_Incomplete :: bool

definition replayProtocolVersion :: string where
  "replayProtocolVersion = ''1''"

definition no_headers :: replay_headers where
  "no_headers = \<lparr>rh_Requested = False, rh_SessionID = '''', rh_LastSeq = 0, rh_Version = '''',
     rh_Incomplete = False\<rparr>"

text \<open>The error is the message of a \<open>ProtocolInvalidError\<close>.\<close>

definition ParseReplayHeaders :: "string \<Rightarrow> string \<Rightarrow> string \<Rightarrow> go_error + replay_headers" where
  "ParseReplayHeaders sessionID lastSeqStr version =
     (let sessionID = trim_space sessionID;
          lastSeqStr = trim_space lastSeqStr;
          version = trim_space version in
      if \<not> (sessionID \<noteq> '''' \<or> lastSeqStr \<noteq> '''' \<or> version \<noteq> '''') then Inr no_headers
      else if version \<noteq> '''' \<and> version \<noteq> replayProtocolVersion then Inl ''unsupported X-Replay-Version''
      else if sessionID = '''' \<or> lastSeqStr = '''' then
        Inr (no_headers\<lparr>rh_Requested := True, rh_Incomplete := True, rh_Version := version\<rparr>)
      else (case parse_uint64 lastSeqStr of
              None \<Rightarrow> Inl ''invalid X-Last-Seq''
            | Some lastSeq \<Rightarrow>
                Inr \<lparr>rh_Requested = True, rh_SessionID = sessionID, rh_LastSeq = lastSeq,
                     rh_Version = version, rh_Incomplete = False\<rparr>))"

subsection \<open>Resolution\<close>

record replay_config =
  rp_Enabled :: bool
  rp_Timeout :: duration
  rp_Limit :: int

datatype replay_status =
  StatusDisabled | StatusMiss | StatusMemoryHit | StatusIndexTimeout | StatusIndexError
  | StatusIndexHit | StatusProtocolInvalid

definition status_text :: "replay_status \<Rightarrow> string" where
  "status_text s =
     (case s of
        StatusDisabled \<Rightarrow> ''disabled'' | StatusMiss \<Rightarrow> ''miss'' | StatusMemoryHit \<Rightarrow> ''memory_hit''
      | StatusIndexTimeout \<Rightarrow> ''index_timeout'' | StatusIndexError \<Rightarrow> ''index_error''
      | StatusIndexHit \<Rightarrow> ''index_hit'' | StatusProtocolInvalid \<Rightarrow> ''protocol_invalid'')"

record replay_outcome =
  ro_SessionID :: SessionID
  ro_StartSeq :: u64
  ro_InitialHistory :: "line list"
  ro_ReplayLines :: "line list"
  ro_Status :: replay_status

text \<open>
  A lookup in the index service ends with events, by running into the deadline (the error is a
  deadline error, or the context had expired), or with another error.
\<close>

datatype index_answer = IndexEvents "transcript_event list" | IndexDeadline | IndexFailure go_error

type_synonym replayer = "SessionID \<Rightarrow> UserID \<Rightarrow> string \<Rightarrow> u64 \<Rightarrow> int \<Rightarrow> index_answer"

text \<open>The calls of the observer; a hit carries the time the lookup took.\<close>

datatype replay_obs =
  ObsAttempt string | ObsHit string duration | ObsTimeout string | ObsError string

fun observe :: "replay_obs \<Rightarrow> metrics \<Rightarrow> metrics" where
  "observe (ObsAttempt src) = ObserveReplayAttempt src"
| "observe (ObsHit src d) = ObserveReplayHit src d"
| "observe (ObsTimeout src) = ObserveReplayTimeout src"
| "observe (ObsError src) = ObserveReplayError src"

text \<open>The loop over the events of an index hit: the lines, and the highest sequence number.\<close>

definition index_lines :: "transcript_event list \<Rightarrow> line list" where
  "index_lines evs = map LineFromEvent evs"

definition max_seq :: "u64 \<Rightarrow> transcript_event list \<Rightarrow> u64" where
  "max_seq start evs = fold (\<lambda>ev m. if m < ev_Seq ev then ev_Seq ev else m) evs start"

definition ResolveReplay ::
  "('h \<Rightarrow> SessionID \<Rightarrow> UserID \<Rightarrow> (string \<times> u64) option)
    \<Rightarrow> ('h \<Rightarrow> SessionID \<Rightarrow> UserID \<Rightarrow> string \<Rightarrow> u64 \<Rightarrow> resumed option \<times> 'h)
    \<Rightarrow> replayer option \<Rightarrow> duration \<times> duration \<Rightarrow> replay_config \<Rightarrow> SessionID
    \<Rightarrow> string \<Rightarrow> UserID \<Rightarrow> replay_headers \<Rightarrow> 'h
    \<Rightarrow> (go_error + replay_outcome) \<times> replay_obs list \<times> 'h" where
  "ResolveReplay sessionState resume index took cfg newSessionID provider userID headers h =
     (let out = \<lparr>ro_SessionID = newSessionID, ro_StartSeq = 0, ro_InitialHistory = [],
                 ro_ReplayLines = [],
                 ro_Status = (if rp_Enabled cfg then StatusMiss else StatusDisabled)\<rparr>;
          sid = rh_SessionID headers;
          lastSeq = rh_LastSeq headers in
      if \<not> rh_Requested headers \<or> rh_Incomplete headers then (Inr out, [], h)
      else if Anonymous userID then (Inr out, [], h)
      else if (case sessionState h sid userID of Some (_, maxSeq) \<Rightarrow> maxSeq < lastSeq | None \<Rightarrow> False)
      then (Inl ''X-Last-Seq exceeds known max seq'', [], h)
      else if (case sessionState h sid userID of Some (known, _) \<Rightarrow> known \<noteq> provider | None \<Rightarrow> False)
      then (Inr out, [], h)
      else
        (case resume h sid userID provider lastSeq of
           (Some (full, missing, baseSeq), h1) \<Rightarrow>
             (Inr (out\<lparr>ro_SessionID := sid, ro_StartSeq := baseSeq, ro_InitialHistory := full,
                       ro_ReplayLines := missing, ro_Status := StatusMemoryHit\<rparr>),
              [ObsAttempt ''memory'', ObsHit ''memory'' (fst took)], h1)
         | (None, h1) \<Rightarrow>
             (if \<not> rp_Enabled cfg
              then (Inr (out\<lparr>ro_Status := StatusDisabled\<rparr>), [ObsAttempt ''memory''], h1)
              else (case index of
                 None \<Rightarrow> (Inr out, [ObsAttempt ''memory''], h1)
               | Some replay \<Rightarrow>
                   (case replay sid userID provider lastSeq (rp_Limit cfg) of
                      IndexDeadline \<Rightarrow>
                        (Inr (out\<lparr>ro_Status := StatusIndexTimeout\<rparr>),
                         [ObsAttempt ''memory'', ObsAttempt ''index'', ObsTimeout ''index''], h1)
                    | IndexFailure err \<Rightarrow>
                        (Inr (out\<lparr>ro_Status := StatusIndexError\<rparr>),
                         [ObsAttempt ''memory'', ObsAttempt ''index'', ObsError ''index''], h1)
                    | IndexEvents evs \<Rightarrow>
                        (if evs = [] then (Inr out, [ObsAttempt ''memory'', ObsAttempt ''index''], h1)
                         else
                           (Inr (out\<lparr>ro_SessionID := sid, ro_StartSeq := max_seq lastSeq evs,
                                     ro_InitialHistory := index_lines evs,
                                     ro_ReplayLines := index_lines evs,
                                     ro_Status := StatusIndexHit\<rparr>),
                            [ObsAttempt ''memory'', ObsAttempt ''index'', ObsHit ''index'' (snd took)],
                            h1)))))))"

lemma max_seq_ge: "start \<le> max_seq start evs"
proof (induction evs arbitrary: start)
  case (Cons e evs)
  have "start \<le> (if start < ev_Seq e then ev_Seq e else start)"
    by (cases "start < ev_Seq e") (simp_all add: order.strict_implies_order)
  also have "\<dots> \<le> max_seq (if start < ev_Seq e then ev_Seq e else start) evs" by (rule Cons.IH)
  finally show ?case by (simp add: max_seq_def)
qed (simp add: max_seq_def)

lemma max_seq_all: "ev \<in> set evs \<Longrightarrow> ev_Seq ev \<le> max_seq start evs"
proof (induction evs arbitrary: start)
  case (Cons e evs)
  have "max_seq start (e # evs) = max_seq (if start < ev_Seq e then ev_Seq e else start) evs"
    by (simp add: max_seq_def)
  moreover have "ev_Seq e \<le> (if start < ev_Seq e then ev_Seq e else start)" by (simp add: not_less)
  ultimately show ?case using Cons max_seq_ge by (metis order_trans set_ConsD)
qed simp

subsection \<open>What resolution asks of the session manager\<close>

text \<open>
  The contract of \<open>SessionLookup\<close>: an anonymous caller finds nothing; a session that can be resumed is
  one whose state the same caller can see, with the sequence base the state shows; and the replay is
  the part of the history above the caller's last sequence number.
\<close>

locale session_lookup =
  fixes state :: "'h \<Rightarrow> SessionID \<Rightarrow> UserID \<Rightarrow> (string \<times> u64) option"
    and resume :: "'h \<Rightarrow> SessionID \<Rightarrow> UserID \<Rightarrow> string \<Rightarrow> u64 \<Rightarrow> resumed option \<times> 'h"
  assumes resume_state:
    "fst (resume h sid uid provider afterSeq) = Some (full, replay, base) \<Longrightarrow>
       state h sid uid = Some (provider, base)"
    and resume_replay:
    "fst (resume h sid uid provider afterSeq) = Some (full, replay, base) \<Longrightarrow>
       replay = filter (\<lambda>ln. afterSeq < ln_Seq ln) full"
    and resume_complete:
    "state h sid uid = Some (provider, base) \<Longrightarrow>
       fst (resume h sid uid provider afterSeq) \<noteq> None"
    and resume_missed: "fst (resume h sid uid provider afterSeq) = None \<Longrightarrow>
       snd (resume h sid uid provider afterSeq) = h"
begin

text \<open>A memory hit is consistent with what the client has seen, and replays what it has missed.\<close>

lemma memory_hit:
  assumes "ResolveReplay state resume index took cfg fresh provider uid headers h = (Inr out, obs, h')"
    and "ro_Status out = StatusMemoryHit"
  shows "\<not> Anonymous uid \<and> ro_SessionID out = rh_SessionID headers \<and>
    state h (rh_SessionID headers) uid = Some (provider, ro_StartSeq out) \<and>
    rh_LastSeq headers \<le> ro_StartSeq out \<and>
    ro_ReplayLines out = filter (\<lambda>ln. rh_LastSeq headers < ln_Seq ln) (ro_InitialHistory out) \<and>
    fst (resume h (rh_SessionID headers) uid provider (rh_LastSeq headers)) =
      Some (ro_InitialHistory out, ro_ReplayLines out, ro_StartSeq out)"
proof -
  let ?r = "resume h (rh_SessionID headers) uid provider (rh_LastSeq headers)"
  have r: "fst ?r = Some (ro_InitialHistory out, ro_ReplayLines out, ro_StartSeq out)"
    "ro_SessionID out = rh_SessionID headers" "\<not> Anonymous uid"
    "\<not> (case state h (rh_SessionID headers) uid of Some (_, maxSeq) \<Rightarrow> maxSeq < rh_LastSeq headers | None \<Rightarrow> False)"
    using assms
    by (auto simp: ResolveReplay_def Let_def split: if_splits option.splits prod.splits index_answer.splits)
  with resume_state[OF r(1)] resume_replay[OF r(1)] show ?thesis by auto
qed

text \<open>A session the caller can see is never answered from the index.\<close>

lemma known_not_index:
  assumes "ResolveReplay state resume index took cfg fresh provider uid headers h = (Inr out, obs, h')"
    and "state h (rh_SessionID headers) uid = Some (known, base)"
  shows "ro_Status out \<notin> {StatusIndexHit, StatusIndexTimeout, StatusIndexError}"
proof (cases "known = provider")
  case True
  then obtain x where "fst (resume h (rh_SessionID headers) uid provider (rh_LastSeq headers)) = Some x"
    using resume_complete assms(2) by fastforce
  with assms show ?thesis
    by (auto simp: ResolveReplay_def Let_def split: if_splits option.splits prod.splits index_answer.splits)
next
  case False
  with assms show ?thesis
    by (auto simp: ResolveReplay_def Let_def split: if_splits)
qed

text \<open>Whatever is not a memory hit leaves the session manager alone.\<close>

lemma only_hit_takes_over:
  assumes "ResolveReplay state resume index took cfg fresh provider uid headers h = (res, obs, h')"
    and "h' \<noteq> h"
  shows "\<exists>out. res = Inr out \<and> ro_Status out = StatusMemoryHit"
  using assms resume_missed[of h "rh_SessionID headers" uid provider "rh_LastSeq headers"]
  by (auto simp: ResolveReplay_def Let_def split: if_splits option.splits prod.splits index_answer.splits)

end

subsection \<open>The hub provides it\<close>

interpretation hub_lookup: session_lookup
  "\<lambda>h sid uid. SessionState now sid uid h"
  "\<lambda>h sid uid provider afterSeq. Resume now sid uid provider afterSeq h"
  by unfold_locales
    (auto simp: Resume_def SessionState_def archive_resume_def archive_state_def Let_def
       split: option.splits if_splits)

definition Hub_ResolveReplay ::
  "time \<Rightarrow> replayer option \<Rightarrow> duration \<times> duration \<Rightarrow> replay_config \<Rightarrow> SessionID
    \<Rightarrow> string \<Rightarrow> UserID \<Rightarrow> replay_headers \<Rightarrow> 'l hub
    \<Rightarrow> (go_error + replay_outcome) \<times> replay_obs list \<times> 'l hub" where
  "Hub_ResolveReplay now =
     ResolveReplay (\<lambda>h sid uid. SessionState now sid uid h)
       (\<lambda>h sid uid provider afterSeq. Resume now sid uid provider afterSeq h)"

text \<open>
  C22: Every reconnect resolves in one of three ways.  A memory hit keeps the requested session id for
  an authenticated owner, takes over the hub's session, and hands out its history, its sequence base
  and exactly the lines the client has not seen, the client being not ahead of the session.  An index
  hit keeps the id of a session this node does not know, with the events the index returned and a
  sequence base not below any of them nor below what the client has seen.  In every other case the
  session is a fresh one: the new id, no history, no replay, numbering from zero, and the hub is left
  as it was.
\<close>

theorem reconnect_resolution:
  assumes "Hub_ResolveReplay now index took cfg fresh provider uid headers h = (Inr out, obs, h')"
  shows "(ro_Status out = StatusMemoryHit \<and> \<not> Anonymous uid \<and> ro_SessionID out = rh_SessionID headers \<and>
      SessionState now (rh_SessionID headers) uid h = Some (provider, ro_StartSeq out) \<and>
      rh_LastSeq headers \<le> ro_StartSeq out \<and>
      ro_ReplayLines out = filter (\<lambda>ln. rh_LastSeq headers < ln_Seq ln) (ro_InitialHistory out) \<and>
      Resume now (rh_SessionID headers) uid provider (rh_LastSeq headers) h =
        (Some (ro_InitialHistory out, ro_ReplayLines out, ro_StartSeq out), h'))
    \<or> (ro_Status out = StatusIndexHit \<and> \<not> Anonymous uid \<and> ro_SessionID out = rh_SessionID headers \<and>
      SessionState now (rh_SessionID headers) uid h = None \<and> h' = h \<and>
      (\<exists>replay evs. index = Some replay \<and> evs \<noteq> [] \<and>
         replay (rh_SessionID headers) uid provider (rh_LastSeq headers) (rp_Limit cfg) = IndexEvents evs \<and>
         ro_InitialHistory out = map LineFromEvent evs \<and> ro_ReplayLines out = map LineFromEvent evs \<and>
         rh_LastSeq headers \<le> ro_StartSeq out \<and> (\<forall>ev \<in> set evs. ev_Seq ev \<le> ro_StartSeq out)))
    \<or> (ro_Status out \<in> {StatusDisabled, StatusMiss, StatusIndexTimeout, StatusIndexError} \<and>
      ro_SessionID out = fresh \<and> ro_StartSeq out = 0 \<and> ro_InitialHistory out = [] \<and>
      ro_ReplayLines out = [] \<and> h' = h)"
proof -
  note R = assms[unfolded Hub_ResolveReplay_def]
  let ?sid = "rh_SessionID headers"
  let ?r = "Resume now ?sid uid provider (rh_LastSeq headers) h"
  consider (mem) "ro_Status out = StatusMemoryHit" | (idx) "ro_Status out = StatusIndexHit"
    | (other) "ro_Status out \<notin> {StatusMemoryHit, StatusIndexHit}" by blast
  then show ?thesis
  proof cases
    case mem
    have "snd ?r = h'"
      using R mem by (auto simp: ResolveReplay_def Let_def
          split: if_splits option.splits prod.splits index_answer.splits)
    with hub_lookup.memory_hit[OF R mem] mem show ?thesis by (metis prod.collapse)
  next
    case idx
    have unknown: "SessionState now ?sid uid h = None"
      using hub_lookup.known_not_index[OF R] idx by (cases "SessionState now ?sid uid h") auto
    moreover have "h' = h" using hub_lookup.only_hit_takes_over[OF R] idx by auto
    moreover have "\<not> Anonymous uid \<and> ro_SessionID out = ?sid \<and> (\<exists>replay evs. index = Some replay \<and>
        evs \<noteq> [] \<and> replay ?sid uid provider (rh_LastSeq headers) (rp_Limit cfg) = IndexEvents evs \<and>
        ro_InitialHistory out = map LineFromEvent evs \<and> ro_ReplayLines out = map LineFromEvent evs \<and>
        ro_StartSeq out = max_seq (rh_LastSeq headers) evs)"
      using R idx unknown by (auto simp: ResolveReplay_def Let_def index_lines_def
          split: if_splits option.splits prod.splits index_answer.splits)
    ultimately show ?thesis using idx max_seq_ge max_seq_all by metis
  next
    case other
    then have "h' = h" using hub_lookup.only_hit_takes_over[OF R] by auto
    moreover have "ro_Status out \<in> {StatusDisabled, StatusMiss, StatusIndexTimeout, StatusIndexError} \<and>
      ro_SessionID out = fresh \<and> ro_StartSeq out = 0 \<and> ro_InitialHistory out = [] \<and> ro_ReplayLines out = []"
      using R other by (auto simp: ResolveReplay_def Let_def
          split: if_splits option.splits prod.splits index_answer.splits)
    ultimately show ?thesis by blast
  qed
qed

theorem reconnect_resolution_witness:
  "\<exists>out obs h'. Hub_ResolveReplay 9 None (0, 0) \<lparr>rp_Enabled = False, rp_Timeout = 0, rp_Limit = 0\<rparr> ''new''
      ''gemini'' ''u'' \<lparr>rh_Requested = True, rh_SessionID = ''s'', rh_LastSeq = 0, rh_Version = ''1'',
        rh_Incomplete = False\<rparr> live_hub = (Inr out, obs, h') \<and>
     ro_Status out = StatusMemoryHit \<and> ro_SessionID out = ''s'' \<and> 0 \<le> ro_StartSeq out"
proof -
  let ?c = "\<lparr>rp_Enabled = False, rp_Timeout = 0, rp_Limit = 0\<rparr>"
  let ?h = "\<lparr>rh_Requested = True, rh_SessionID = ''s'', rh_LastSeq = 0, rh_Version = ''1'',
        rh_Incomplete = False\<rparr>"
  obtain out obs h' where R: "Hub_ResolveReplay 9 None (0, 0) ?c ''new'' ''gemini'' ''u'' ?h live_hub = (Inr out, obs, h')"
    and m: "ro_Status out = StatusMemoryHit"
    by (simp add: Hub_ResolveReplay_def ResolveReplay_def Anonymous_def SessionState_def Resume_def
        live_hub_eval Recorder_MaxSeq_def Recorder_FullHistory_def Let_def)
  from reconnect_resolution[OF R] m have "ro_SessionID out = ''s''" "0 \<le> ro_StartSeq out" by auto
  with R m show ?thesis by blast
qed

subsection \<open>The headers a client sends\<close>

text \<open>
  A well-formed reconnect request is read back exactly: the decimal sequence number a client
  writes, of any size up to 64 bits, its session id and the supported version (or none) give a
  complete request; any other version is rejected.
\<close>

theorem headers_roundtrip:
  assumes "trim_space sid = sid" and "sid \<noteq> ''''" and "trim_space v = v"
  shows "ParseReplayHeaders sid (format_nat (unat n)) v =
    (if v = '''' \<or> v = ''1''
     then Inr \<lparr>rh_Requested = True, rh_SessionID = sid, rh_LastSeq = n, rh_Version = v, rh_Incomplete = False\<rparr>
     else Inl ''unsupported X-Replay-Version'')"
  using assms
  by (simp add: ParseReplayHeaders_def Let_def trim_space_digits[OF format_nat_digits] parse_format_uint
      replayProtocolVersion_def)

theorem headers_roundtrip_witness:
  "ParseReplayHeaders ''s'' (format_nat (unat (42::u64))) ''1'' =
     Inr \<lparr>rh_Requested = True, rh_SessionID = ''s'', rh_LastSeq = 42, rh_Version = ''1'', rh_Incomplete = False\<rparr>"
proof -
  have "trim_space ''s'' = ''s''" "trim_space ''1'' = ''1''" by (simp_all add: trim_space_def white_space_def)
  then show ?thesis using headers_roundtrip[of "''s''" "''1''" 42] by simp
qed

end
