(* ===== verification/Recovery.thy ===== *)
theory Recovery
  imports Replayserver Replay
begin

text \<open>
  The path of a transcript line through the whole system: \<open>Record\<close> calls the tap, the tap publishes to
  Kafka, the drain goroutine produces, the index process consumes, its endpoint answers the client of
  another node, and that node's \<open>ResolveReplay\<close> makes history and replay of the answer.  Each stretch
  is modelled in the theory of its component; this theory joins them.
\<close>

subsection \<open>From the recorder to the topic\<close>

text \<open>The listener calls of a run of \<open>Record\<close>, and the event that \<open>OnLine\<close> publishes for a call.\<close>

fun record_calls :: "'l recorder \<Rightarrow> (string \<times> string) list \<Rightarrow> 'l line_call list" where
  "record_calls r [] = []"
| "record_calls r (w # ws) =
     (let (ln, call, r') = Recorder_Record r (fst w) (snd w) in call # record_calls r' ws)"

definition OnLine :: "tap line_call \<Rightarrow> string \<times> int \<Rightarrow> transcript_event option" where
  "OnLine call stamp =
     (case call of (listener, meta, ln) \<Rightarrow>
        (case listener of
           NopListener \<Rightarrow> None
         | Listener t \<Rightarrow> Some (snd (tap_OnLine t (fst stamp) (snd stamp) meta ln))))"

definition session_events ::
  "tap recorder \<Rightarrow> (string \<times> string) list \<Rightarrow> (string \<times> int) list \<Rightarrow> transcript_event list" where
  "session_events r ws stamps =
     List.map_filter (\<lambda>(call, stamp). OnLine call stamp) (zip (record_calls r ws) stamps)"

lemma record_calls_eq:
  "record_calls r ws =
     map (\<lambda>ln. (rc_listener r, rc_meta r, ln)) (fst (collect record_line r ws))"
proof (induction ws arbitrary: r)
  case (Cons w ws)
  obtain ln call r' where rec: "Recorder_Record r (fst w) (snd w) = (ln, call, r')"
    by (metis prod_cases3)
  then have "call = (rc_listener r, rc_meta r, ln)" "rc_listener r' = rc_listener r" "rc_meta r' = rc_meta r"
    by (auto simp: Recorder_Record_def Let_def)
  moreover have "record_line r w = (ln, r')" using rec by (simp add: record_line_def)
  ultimately show ?case using Cons.IH[of r'] rec by (simp add: split_beta)
qed simp

lemma map_filter_total: "(\<And>x. x \<in> set xs \<Longrightarrow> f x = Some (g x)) \<Longrightarrow> List.map_filter f xs = map g xs"
  by (induction xs) (simp_all add: List.map_filter_simps)

lemma session_events_eq:
  assumes "rc_listener r = Listener t"
  shows "session_events r ws stamps =
    map (\<lambda>(ln, stamp). snd (tap_OnLine t (fst stamp) (snd stamp) (rc_meta r) ln))
      (zip (fst (collect record_line r ws)) stamps)"
proof -
  let ?ls = "fst (collect record_line r ws)"
  have "session_events r ws stamps =
      List.map_filter (\<lambda>(ln, stamp). OnLine (rc_listener r, rc_meta r, ln) stamp) (zip ?ls stamps)"
    by (simp add: session_events_def record_calls_eq zip_map1 map_filter_def comp_def filter_map split_def)
  also have "\<dots> = map (\<lambda>(ln, stamp). snd (tap_OnLine t (fst stamp) (snd stamp) (rc_meta r) ln)) (zip ?ls stamps)"
    by (rule map_filter_total) (auto simp: OnLine_def assms)
  finally show ?thesis .
qed

text \<open>What the events of a recorded session carry.\<close>

lemma session_events_facts:
  assumes "rc_listener r = Listener t" and "length stamps = length ws"
  defines "evs \<equiv> session_events r ws stamps" and "lines \<equiv> fst (collect record_line r ws)"
  shows "map ev_Seq evs = map ln_Seq lines"
    and "\<forall>w \<in> set ws. fst w \<in> {''user'', ''model''} \<Longrightarrow> map LineFromEvent evs = lines"
    and "\<forall>ev \<in> set evs. ev_SessionId ev = sm_SessionID (rc_meta r) \<and>
      ev_UserId ev = sm_UserID (rc_meta r) \<and> ev_Provider ev = sm_Provider (rc_meta r)"
proof -
  have len: "length lines = length stamps" using assms(2) by (simp add: lines_def)
  have evs: "evs = map (\<lambda>(ln, stamp). snd (tap_OnLine t (fst stamp) (snd stamp) (rc_meta r) ln)) (zip lines stamps)"
    unfolding evs_def lines_def by (rule session_events_eq[OF assms(1)])
  have "map ev_Seq evs = map ln_Seq (map fst (zip lines stamps))"
    unfolding evs map_map by (rule map_cong) (auto simp: tap_OnLine_def)
  then show "map ev_Seq evs = map ln_Seq lines" using len by simp
  show "\<forall>ev \<in> set evs. ev_SessionId ev = sm_SessionID (rc_meta r) \<and>
      ev_UserId ev = sm_UserID (rc_meta r) \<and> ev_Provider ev = sm_Provider (rc_meta r)"
    by (auto simp: evs tap_OnLine_def)
  assume roles: "\<forall>w \<in> set ws. fst w \<in> {''user'', ''model''}"
  have role: "ln_Role ln \<in> {''user'', ''model''}" if "ln \<in> set lines" for ln
    using that roles unfolding lines_def
    by (induction ws arbitrary: r) (auto simp: Let_def split_beta record_line_eq)
  have "map LineFromEvent evs = map fst (zip lines stamps)"
    unfolding evs map_map
  proof (rule map_cong[OF refl])
    fix x assume "x \<in> set (zip lines stamps)"
    then have "fst x \<in> set lines" by (metis in_set_zipE prod.collapse)
    then show "(LineFromEvent \<circ> (\<lambda>(ln, stamp). snd (tap_OnLine t (fst stamp) (snd stamp) (rc_meta r) ln))) x = fst x"
      using tap_line_roundtrip[OF role] by (simp add: split_def)
  qed
  then show "map LineFromEvent evs = lines" using len by simp
qed

lemma session_events_sorted:
  assumes "rc_listener r = Listener t" and "length stamps = length ws"
    and "unat (rc_seq r) + length ws < 2 ^ 64"
  shows "seq_sorted (session_events r ws stamps)"
proof -
  let ?lines = "fst (collect record_line r ws)"
  have "sorted_wrt (<) (map (unat \<circ> ln_Seq) ?lines)"
    unfolding recorder.collect_unat_seqs[OF assms(3)] by (simp add: sorted_wrt_map)
  then have "sorted_wrt (<) (map ln_Seq ?lines)" by (simp add: sorted_wrt_map word_less_nat_alt)
  then show ?thesis
    by (simp add: seq_sorted_def session_events_facts(1)[OF assms(1,2), symmetric] sorted_wrt_map)
qed

subsection \<open>From the topic to the index\<close>

text \<open>
  The topic loses nothing: the publisher has dropped nothing and drained its queue, the library's
  decoding inverts its encoding, and the polls of the index process deliver every record at least once,
  in any order and in any grouping.
\<close>

definition topic_delivers ::
  "(transcript_event \<Rightarrow> bytes option) \<Rightarrow> (bytes \<Rightarrow> transcript_event option)
    \<Rightarrow> kafka_event list \<Rightarrow> poll list \<Rightarrow> bool" where
  "topic_delivers marshal unmarshal es ps =
     (\<exists>k. run (kafka_step marshal) (Some NewKafka) es = Some k \<and> kf_dropped k = 0 \<and> kf_ch k = [] \<and>
        length (published es) < 2 ^ 64 \<and>
        (\<forall>ev \<in> set (published es). \<exists>b. marshal ev = Some b \<and> unmarshal b = Some ev) \<and>
        (snd \<circ> snd) ` set (delivered ps) = snd ` set (kf_produced k))"

lemma set_map_filter: "set (List.map_filter f xs) = {y. \<exists>x \<in> set xs. f x = Some y}"
  by (induction xs) (auto simp: List.map_filter_simps split: option.splits)

lemma set_accepted_ingests:
  "set (accepted (map (ingest_of unmarshal) ds)) =
     {ev. ev_SessionId ev \<noteq> '''' \<and> ev_UserId ev \<noteq> '''' \<and> (\<exists>b \<in> (snd \<circ> snd) ` set ds. unmarshal b = Some ev)}"
  unfolding accepted_def set_filter set_map_filter by (force simp: ingest_of_def)

lemma topic_events:
  assumes "topic_delivers marshal unmarshal es ps" and "sid \<noteq> ''''"
    and "\<forall>ev \<in> set (published es). ev_SessionId ev = sid \<longrightarrow> ev_UserId ev \<noteq> ''''"
  shows "set (events_of sid (map (ingest_of unmarshal) (delivered ps))) =
    set (filter (\<lambda>ev. ev_SessionId ev = sid) (published es))"
proof -
  from assms(1) obtain k where k: "run (kafka_step marshal) (Some NewKafka) es = Some k"
    "kf_dropped k = 0" "kf_ch k = []" "length (published es) < 2 ^ 64"
    "\<forall>ev \<in> set (published es). \<exists>b. marshal ev = Some b \<and> unmarshal b = Some ev"
    "(snd \<circ> snd) ` set (delivered ps) = snd ` set (kf_produced k)"
    by (auto simp: topic_delivers_def)
  have "accounts marshal k (published es)" using kafka_run_accounts[of marshal es] k(1) by auto
  then have "kf_produced k = List.map_filter (producible marshal) (published es)"
    by (rule accounts_complete[OF _ k(2-4)])
  then have vals: "snd ` set (kf_produced k) = {b. \<exists>ev \<in> set (published es). marshal ev = Some b}"
    by (auto simp: set_map_filter producible_def image_iff) metis
  have b: "(\<exists>b \<in> (snd \<circ> snd) ` set (delivered ps). unmarshal b = Some ev) \<longleftrightarrow> ev \<in> set (published es)" for ev
  proof
    assume "\<exists>b \<in> (snd \<circ> snd) ` set (delivered ps). unmarshal b = Some ev"
    then obtain b ev' where "unmarshal b = Some ev" "ev' \<in> set (published es)" "marshal ev' = Some b"
      unfolding k(6) vals by blast
    with k(5) show "ev \<in> set (published es)" by fastforce
  next
    assume "ev \<in> set (published es)"
    with k(5) show "\<exists>b \<in> (snd \<circ> snd) ` set (delivered ps). unmarshal b = Some ev"
      unfolding k(6) vals by blast
  qed
  show ?thesis
    unfolding events_of_def set_filter set_accepted_ingests b using assms(2,3) by auto
qed


subsection \<open>From the index to the reconnecting node\<close>

text \<open>The replayer of a node: its client, whose error is a deadline error when the budget is used up.\<close>

definition client_replayer ::
  "(string \<Rightarrow> query \<Rightarrow> go_error + http_reply) \<Rightarrow> (go_error \<Rightarrow> bool) \<Rightarrow> string option \<Rightarrow> replayer" where
  "client_replayer http deadline c = (\<lambda>sid uid provider afterSeq limit.
     (case ReplayClient_Replay http c sid uid provider afterSeq limit of
        Inr evs \<Rightarrow> IndexEvents evs
      | Inl err \<Rightarrow> if deadline err then IndexDeadline else IndexFailure err))"

text \<open>A reconnect to a node that does not know the session, answered by the index.\<close>

lemma resolve_from_index:
  assumes "SessionState now (rh_SessionID headers) uid h = None"
    and "rh_Requested headers" and "\<not> rh_Incomplete headers" and "\<not> Anonymous uid" and "rp_Enabled cfg"
    and "replay (rh_SessionID headers) uid provider (rh_LastSeq headers) (rp_Limit cfg) = IndexEvents evs"
  shows "Hub_ResolveReplay now (Some replay) took cfg fresh provider uid headers h =
    (if evs = []
     then (Inr \<lparr>ro_SessionID = fresh, ro_StartSeq = 0, ro_InitialHistory = [], ro_ReplayLines = [],
                ro_Status = StatusMiss\<rparr>, [ObsAttempt ''memory'', ObsAttempt ''index''], h)
     else (Inr \<lparr>ro_SessionID = rh_SessionID headers, ro_StartSeq = max_seq (rh_LastSeq headers) evs,
                ro_InitialHistory = map LineFromEvent evs, ro_ReplayLines = map LineFromEvent evs,
                ro_Status = StatusIndexHit\<rparr>,
           [ObsAttempt ''memory'', ObsAttempt ''index'', ObsHit ''index'' (snd took)], h))"
proof -
  let ?r = "Resume now (rh_SessionID headers) uid provider (rh_LastSeq headers) h"
  have "fst ?r = None"
    using hub_lookup.resume_state[of now "rh_SessionID headers" uid provider "rh_LastSeq headers" h] assms(1)
    by (cases "fst ?r") auto
  moreover from this have "snd ?r = h" by (rule hub_lookup.resume_missed)
  ultimately have "?r = (None, h)" by (simp add: prod_eq_iff)
  then show ?thesis
    using assms by (simp add: Hub_ResolveReplay_def ResolveReplay_def index_lines_def Let_def)
qed

text \<open>The sequence base of sorted events is that of the last one.\<close>

lemma max_seq_sorted:
  "seq_sorted evs \<Longrightarrow> evs \<noteq> [] \<Longrightarrow> \<forall>ev \<in> set evs. start < ev_Seq ev \<Longrightarrow> max_seq start evs = ev_Seq (last evs)"
proof (induction evs arbitrary: start)
  case (Cons e evs)
  have "max_seq start (e # evs) = max_seq (ev_Seq e) evs" using Cons.prems by (simp add: max_seq_def)
  moreover have "max_seq (ev_Seq e) evs = ev_Seq (last evs)" if "evs \<noteq> []"
    using Cons.prems that by (intro Cons.IH) (auto simp: seq_sorted_def)
  ultimately show ?case by (auto simp: max_seq_def)
qed simp


lemma lines_window:
  "map LineFromEvent (take l (filter (\<lambda>ev. afterSeq < ev_Seq ev) (keep_last n evs))) =
   take l (filter (\<lambda>ln. afterSeq < ln_Seq ln) (keep_last n (map LineFromEvent evs)))"
  by (simp add: keep_last_def take_map drop_map filter_map comp_def LineFromEvent_def)

lemma seq_sorted_window: "seq_sorted evs \<Longrightarrow> seq_sorted (take l (filter P (keep_last n evs)))"
  by (simp add: seq_sorted_def sorted_wrt_take sorted_wrt_filter sorted_wrt_keep_last)

lemma set_window: "ev \<in> set (take l (filter P (keep_last n evs))) \<Longrightarrow> ev \<in> set evs \<and> P ev"
  by (auto dest!: in_set_takeD in_keep_lastD)

text \<open>What the index answers for a session all of whose events the topic has delivered.\<close>

lemma query_delivered:
  assumes "topic_delivers marshal unmarshal es ps" and "sid \<noteq> ''''" and "uid \<noteq> ''''"
    and "filter (\<lambda>ev. ev_SessionId ev = sid) (published es) = sent" and "seq_sorted sent"
    and "\<forall>ev \<in> set sent. ev_UserId ev = uid \<and> ev_Provider ev = provider"
    and "s = consume unmarshal ps (NewStore cfg)"
    and "no_eviction (ix_cfg s) t0 (map (ingest_of unmarshal) (delivered ps))"
    and "now \<le> t0 + ic_SessionTTL (ix_cfg s)"
  shows "Query s now sid uid provider afterSeq limit =
    take (if limit \<le> 0 then 256 else nat limit)
      (filter (\<lambda>ev. afterSeq < ev_Seq ev) (keep_last (nat (ic_MaxLinesPerSess (ix_cfg s))) sent))"
proof (rule query_of_log)
  let ?es = "map (ingest_of unmarshal) (delivered ps)"
  have s: "s = run index_step (NewStore cfg) ?es" by (simp add: assms(7) consume_run)
  show "index_of_log s t0 ?es"
    using index_of_log_run assms(8) index_bounded_cfg unfolding s by metis
  have "\<forall>ev \<in> set (published es). ev_SessionId ev = sid \<longrightarrow> ev_UserId ev \<noteq> ''''"
    using assms(3,6) unfolding assms(4)[symmetric] by auto
  then have set: "set (events_of sid ?es) = set sent"
    using topic_events[OF assms(1,2)] assms(4) by simp
  then show "set sent = set (events_of sid ?es)" by simp
  show "\<forall>a \<in> set (events_of sid ?es). \<forall>b \<in> set (events_of sid ?es). ev_Seq a = ev_Seq b \<longrightarrow> a = b"
    using assms(5) unfolding set by (auto simp: seq_sorted_iff distinct_map inj_on_def)
  show "\<forall>ev \<in> set (events_of sid ?es). ev_UserId ev = uid \<and> ev_Provider ev = provider"
    using assms(6) unfolding set .
qed (use assms in simp_all)


subsection \<open>An example\<close>

text \<open>
  Two lines of a dialogue, delivered in the wrong order and one of them twice; the codings tell the two
  events apart by their numbers.
\<close>

definition dialogue_meta :: session_meta where
  "dialogue_meta = \<lparr>sm_SessionID = ''s'', sm_UserID = ''u'', sm_Provider = ''gemini''\<rparr>"

definition dialogue_recorder :: "tap recorder" where
  "dialogue_recorder =
     NewRecorder 0 [] 256 dialogue_meta (Some (Tap (Some KafkaPublisher) dialogue_meta))"

definition dialogue :: "(string \<times> string) list" where
  "dialogue = [(''user'', ''hi''), (''model'', ''hello'')]"

definition dialogue_event :: "u64 \<Rightarrow> Role \<Rightarrow> string \<Rightarrow> transcript_event" where
  "dialogue_event seq role text =
     \<lparr>ev_SchemaVersion = 1, ev_EventId = text, ev_SessionId = ''s'', ev_UserId = ''u'',
      ev_Seq = seq, ev_Role = role, ev_Text = text, ev_Ts = 7, ev_Provider = ''gemini''\<rparr>"

definition event1 :: transcript_event where "event1 = dialogue_event 1 ROLE_USER ''hi''"
definition event2 :: transcript_event where "event2 = dialogue_event 2 ROLE_MODEL ''hello''"

definition dialogue_polls :: "poll list" where
  "dialogue_polls =
     [\<lparr>pl_done = False, pl_err = False, pl_ctxErr = False, pl_records = [(\<lambda>xs. xs, 5, [2])]\<rparr>,
      \<lparr>pl_done = False, pl_err = False, pl_ctxErr = False,
       pl_records = [(\<lambda>xs. xs, 6, [1]), (\<lambda>xs. xs, 8, [2])]\<rparr>]"

definition demo_marshal :: "transcript_event \<Rightarrow> bytes option" where
  "demo_marshal ev = Some [if ev_Seq ev = 1 then 1 else 2]"

definition demo_unmarshal :: "bytes \<Rightarrow> transcript_event option" where
  "demo_unmarshal b = (if b = [1] then Some event1 else if b = [2] then Some event2 else None)"

lemma event_fields [simp]:
  "ev_Seq event1 = 1" "ev_Seq event2 = 2" "ev_SessionId event1 = ''s''" "ev_SessionId event2 = ''s''"
  "ev_UserId event1 = ''u''" "ev_UserId event2 = ''u''" "ev_Provider event1 = ''gemini''"
  "ev_Provider event2 = ''gemini''"
  by (simp_all add: event1_def event2_def dialogue_event_def)

lemma dialogue_lines:
  "fst (collect record_line dialogue_recorder dialogue) =
     [\<lparr>ln_Seq = 1, ln_Role = ''user'', ln_Text = ''hi''\<rparr>, \<lparr>ln_Seq = 2, ln_Role = ''model'', ln_Text = ''hello''\<rparr>]"
  by (simp add: dialogue_def dialogue_recorder_def NewRecorder_def record_line_eq Let_def)

lemma dialogue_events: "session_events dialogue_recorder dialogue [(''hi'', 7), (''hello'', 7)] = [event1, event2]"
proof -
  have l: "rc_listener dialogue_recorder = Listener \<lparr>tp_pub = KafkaPublisher, tp_meta = dialogue_meta\<rparr>"
    and m: "rc_meta dialogue_recorder = dialogue_meta"
    by (simp_all add: dialogue_recorder_def NewRecorder_def Tap_def)
  show ?thesis
    unfolding session_events_eq[OF l] dialogue_lines m
    by (simp add: tap_OnLine_def event1_def event2_def dialogue_event_def dialogue_meta_def)
qed

lemma dialogue_delivered:
  "map (ingest_of demo_unmarshal) (delivered dialogue_polls) =
     [(\<lambda>xs. xs, 5, Some event2), (\<lambda>xs. xs, 6, Some event1), (\<lambda>xs. xs, 8, Some event2)]"
  by (simp add: dialogue_polls_def ingest_of_def demo_unmarshal_def)

lemma dialogue_topic:
  "topic_delivers demo_marshal demo_unmarshal [Publish event1, Publish event2, Drain, Drain] dialogue_polls"
proof -
  have "run (kafka_step demo_marshal) (Some NewKafka) [Publish event1, Publish event2, Drain, Drain] =
      Some (NewKafka\<lparr>kf_produced := [(''u'', [1]), (''u'', [2])]\<rparr>)"
    by (simp add: kafka_defs NewKafka_def kafkaBuffer_def demo_marshal_def partitionKey_def)
  then show ?thesis
    by (auto simp: topic_delivers_def NewKafka_def demo_marshal_def demo_unmarshal_def dialogue_polls_def)
qed

definition dialogue_index :: index_config where
  "dialogue_index = \<lparr>ic_MaxSessions = 10, ic_MaxLinesPerSess = 8, ic_SessionTTL = 100\<rparr>"

lemma dialogue_index_cfg: "ix_cfg (NewStore dialogue_index) = dialogue_index"
  by (simp add: NewStore_def dialogue_index_def)

lemma dialogue_kept:
  "no_eviction dialogue_index 0 (map (ingest_of demo_unmarshal) (delivered dialogue_polls))"
  unfolding dialogue_delivered
  by (simp add: no_eviction_def accepted_def map_filter_def dialogue_index_def)

text \<open>The client has seen the first line.\<close>

definition dialogue_headers :: replay_headers where
  "dialogue_headers = \<lparr>rh_Requested = True, rh_SessionID = ''s'', rh_LastSeq = 1, rh_Version = ''1'',
     rh_Incomplete = False\<rparr>"

lemma dialogue_names: "trim_space ''s'' = ''s''" "trim_space ''u'' = ''u''" "trim_space ''gemini'' = ''gemini''"
  by (simp_all add: trim_space_def white_space_def)

lemma empty_hub_state: "SessionState now sid uid NewHub = None"
  by (simp add: SessionState_def NewHub_def archive_state_def newSessionArchiveStore_def)


subsection \<open>Where recovery goes wrong\<close>

text \<open>
  When more lines were missed than the replay limit admits, the first ones are replayed and the
  numbering goes on behind them, at numbers the index already holds: the new line gets the number of an
  old one and is dropped by \<open>Ingest\<close> as a duplicate.
\<close>

lemma limited_replay_reuses_numbers:
  defines "s \<equiv> (NewStore dialogue_index)\<lparr>ix_sessions := [(''s'', \<lparr>si_userID = ''u'', si_provider = ''gemini'',
      si_events = [event1, event2], si_maxSeq = 2, si_expiry = 50\<rparr>)]\<rparr>"
  defines "out \<equiv> \<lparr>ro_SessionID = ''s'', ro_StartSeq = 1, ro_InitialHistory = [LineFromEvent event1],
      ro_ReplayLines = [LineFromEvent event1], ro_Status = StatusIndexHit\<rparr>"
  defines "new \<equiv> fst (record_line (NewRecorder (ro_StartSeq out) (ro_InitialHistory out) 256 dialogue_meta
      (None :: unit listener option)) (''user'', ''again''))"
  shows "fst (Hub_ResolveReplay 4 (Some (\<lambda>sid uid provider afterSeq limit.
        IndexEvents (Query s 9 sid uid provider afterSeq limit))) took
      \<lparr>rp_Enabled = True, rp_Timeout = 300, rp_Limit = 1\<rparr> ''new'' ''gemini'' ''u''
      (dialogue_headers\<lparr>rh_LastSeq := 0\<rparr>) (NewHub :: unit hub)) = Inr out"
    and "ln_Seq new = 2"
    and "Query (Ingest iter 9 (Some (dialogue_event (ln_Seq new) ROLE_USER ''again'')) s) 9 ''s'' ''u'' ''gemini'' 1 0 =
      [event2]"
proof -
  have q: "Query s 9 ''s'' ''u'' ''gemini'' 0 1 = [event1]" by (simp add: Query_def s_def)
  let ?h = "dialogue_headers\<lparr>rh_LastSeq := 0\<rparr>"
  have "Hub_ResolveReplay 4 (Some (\<lambda>sid uid provider afterSeq limit.
        IndexEvents (Query s 9 sid uid provider afterSeq limit))) took
      \<lparr>rp_Enabled = True, rp_Timeout = 300, rp_Limit = 1\<rparr> ''new'' ''gemini'' ''u'' ?h (NewHub :: unit hub) =
    (Inr out, [ObsAttempt ''memory'', ObsAttempt ''index'', ObsHit ''index'' (snd took)], NewHub)"
    using resolve_from_index[OF empty_hub_state, of ?h "''u''" "\<lparr>rp_Enabled = True, rp_Timeout = 300, rp_Limit = 1\<rparr>"
        "\<lambda>sid uid provider afterSeq limit. IndexEvents (Query s 9 sid uid provider afterSeq limit)" "''gemini''"
        "[event1]" 4 took "''new''"] q
    by (simp add: dialogue_headers_def Anonymous_def out_def max_seq_def)
  then show "fst (Hub_ResolveReplay 4 (Some (\<lambda>sid uid provider afterSeq limit.
        IndexEvents (Query s 9 sid uid provider afterSeq limit))) took
      \<lparr>rp_Enabled = True, rp_Timeout = 300, rp_Limit = 1\<rparr> ''new'' ''gemini'' ''u'' ?h (NewHub :: unit hub)) = Inr out"
    by simp
  show new: "ln_Seq new = 2" by (simp add: new_def out_def NewRecorder_def record_line_eq Let_def)
  show "Query (Ingest iter 9 (Some (dialogue_event (ln_Seq new) ROLE_USER ''again'')) s) 9 ''s'' ''u'' ''gemini'' 1 0 =
      [event2]"
    unfolding new
    by (simp add: Query_def Ingest_def evictExpired_def index_for_def index_write_def index_add_def s_def
        NewStore_def dialogue_index_def dialogue_event_def linorder_not_le)
qed

end
