(* ===== verification/Float64.thy ===== *)
theory Float64
  imports Complex_Main "HOL-Library.Log_Nat"
begin

text \<open>
  Rounding to binary64, the arithmetic of Go's \<open>float64\<close>: a finite double is a rational number, and
  every operation is the exact one followed by rounding to nearest, ties to even.  Overflow and NaN
  do not occur on the values the program computes; where one could enter, the caller says so.

  The locale \<open>float_rounding\<close> is what the proofs about audio code use of a rounding; the rounding
  defined here interprets it.
\<close>

subsection \<open>Rounding to an integer\<close>

definition rne :: "rat \<Rightarrow> int" where
  "rne x =
     (let f = \<lfloor>x\<rfloor>; r = x - of_int f in
      if r < 1 / 2 then f else if 1 / 2 < r then f + 1 else if even f then f else f + 1)"

lemma rne_bounds: "\<lfloor>x\<rfloor> \<le> rne x \<and> rne x \<le> \<lfloor>x\<rfloor> + 1"
  by (simp add: rne_def Let_def)

lemma rne_of_int [simp]: "rne (of_int n) = n"
  by (simp add: rne_def)

lemma rne_mono: "x \<le> y \<Longrightarrow> rne x \<le> rne y"
proof -
  assume le: "x \<le> y"
  show ?thesis
  proof (cases "\<lfloor>x\<rfloor> = \<lfloor>y\<rfloor>")
    case True
    with le show ?thesis by (auto simp: rne_def Let_def)
  next
    case False
    with floor_mono[OF le] have "\<lfloor>x\<rfloor> + 1 \<le> \<lfloor>y\<rfloor>" by linarith
    with rne_bounds[of x] rne_bounds[of y] show ?thesis by linarith
  qed
qed

lemma rne_error: "\<bar>of_int (rne x) - x\<bar> \<le> 1 / 2"
proof -
  have "of_int \<lfloor>x\<rfloor> \<le> x" "x < of_int \<lfloor>x\<rfloor> + 1" by linarith+
  then show ?thesis unfolding rne_def Let_def abs_le_iff by (simp split: if_splits) linarith?
qed

lemma rne_minus: "rne (- x) = - rne x"
proof (cases "x = of_int \<lfloor>x\<rfloor>")
  case True
  then show ?thesis by (metis of_int_minus rne_of_int)
next
  case False
  then have "of_int \<lfloor>x\<rfloor> < x" "x < of_int \<lfloor>x\<rfloor> + 1" by linarith+
  then have f: "\<lfloor>- x\<rfloor> = - \<lfloor>x\<rfloor> - 1" by linarith
  show ?thesis unfolding rne_def f Let_def by (auto simp: field_simps)
qed

subsection \<open>The exponent\<close>

definition flog2 :: "rat \<Rightarrow> int" where
  "flog2 q =
     (let (n, d) = quotient_of q;
          k = int (floorlog 2 (nat n)) - int (floorlog 2 (nat d)) in
      if 2 powi k \<le> q then k else k - 1)"

lemma powi_split: "2 powi (int a - int b) = (2 ^ a / 2 ^ b :: rat)"
proof -
  have "2 powi (int a - int b) = (2 powi int a / 2 powi int b :: rat)" by (rule power_int_diff) simp
  then show ?thesis by simp
qed

lemma floorlog_rat:
  assumes "0 < n"
  shows "(2::rat) ^ (floorlog 2 (nat n) - 1) \<le> of_int n" and "of_int n < (2::rat) ^ floorlog 2 (nat n)"
    and "0 < floorlog 2 (nat n)"
proof -
  obtain N where N: "n = int N" "0 < N" using assms zero_less_imp_eq_int by blast
  have "2 ^ (floorlog 2 N - 1) \<le> N" "N < 2 ^ floorlog 2 N"
    using floorlog_bounds[of N 2] N by auto
  then have "of_nat (2 ^ (floorlog 2 N - 1)) \<le> (of_nat N :: rat)" "(of_nat N :: rat) < of_nat (2 ^ floorlog 2 N)"
    using of_nat_le_iff of_nat_less_iff by blast+
  then show "(2::rat) ^ (floorlog 2 (nat n) - 1) \<le> of_int n" "of_int n < (2::rat) ^ floorlog 2 (nat n)"
    by (simp_all add: N)
  show "0 < floorlog 2 (nat n)" using N floorlog_bounds[of N 2] by (cases "floorlog 2 N") auto
qed

lemma flog2_bounds:
  assumes "0 < q"
  shows "2 powi flog2 q \<le> q" and "q < 2 powi (flog2 q + 1)"
proof -
  obtain n d where nd: "quotient_of q = (n, d)" by fastforce
  then have d: "0 < d" and q: "q = of_int n / of_int d"
    using quotient_of_denom_pos quotient_of_div by auto
  with assms have n: "0 < n" by (simp add: zero_less_divide_iff)
  let ?a = "floorlog 2 (nat n)" and ?b = "floorlog 2 (nat d)"
  let ?k = "int ?a - int ?b"
  note an = floorlog_rat[OF n] and bd = floorlog_rat[OF d]
  have d': "(0::rat) < of_int d" using d by simp
  have "?k - 1 = int (?a - 1) - int ?b" "?k + 1 = int ?a - int (?b - 1)" using an(3) bd(3) by linarith+
  then have k: "2 powi (?k - 1) = (2::rat) ^ (?a - 1) / 2 ^ ?b" "2 powi (?k + 1) = (2::rat) ^ ?a / 2 ^ (?b - 1)"
    by (simp_all only: powi_split)
  have "2 powi (?k - 1) = (2::rat) ^ (?a - 1) / 2 ^ ?b" by (rule k(1))
  also have "\<dots> \<le> of_int n / of_int d"
    using an(1) bd(2) d' n by (intro frac_le) auto
  finally have lo: "2 powi (?k - 1) \<le> q" by (simp add: q)
  have "of_int n / of_int d < (2::rat) ^ ?a / 2 ^ (?b - 1)"
    using an(2) bd(1) n by (intro frac_less) auto
  also have "\<dots> = 2 powi (?k + 1)" by (rule k(2)[symmetric])
  finally have hi: "q < 2 powi (?k + 1)" by (simp add: q)
  have f: "flog2 q = (if 2 powi ?k \<le> q then ?k else ?k - 1)" by (simp add: flog2_def nd)
  show "2 powi flog2 q \<le> q" "q < 2 powi (flog2 q + 1)" using lo hi by (auto simp: f)
qed

lemma powi_mono_iff: "(2::rat) powi a \<le> 2 powi b \<longleftrightarrow> a \<le> b" "(2::rat) powi a < 2 powi b \<longleftrightarrow> a < b"
proof -
  have "a \<le> b \<Longrightarrow> (2::rat) powi a \<le> 2 powi b" for a b by (rule power_int_increasing) simp_all
  moreover have "a < b \<Longrightarrow> (2::rat) powi a < 2 powi b" for a b by (rule power_int_strict_increasing) simp_all
  ultimately show "(2::rat) powi a \<le> 2 powi b \<longleftrightarrow> a \<le> b" "(2::rat) powi a < 2 powi b \<longleftrightarrow> a < b"
    by (meson linorder_not_le)+
qed

lemma flog2_unique: "2 powi k \<le> q \<Longrightarrow> q < 2 powi (k + 1) \<Longrightarrow> flog2 q = k"
proof -
  assume k: "2 powi k \<le> q" "q < 2 powi (k + 1)"
  have "(0::rat) < 2 powi k" by simp
  with k have "0 < q" by linarith
  note f = flog2_bounds[OF this]
  from k f have "(2::rat) powi k < 2 powi (flog2 q + 1)" "(2::rat) powi flog2 q < 2 powi (k + 1)" by linarith+
  then show ?thesis by (simp add: powi_mono_iff)
qed

lemma flog2_mono: "0 < x \<Longrightarrow> x \<le> y \<Longrightarrow> flog2 x \<le> flog2 y"
proof -
  assume "0 < x" "x \<le> y"
  with flog2_bounds[of x] flog2_bounds[of y] have "(2::rat) powi flog2 x < 2 powi (flog2 y + 1)" by linarith
  then show ?thesis by (simp add: powi_mono_iff)
qed

subsection \<open>Rounding to a double\<close>

definition ulp_exp :: "rat \<Rightarrow> int" where
  "ulp_exp q = max (flog2 q - 52) (- 1074)"

definition fl :: "rat \<Rightarrow> rat" where
  "fl q = (if q = 0 then 0
           else (let u = 2 powi ulp_exp \<bar>q\<bar> in of_int (rne (q / u)) * u))"

lemma fl_minus: "fl (- q) = - fl q"
  by (simp add: fl_def Let_def rne_minus)

lemma rne_le: "x \<le> of_int n \<Longrightarrow> rne x \<le> n"
  using rne_mono[of x "of_int n"] by simp

lemma rne_ge: "of_int n \<le> x \<Longrightarrow> n \<le> rne x"
  using rne_mono[of "of_int n" x] by simp

lemma fl_nonneg: "0 \<le> q \<Longrightarrow> 0 \<le> fl q"
  using rne_ge[of 0 "q / 2 powi ulp_exp \<bar>q\<bar>"] by (simp add: fl_def Let_def)

lemma powi_eq_of_int: "0 \<le> k \<Longrightarrow> (2::rat) powi k = of_int (2 ^ nat k)"
  by (simp add: power_int_def)

lemma fl_le_pow:
  assumes "0 < x" and "x \<le> 2 powi k" and "ulp_exp x \<le> k"
  shows "fl x \<le> 2 powi k"
proof -
  let ?u = "(2::rat) powi ulp_exp x"
  have "x / ?u \<le> 2 powi (k - ulp_exp x)"
    using assms(2) by (simp add: power_int_diff divide_right_mono)
  also have "\<dots> = of_int (2 ^ nat (k - ulp_exp x))" using assms(3) by (intro powi_eq_of_int) simp
  finally have "rne (x / ?u) \<le> 2 ^ nat (k - ulp_exp x)" by (rule rne_le)
  then have "of_int (rne (x / ?u)) \<le> (of_int (2 ^ nat (k - ulp_exp x)) :: rat)" by (simp only: of_int_le_iff)
  also have "\<dots> = 2 powi (k - ulp_exp x)" using assms(3) by (intro powi_eq_of_int[symmetric]) simp
  finally have "of_int (rne (x / ?u)) * ?u \<le> 2 powi (k - ulp_exp x) * ?u" by (intro mult_right_mono) simp_all
  then show ?thesis using assms(1) by (simp add: fl_def Let_def flip: power_int_add)
qed

lemma fl_ge_pow:
  assumes "2 powi k \<le> x" and "ulp_exp x \<le> k"
  shows "2 powi k \<le> fl x"
proof -
  let ?u = "(2::rat) powi ulp_exp x"
  have "(0::rat) < 2 powi k" by simp
  with assms(1) have x: "0 < x" by linarith
  have "of_int (2 ^ nat (k - ulp_exp x)) = (2::rat) powi (k - ulp_exp x)"
    using assms(2) by (intro powi_eq_of_int[symmetric]) simp
  also have "\<dots> \<le> x / ?u" using assms(1) by (simp add: power_int_diff divide_right_mono)
  finally have "2 ^ nat (k - ulp_exp x) \<le> rne (x / ?u)" by (rule rne_ge)
  then have "(of_int (2 ^ nat (k - ulp_exp x)) :: rat) \<le> of_int (rne (x / ?u))" by (simp only: of_int_le_iff)
  moreover have "(of_int (2 ^ nat (k - ulp_exp x)) :: rat) = 2 powi (k - ulp_exp x)"
    using assms(2) by (intro powi_eq_of_int[symmetric]) simp
  ultimately have "2 powi (k - ulp_exp x) \<le> (of_int (rne (x / ?u)) :: rat)" by (simp only:)
  then have "2 powi (k - ulp_exp x) * ?u \<le> of_int (rne (x / ?u)) * ?u" by (rule mult_right_mono) simp
  then show ?thesis using x by (simp add: fl_def Let_def flip: power_int_add)
qed

lemma fl_mono_pos:
  assumes "0 < x" and "x \<le> y"
  shows "fl x \<le> fl y"
proof (cases "ulp_exp x = ulp_exp y")
  case True
  let ?u = "(2::rat) powi ulp_exp y"
  have "rne (x / ?u) \<le> rne (y / ?u)" using assms by (intro rne_mono divide_right_mono) simp_all
  then have "of_int (rne (x / ?u)) * ?u \<le> of_int (rne (y / ?u)) * ?u" by (intro mult_right_mono) simp_all
  then show ?thesis using assms True by (simp add: fl_def Let_def)
next
  case False
  with flog2_mono[OF assms] have lt: "flog2 x < flog2 y" "ulp_exp y = flog2 y - 52" "ulp_exp x < ulp_exp y"
    by (auto simp: ulp_exp_def max_def split: if_splits)
  have "x \<le> 2 powi flog2 y"
    using flog2_bounds(2)[OF assms(1)] powi_mono_iff(1)[of "flog2 x + 1" "flog2 y"] lt(1) by linarith
  then have "fl x \<le> 2 powi flog2 y" using lt by (intro fl_le_pow[OF assms(1)]) auto
  also have "\<dots> \<le> fl y" using flog2_bounds(1)[of y] assms lt by (intro fl_ge_pow) auto
  finally show ?thesis .
qed

lemma fl_mono:
  assumes "x \<le> y"
  shows "fl x \<le> fl y"
proof -
  consider "0 < x" | "y < 0" | "x \<le> 0" "0 \<le> y" by linarith
  then show ?thesis
  proof cases
    case 1
    then show ?thesis using assms by (rule fl_mono_pos)
  next
    case 2
    then have "fl (- y) \<le> fl (- x)" using assms by (intro fl_mono_pos) auto
    then show ?thesis by (simp add: fl_minus)
  next
    case 3
    have "fl x \<le> 0" using fl_nonneg[of "- x"] 3 by (simp add: fl_minus)
    also have "0 \<le> fl y" using 3 by (simp add: fl_nonneg)
    finally show ?thesis .
  qed
qed

text \<open>Integers, and integers scaled by a power of two, are represented exactly.\<close>

lemma fl_exact:
  assumes "\<bar>m\<bar> < 2 ^ 53" and "- 1074 \<le> f"
  shows "fl (of_int m * 2 powi f) = of_int m * 2 powi f"
proof (cases "m = 0")
  case False
  let ?q = "of_int m * (2::rat) powi f"
  have q: "0 < \<bar>?q\<bar>" "?q \<noteq> 0" using False by (simp_all add: abs_mult)
  have "\<bar>?q\<bar> = of_int \<bar>m\<bar> * 2 powi f" by (simp add: abs_mult)
  also have "\<dots> < of_int (2 ^ 53) * 2 powi f"
  proof (rule mult_strict_right_mono)
    show "(of_int \<bar>m\<bar> :: rat) < of_int (2 ^ 53)" using assms(1) by (simp only: of_int_less_iff)
  qed simp
  also have "\<dots> = 2 powi (53 + f)" by (simp add: power_int_add)
  finally have "(2::rat) powi flog2 \<bar>?q\<bar> < 2 powi (53 + f)" using flog2_bounds(1)[OF q(1)] by linarith
  then have u: "ulp_exp \<bar>?q\<bar> \<le> f" using assms(2) by (simp add: powi_mono_iff ulp_exp_def)
  let ?u = "ulp_exp \<bar>?q\<bar>"
  have "?q / 2 powi ?u = of_int m * 2 powi (f - ?u)" by (simp add: power_int_diff)
  also have "\<dots> = of_int (m * 2 ^ nat (f - ?u))" using u by (simp add: powi_eq_of_int)
  finally have "of_int (rne (?q / 2 powi ?u)) = ?q / 2 powi ?u" by (metis rne_of_int)
  then show ?thesis using q(2) by (simp add: fl_def Let_def)
qed (simp add: fl_def)

lemma fl_int: "\<bar>m\<bar> < 2 ^ 53 \<Longrightarrow> fl (of_int m) = of_int m"
  using fl_exact[of m 0] by simp

text \<open>Above the least normal double the relative error is at most half a unit in the last place.\<close>

definition min_normal :: rat where
  "min_normal = 2 powi (- 1022)"

lemma fl_relative:
  assumes "min_normal \<le> x"
  shows "\<bar>fl x - x\<bar> \<le> x / 2 ^ 53"
proof -
  have "0 < min_normal" unfolding min_normal_def by (rule zero_less_power_int) simp
  with assms have x: "0 < x" by linarith
  then have "(2::rat) powi (- 1022) < 2 powi (flog2 x + 1)"
    using assms flog2_bounds(2)[OF x] unfolding min_normal_def by (rule_tac le_less_trans)
  then have "- 1022 < flog2 x + 1" by (simp only: powi_mono_iff)
  then have u: "ulp_exp x = flog2 x - 52" by (simp add: ulp_exp_def)
  let ?u = "(2::rat) powi ulp_exp x"
  have "fl x - x = (of_int (rne (x / ?u)) - x / ?u) * ?u" using x by (simp add: fl_def Let_def algebra_simps)
  then have "\<bar>fl x - x\<bar> = \<bar>of_int (rne (x / ?u)) - x / ?u\<bar> * ?u" by (simp add: abs_mult)
  also have "\<dots> \<le> 1 / 2 * ?u" by (intro mult_right_mono rne_error) simp
  also have "\<dots> = 2 powi flog2 x / 2 ^ 53" by (simp add: u power_int_diff)
  also have "\<dots> \<le> x / 2 ^ 53" using flog2_bounds(1)[OF x] by (intro divide_right_mono) simp_all
  finally show ?thesis .
qed

subsection \<open>What the clients use\<close>

locale float_rounding =
  fixes r :: "rat \<Rightarrow> rat"
  assumes mono: "x \<le> y \<Longrightarrow> r x \<le> r y"
    and exact: "\<bar>m\<bar> < 2 ^ 53 \<Longrightarrow> - 1074 \<le> f \<Longrightarrow> r (of_int m * 2 powi f) = of_int m * 2 powi f"
    and relative: "min_normal \<le> x \<Longrightarrow> \<bar>r x - x\<bar> \<le> x / 2 ^ 53"
begin

lemma int: "\<bar>m\<bar> < 2 ^ 53 \<Longrightarrow> r (of_int m) = of_int m"
  using exact[of m 0] by simp

lemma half: "\<bar>m\<bar> < 2 ^ 53 \<Longrightarrow> r (of_int m / 2) = of_int m / 2"
  using exact[of m "- 1"] by (simp add: power_int_def)

lemma between: "\<bar>a\<bar> < 2 ^ 53 \<Longrightarrow> \<bar>b\<bar> < 2 ^ 53 \<Longrightarrow> of_int a \<le> x \<Longrightarrow> x \<le> of_int b \<Longrightarrow> of_int a \<le> r x \<and> r x \<le> of_int b"
  using mono[of "of_int a" x] mono[of x "of_int b"] int[of a] int[of b] by simp

lemma nonneg: "0 \<le> x \<Longrightarrow> 0 \<le> r x"
  using mono[of 0 x] int[of 0] by simp

text \<open>A linear blend of two integers stays between them, with every operation rounded.\<close>

lemma blend:
  assumes "\<bar>s0\<bar> < 2 ^ 51" and "\<bar>s1\<bar> < 2 ^ 51" and "0 \<le> t" and "t \<le> 1"
  shows "of_int (min s0 s1) \<le> r (of_int s0 + r (r (of_int s1 - of_int s0) * t)) \<and>
    r (of_int s0 + r (r (of_int s1 - of_int s0) * t)) \<le> of_int (max s0 s1)"
proof -
  let ?d = "s1 - s0"
  have d: "r (of_int s1 - of_int s0) = of_int ?d" using int[of ?d] assms by simp
  have lo: "of_int (min 0 ?d) \<le> of_int ?d * t" and hi: "of_int ?d * t \<le> of_int (max 0 ?d)"
    using mult_nonneg_nonneg[of "of_int ?d" t] mult_nonneg_nonneg[of "of_int ?d" "1 - t"]
      mult_nonneg_nonneg[of "- of_int ?d" t] mult_nonneg_nonneg[of "- of_int ?d" "1 - t"] assms(3,4)
    by (cases "0 \<le> ?d"; simp add: min_def max_def algebra_simps)+
  have "of_int (min 0 ?d) \<le> r (of_int ?d * t) \<and> r (of_int ?d * t) \<le> of_int (max 0 ?d)"
    using assms lo hi by (intro between) auto
  then have "of_int (min s0 s1) \<le> of_int s0 + r (of_int ?d * t)" "of_int s0 + r (of_int ?d * t) \<le> of_int (max s0 s1)"
    by (auto simp: min_def max_def split: if_splits)
  then show ?thesis unfolding d using assms by (intro between) auto
qed

end

interpretation fl: float_rounding fl
  by unfold_locales (blast intro: fl_mono fl_exact fl_relative)+

end
