(* ===== verification/Audio.thy ===== *)
theory Audio
  imports Float64 Prelude
begin

unbundle bit_operations_syntax

text \<open>
  Sample formats: the byte orders of the wire formats (\<open>internal/model/pcm/pcm.go\<close>, and the integers
  of the Doubao frames), the linear resampler (\<open>internal/audio/resample.go\<close>), and the state of the
  Opus encoder that the program keeps itself, its complexity (\<open>internal/audio/opus.go\<close>); the codec is
  a C library.  Samples are signed 16-bit words, sample positions are doubles.
\<close>

type_synonym i16 = "16 word"

subsection \<open>Fixed-width values as bytes\<close>

locale byte_codec =
  fixes enc :: "'w \<Rightarrow> bytes" and dec :: "bytes \<Rightarrow> 'w" and n :: nat
  assumes enc_length: "length (enc w) = n"
    and dec_enc: "dec (enc w) = w"
    and positive: "0 < n"

text \<open>Values read one after the other; a rest shorter than a value is dropped.\<close>

function dec_all :: "(bytes \<Rightarrow> 'w) \<Rightarrow> nat \<Rightarrow> bytes \<Rightarrow> 'w list" where
  "dec_all dec n bs = (if n = 0 \<or> length bs < n then [] else dec (take n bs) # dec_all dec n (drop n bs))"
  by pat_completeness auto
termination by (relation "measure (\<lambda>(dec, n, bs). length bs)") auto

declare dec_all.simps [simp del]

lemma length_dec_all: "0 < n \<Longrightarrow> length (dec_all dec n bs) = length bs div n"
proof (induction "length bs" arbitrary: bs rule: less_induct)
  case less
  show ?case
  proof (cases "length bs < n")
    case True
    then show ?thesis by (simp add: dec_all.simps[of dec n bs])
  next
    case False
    then have "length (dec_all dec n (drop n bs)) = (length bs - n) div n"
      using less by simp
    moreover have "length bs div n = Suc ((length bs - n) div n)"
      using False less.prems by (metis Suc_eq_plus1 add.commute le_div_geq linorder_not_less)
    ultimately show ?thesis using False less.prems by (simp add: dec_all.simps[of dec n bs])
  qed
qed

context byte_codec
begin

lemma dec_all_enc: "dec_all dec n (concat (map enc ws)) = ws"
proof (induction ws)
  case Nil
  then show ?case using positive by (simp add: dec_all.simps)
next
  case (Cons w ws)
  then show ?case
    using positive by (subst dec_all.simps) (simp add: enc_length dec_enc)
qed

lemma length_enc_all: "length (concat (map enc ws)) = n * length ws"
  by (induction ws) (simp_all add: enc_length)

end

definition le16 :: "i16 \<Rightarrow> bytes" where
  "le16 w = [ucast w, ucast (drop_bit 8 w)]"

definition from_le16 :: "bytes \<Rightarrow> i16" where
  "from_le16 bs = ucast (bs ! 0) OR push_bit 8 (ucast (bs ! 1))"

definition be32 :: "u32 \<Rightarrow> bytes" where
  "be32 w = [ucast (drop_bit 24 w), ucast (drop_bit 16 w), ucast (drop_bit 8 w), ucast w]"

definition from_be32 :: "bytes \<Rightarrow> u32" where
  "from_be32 bs = push_bit 24 (ucast (bs ! 0)) OR push_bit 16 (ucast (bs ! 1))
     OR push_bit 8 (ucast (bs ! 2)) OR ucast (bs ! 3)"

definition le32 :: "u32 \<Rightarrow> bytes" where
  "le32 w = rev (be32 w)"

definition from_le32 :: "bytes \<Rightarrow> u32" where
  "from_le32 bs = from_be32 (rev bs)"

lemma from_le16_le16: "from_le16 (le16 w) = w"
  by (rule bit_word_eqI) (auto simp: from_le16_def le16_def bit_simps)

lemma from_be32_be32: "from_be32 (be32 w) = w"
proof (rule bit_word_eqI)
  fix i assume "i < LENGTH(32)"
  then consider "i < 8" | "8 \<le> i" "i < 16" | "16 \<le> i" "i < 24" | "24 \<le> i" "i < 32" by fastforce
  then show "bit (from_be32 (be32 w)) i = bit w i"
    by cases (auto simp: from_be32_def be32_def bit_simps dest: bit_imp_le_length)
qed

interpretation le16: byte_codec le16 from_le16 2
  by unfold_locales (simp_all add: from_le16_le16, simp add: le16_def)

interpretation be32: byte_codec be32 from_be32 4
  by unfold_locales (simp_all add: from_be32_be32, simp add: be32_def)

interpretation le32: byte_codec le32 from_le32 4
  by unfold_locales (simp_all add: from_be32_be32 le32_def from_le32_def, simp add: be32_def)

text \<open>The two serializers of the package \<open>pcm\<close>.\<close>

definition ToBytes :: "i16 list \<Rightarrow> bytes" where
  "ToBytes samples = concat (map le16 samples)"

definition FromBytes :: "bytes \<Rightarrow> i16 list" where
  "FromBytes b = dec_all from_le16 2 b"

lemma length_FromBytes: "length (FromBytes b) = length b div 2"
  by (simp add: FromBytes_def length_dec_all)

text \<open>
  PCM survives serialization: reading the bytes written for any samples gives the samples back,
  two bytes were written per sample, and any byte string of length \<open>n\<close> is read as \<open>n div 2\<close> samples, so
  no odd rest can reach out of the buffer.
\<close>

lemma pcm_roundtrip:
  "FromBytes (ToBytes samples) = samples \<and> length (ToBytes samples) = 2 * length samples \<and>
   length (FromBytes b) = length b div 2"
  by (simp add: FromBytes_def ToBytes_def le16.dec_all_enc le16.length_enc_all length_dec_all)

subsection \<open>The resampler\<close>

text \<open>The conversion of a double to an integer drops the fraction; integer division truncates.\<close>

definition trunc :: "rat \<Rightarrow> int" where
  "trunc x = (if 0 \<le> x then \<lfloor>x\<rfloor> else \<lceil>x\<rceil>)"

definition go_div :: "int \<Rightarrow> int \<Rightarrow> int" where
  "go_div a b = sgn a * sgn b * (\<bar>a\<bar> div \<bar>b\<bar>)"

text \<open>One output sample; \<^const>\<open>None\<close> is a panic, an index out of range.\<close>

definition resample_at :: "i16 list \<Rightarrow> rat \<Rightarrow> nat \<Rightarrow> i16 option" where
  "resample_at xs ratio i =
     (let pos = fl (of_nat i * ratio);
          idx = trunc pos;
          frac = fl (pos - of_int idx) in
      if 0 \<le> idx \<and> idx < int (length xs) then
        (let s0 = sint (xs ! nat idx);
             s1 = (if idx + 1 < int (length xs) then sint (xs ! nat (idx + 1)) else s0) in
         Some (word_of_int (trunc (fl (of_int s0 + fl (fl (of_int s1 - of_int s0) * frac))))))
      else None)"

definition ResampleLinear :: "i16 list \<Rightarrow> int \<Rightarrow> int \<Rightarrow> i16 list option" where
  "ResampleLinear xs inRate outRate =
     (if inRate = outRate \<or> xs = [] then Some xs
      else if inRate = 0 then None
      else
        (let outLen = go_div (int (length xs) * outRate) inRate in
         if outLen = 0 then Some []
         else if outLen < 0 then None
         else
           (let ratio = fl (of_int inRate / of_int outRate) in
            those (map (resample_at xs ratio) [0..<nat outLen]))))"

lemma those_map_Some:
  "\<forall>x \<in> set xs. f x = Some (g x) \<Longrightarrow> those (map f xs) = Some (map g xs)"
  by (induction xs) auto

lemma trunc_of_int [simp]: "trunc (of_int n) = n"
  by (simp add: trunc_def)

lemma trunc_between: "of_int a \<le> x \<Longrightarrow> x \<le> of_int b \<Longrightarrow> a \<le> trunc x \<and> trunc x \<le> b"
  by (auto simp: trunc_def le_floor_iff ceiling_le_iff le_ceiling_iff floor_le_iff)

lemma sint16_range: "- 32768 \<le> sint (w :: i16) \<and> sint w < 32768"
  using sint_ge[of w] sint_lt[of w] by simp

lemma sint16_of_int: "- 32768 \<le> k \<Longrightarrow> k < 32768 \<Longrightarrow> sint (word_of_int k :: i16) = k"
  by (simp add: signed_of_int signed_take_bit_int_eq_self)

lemma outLen_div: "0 < inRate \<Longrightarrow> 0 < outRate \<Longrightarrow> go_div (int n * outRate) inRate = int n * outRate div inRate"
  by (cases "n = 0") (simp_all add: go_div_def)

lemma blend_sample:
  fixes a b :: i16
  assumes "0 \<le> t" and "t \<le> 1"
  shows "min (sint a) (sint b)
      \<le> sint (word_of_int (trunc (fl (of_int (sint a) + fl (fl (of_int (sint b) - of_int (sint a)) * t)))) :: i16)
    \<and> sint (word_of_int (trunc (fl (of_int (sint a) + fl (fl (of_int (sint b) - of_int (sint a)) * t)))) :: i16)
      \<le> max (sint a) (sint b)"
proof -
  let ?v = "trunc (fl (of_int (sint a) + fl (fl (of_int (sint b) - of_int (sint a)) * t)))"
  have "min (sint a) (sint b) \<le> ?v \<and> ?v \<le> max (sint a) (sint b)"
    using fl.blend[of "sint a" "sint b" t] sint16_range[of a] sint16_range[of b] assms
    by (intro trunc_between) auto
  moreover from this have "sint (word_of_int ?v :: i16) = ?v"
    using sint16_range[of a] sint16_range[of b] by (intro sint16_of_int) auto
  ultimately show ?thesis by simp
qed

lemma resample_at_in_range:
  assumes "0 \<le> fl (of_nat i * ratio)" and "fl (of_nat i * ratio) < of_nat (length xs)"
  shows "\<exists>y. resample_at xs ratio i = Some y \<and>
    (\<exists>a \<in> set xs. \<exists>b \<in> set xs. min (sint a) (sint b) \<le> sint y \<and> sint y \<le> max (sint a) (sint b))"
proof -
  let ?pos = "fl (of_nat i * ratio)"
  let ?idx = "\<lfloor>?pos\<rfloor>"
  have idx: "trunc ?pos = ?idx" using assms(1) by (simp add: trunc_def)
  have r: "0 \<le> ?idx" "?idx < int (length xs)" using assms by (auto simp: floor_less_iff)
  have t: "0 \<le> fl (?pos - of_int ?idx) \<and> fl (?pos - of_int ?idx) \<le> 1"
    using fl.between[of 0 1 "?pos - of_int ?idx"] by (simp add: order_less_imp_le) linarith
  define a where "a = xs ! nat ?idx"
  define b where "b = (if ?idx + 1 < int (length xs) then xs ! nat (?idx + 1) else a)"
  have "nat ?idx < length xs" "?idx + 1 < int (length xs) \<Longrightarrow> nat (?idx + 1) < length xs"
    using r by linarith+
  then have m: "a \<in> set xs" "b \<in> set xs" by (auto simp: a_def b_def)
  have "resample_at xs ratio i = Some (word_of_int (trunc (fl (of_int (sint a)
      + fl (fl (of_int (sint b) - of_int (sint a)) * fl (?pos - of_int ?idx))))))"
    using r by (simp add: resample_at_def Let_def idx a_def b_def)
  then show ?thesis using blend_sample[of "fl (?pos - of_int ?idx)" a b] t m by blast
qed

text \<open>Rounding errors do not reach past the end: the last position stays inside the input.\<close>

lemma pos_in_range:
  assumes "1 \<le> inRate" and "inRate \<le> 2 ^ 20" and "1 \<le> outRate" and "outRate \<le> 2 ^ 20" and "n \<le> 2 ^ 30"
    and i: "int i < int n * outRate div inRate"
  shows "0 \<le> fl (of_nat i * fl (of_int inRate / of_int outRate))"
    and "fl (of_nat i * fl (of_int inRate / of_int outRate)) < of_nat n"
proof -
  let ?R = "of_int inRate / of_int outRate :: rat" and ?u = "1 / 2 ^ 53 :: rat"
  have R: "1 / 2 ^ 20 \<le> ?R"
    using assms(1,3,4) by (simp add: field_simps)
  have small: "min_normal \<le> 1 / 2 ^ 20"
  proof -
    have "min_normal \<le> 2 powi (- 20)" unfolding min_normal_def by (simp only: powi_mono_iff)
    then show ?thesis by (simp add: power_int_def power_divide)
  qed
  have "fl (1 / 2 ^ 20) = 1 / 2 ^ 20" using fl.exact[of 1 "- 20"] by (simp add: power_int_def power_divide)
  then have flR: "1 / 2 ^ 20 \<le> fl ?R" using fl.mono[OF R] by simp
  have up: "fl ?R \<le> ?R + ?R / 2 ^ 53" using fl.relative[of ?R] R small by (auto simp: abs_le_iff)
  let ?q = "of_nat i * fl ?R"
  have q0: "0 \<le> ?q" using flR by (intro mult_nonneg_nonneg) auto
  then show "0 \<le> fl ?q" by (rule fl.nonneg)
  let ?X = "of_nat i * ?R"
  have "(int i + 1) * inRate \<le> int n * outRate"
  proof -
    have "(int i + 1) * inRate \<le> (int n * outRate div inRate) * inRate" using i assms(1) by (intro mult_right_mono) auto
    also have "\<dots> \<le> int n * outRate" using assms(1) by (simp add: minus_mod_eq_div_mult[symmetric])
    finally show ?thesis .
  qed
  then have "(of_int ((int i + 1) * inRate) :: rat) \<le> of_int (int n * outRate)" by (simp only: of_int_le_iff)
  then have le: "(of_nat i + 1) * ?R \<le> of_nat n" using assms(3) by (simp add: field_simps)
  have "(of_nat i + 1) * z \<le> of_nat n \<Longrightarrow> 1 / 2 ^ 20 \<le> z \<Longrightarrow>
      of_nat i * z \<le> of_nat n - 1 / 2 ^ 20 \<and> 0 \<le> of_nat i * z" for z :: rat
    by (simp add: algebra_simps)
  from this[OF le R] have X: "?X \<le> of_nat n - 1 / 2 ^ 20" "0 \<le> ?X" by blast+
  have n: "(of_nat n :: rat) \<le> 2 ^ 30" using assms(5) by (metis of_nat_le_iff of_nat_numeral of_nat_power)
  show "fl ?q < of_nat n"
  proof (cases "i = 0")
    case True
    have "n \<noteq> 0" using i True by (cases n) auto
    then show ?thesis using True fl.int[of 0] by simp
  next
    case False
    then have "1 * (1 / 2 ^ 20) \<le> ?q" using flR by (intro mult_mono) auto
    then have "min_normal \<le> ?q" using small by linarith
    from fl.relative[OF this] have "fl ?q \<le> ?q + ?q / 2 ^ 53" by linarith
    moreover have "?q \<le> ?X + ?X / 2 ^ 53"
      using mult_left_mono[OF up, of "of_nat i"] by (simp add: algebra_simps)
    ultimately show ?thesis using X n by (simp add: field_simps)
  qed
qed

lemma those_Some:
  "\<forall>x \<in> set xs. \<exists>y. f x = Some y \<and> P y \<Longrightarrow> \<exists>ys. those (map f xs) = Some ys \<and> length ys = length xs \<and> (\<forall>y \<in> set ys. P y)"
  by (induction xs) auto

lemma resample_bounded:
  assumes "1 \<le> inRate" and "inRate \<le> 2 ^ 20" and "1 \<le> outRate" and "outRate \<le> 2 ^ 20"
    and "length xs \<le> 2 ^ 30"
  shows "\<exists>ys. ResampleLinear xs inRate outRate = Some ys \<and>
    int (length ys) = int (length xs) * outRate div inRate \<and>
    (\<forall>y \<in> set ys. \<exists>a \<in> set xs. \<exists>b \<in> set xs. min (sint a) (sint b) \<le> sint y \<and> sint y \<le> max (sint a) (sint b))"
proof (cases "inRate = outRate \<or> xs = []")
  case True
  have "\<forall>y \<in> set xs. \<exists>a \<in> set xs. \<exists>b \<in> set xs. min (sint a) (sint b) \<le> sint y \<and> sint y \<le> max (sint a) (sint b)"
    by (metis max.idem min.idem order_refl)
  moreover have "ResampleLinear xs inRate outRate = Some xs" using True by (simp add: ResampleLinear_def)
  moreover have "int (length xs) = int (length xs) * outRate div inRate" using True assms by auto
  ultimately show ?thesis by blast
next
  case False
  let ?n = "int (length xs) * outRate div inRate" and ?r = "fl (of_int inRate / of_int outRate)"
  have n: "0 \<le> ?n" using assms by (intro pos_imp_zdiv_nonneg_iff[THEN iffD2]) auto
  have "\<forall>i \<in> set [0..<nat ?n]. \<exists>y. resample_at xs ?r i = Some y \<and>
      (\<exists>a \<in> set xs. \<exists>b \<in> set xs. min (sint a) (sint b) \<le> sint y \<and> sint y \<le> max (sint a) (sint b))"
  proof
    fix i assume "i \<in> set [0..<nat ?n]"
    then have "int i < ?n" by auto
    from pos_in_range[OF assms this] show "\<exists>y. resample_at xs ?r i = Some y \<and>
      (\<exists>a \<in> set xs. \<exists>b \<in> set xs. min (sint a) (sint b) \<le> sint y \<and> sint y \<le> max (sint a) (sint b))"
      by (rule resample_at_in_range)
  qed
  from those_Some[OF this] obtain ys where ys: "those (map (resample_at xs ?r) [0..<nat ?n]) = Some ys"
    "length ys = nat ?n"
    "\<forall>y \<in> set ys. \<exists>a \<in> set xs. \<exists>b \<in> set xs. min (sint a) (sint b) \<le> sint y \<and> sint y \<le> max (sint a) (sint b)"
    by auto
  have "ResampleLinear xs inRate outRate = Some ys"
    using False assms n ys(1,2) by (auto simp: ResampleLinear_def outLen_div Let_def)
  with ys n show ?thesis by auto
qed

text \<open>
  Resampling never fails and never clips: for any chunk of up to \<open>2\<^sup>30\<close> samples and any rates from
  1 to \<open>2\<^sup>20\<close> Hz, in spite of rounded positions, the resampler stays inside its input, returns
  \<open>len * outRate div inRate\<close> samples, and every sample lies between two samples of the input, so the
  conversion back to 16 bits does not wrap.
\<close>

theorem resample_safe:
  assumes "1 \<le> inRate" and "inRate \<le> 2 ^ 20" and "1 \<le> outRate" and "outRate \<le> 2 ^ 20"
    and "length xs \<le> 2 ^ 30"
  shows "\<exists>ys. ResampleLinear xs inRate outRate = Some ys \<and>
    int (length ys) = int (length xs) * outRate div inRate \<and>
    (\<forall>y \<in> set ys. \<exists>a \<in> set xs. \<exists>b \<in> set xs. min (sint a) (sint b) \<le> sint y \<and> sint y \<le> max (sint a) (sint b))"
  by (rule resample_bounded[OF assms])

theorem resample_safe_witness:
  "\<exists>ys. ResampleLinear [1, - 7, 300, 2] 22050 48000 = Some ys \<and> length ys = 8"
proof -
  let ?xs = "[1, - 7, 300, 2] :: i16 list"
  have "\<exists>ys. ResampleLinear ?xs 22050 48000 = Some ys \<and>
    int (length ys) = int (length ?xs) * 48000 div 22050 \<and>
    (\<forall>y \<in> set ys. \<exists>a \<in> set ?xs. \<exists>b \<in> set ?xs. min (sint a) (sint b) \<le> sint y \<and> sint y \<le> max (sint a) (sint b))"
    by (rule resample_safe) simp_all
  then show ?thesis by auto
qed

declare of_int_sint [simp del]

text \<open>The two rates of the program are exact: 48 kHz to 16 kHz decimates, 24 kHz to 48 kHz interpolates.\<close>

lemma sint_back: "word_of_int (sint (w :: i16)) = w"
  by (simp flip: scast_eq)

lemma resample_at_exact:
  assumes "fl (of_nat i * ratio) = of_nat k" and "k < length xs"
  shows "resample_at xs ratio i = Some (xs ! k)"
proof -
  have "trunc (of_nat k) = int k" using trunc_of_int[of "int k"] by simp
  moreover have "fl (of_int (sint (xs ! k))) = of_int (sint (xs ! k))"
    using sint16_range[of "xs ! k"] by (intro fl.int) auto
  moreover have "fl 0 = 0" using fl.int[of 0] by simp
  ultimately show ?thesis using assms by (simp add: resample_at_def Let_def sint_back)
qed

lemma resample_at_last:
  assumes "fl (of_nat i * ratio) = of_nat k + 1 / 2" and "Suc k = length xs"
  shows "resample_at xs ratio i = Some (xs ! k)"
proof -
  have t: "trunc (of_nat k + 1 / 2) = int k" by (simp add: trunc_def floor_eq_iff)
  have "fl (of_int (sint (xs ! k))) = of_int (sint (xs ! k))"
    using sint16_range[of "xs ! k"] by (intro fl.int) auto
  moreover have "fl 0 = 0" using fl.int[of 0] by simp
  ultimately show ?thesis
    using assms by (simp add: resample_at_def Let_def t sint_back)
qed

lemma resample_at_half:
  assumes "fl (of_nat i * ratio) = of_nat k + 1 / 2" and "Suc k < length xs"
  shows "resample_at xs ratio i =
    Some (word_of_int (trunc ((of_int (sint (xs ! k)) + of_int (sint (xs ! Suc k))) / 2)))"
proof -
  let ?a = "sint (xs ! k)" and ?b = "sint (xs ! Suc k)"
  have t: "trunc (of_nat k + 1 / 2) = int k" by (simp add: trunc_def floor_eq_iff)
  have h: "fl (1 / 2) = 1 / 2" using fl.half[of 1] by simp
  have r: "- 32768 \<le> ?a" "?a < 32768" "- 32768 \<le> ?b" "?b < 32768"
    using sint16_range[of "xs ! k"] sint16_range[of "xs ! Suc k"] by auto
  have d: "fl (of_int ?b - of_int ?a) = of_int (?b - ?a)" using fl.int[of "?b - ?a"] r by simp
  have m: "fl (of_int (?b - ?a) * (1 / 2)) = of_int (?b - ?a) / 2" using fl.half[of "?b - ?a"] r by simp
  have "fl (of_int ?a + fl (fl (of_int ?b - of_int ?a) * (1 / 2))) = fl (of_int ?a + of_int (?b - ?a) / 2)"
    by (simp only: d m)
  moreover have "fl (of_int ?a + of_int (?b - ?a) / 2) = (of_int ?a + of_int ?b) / 2"
  proof -
    have "of_int ?a + of_int (?b - ?a) / 2 = (of_int (?a + ?b) / 2 :: rat)" by (simp add: field_simps)
    then show ?thesis unfolding \<open>of_int ?a + of_int (?b - ?a) / 2 = of_int (?a + ?b) / 2\<close>
      using fl.half[of "?a + ?b"] r by simp
  qed
  ultimately have v: "fl (of_int ?a + fl (fl (of_int ?b - of_int ?a) * (1 / 2))) = (of_int ?a + of_int ?b) / 2"
    by simp
  have k: "nat (int k + 1) = Suc k" by simp
  have "resample_at xs ratio i =
      Some (word_of_int (trunc (fl (of_int ?a + fl (fl (of_int ?b - of_int ?a) * (1 / 2))))))"
    using assms(2) by (simp add: resample_at_def Let_def assms(1) t h k)
  then show ?thesis by (simp only: v)
qed

text \<open>
  The uplink conversion from 48 kHz to 16 kHz is decimation by three, exactly: sample \<open>i\<close> of the
  output is sample \<open>3 i\<close> of the input, and chunks whose length is a multiple of three (every Opus frame)
  can be converted one by one or joined, with the same result.
\<close>

lemma decimate_48k_16k:
  assumes "length xs < 2 ^ 50" and "length xs + length ys < 2 ^ 50"
  shows "ResampleLinear xs 48000 16000 = Some (map (\<lambda>i. xs ! (3 * i)) [0..<length xs div 3]) \<and>
    (3 dvd length xs \<longrightarrow> ResampleLinear (xs @ ys) 48000 16000 =
      Some (the (ResampleLinear xs 48000 16000) @ the (ResampleLinear ys 48000 16000)))"
proof -
  have dec: "ResampleLinear zs 48000 16000 = Some (map (\<lambda>i. zs ! (3 * i)) [0..<length zs div 3])"
    if "length zs < 2 ^ 50" for zs :: "i16 list"
  proof (cases "zs = []")
    case False
    have n: "int (length zs) * 16000 div 48000 = int (length zs div 3)" by (simp add: zdiv_int)
    have r: "fl (of_int 48000 / of_int 16000) = 3" using fl.int[of 3] by simp
    have "\<forall>i \<in> set [0..<length zs div 3]. resample_at zs 3 i = Some (zs ! (3 * i))"
    proof
      fix i assume "i \<in> set [0..<length zs div 3]"
      then have i: "3 * i < length zs" by auto
      have "fl (of_nat i * 3) = of_nat (3 * i)"
        using fl.int[of "3 * int i"] i that by (simp add: mult.commute)
      then show "resample_at zs 3 i = Some (zs ! (3 * i))" using i by (rule resample_at_exact)
    qed
    from those_map_Some[OF this] show ?thesis
      using False by (auto simp only: ResampleLinear_def outLen_div Let_def n r nat_int of_nat_0_less_iff) auto
  qed (simp add: ResampleLinear_def)
  have "ResampleLinear (xs @ ys) 48000 16000 =
      Some (the (ResampleLinear xs 48000 16000) @ the (ResampleLinear ys 48000 16000))" if d: "3 dvd length xs"
  proof -
    from d obtain k where k: "length xs = 3 * k" by auto
    have "[0..<length (xs @ ys) div 3] = [0..<k] @ map (\<lambda>i. i + k) [0..<length ys div 3]"
      by (simp add: k map_add_upt upt_add_eq_append[of 0 k, simplified] add.commute)
    then show ?thesis using assms by (simp add: dec k nth_append)
  qed
  with dec[OF assms(1)] show ?thesis by blast
qed

lemma decimate_48k_16k_example:
  "ResampleLinear [5, 6, 7, 8, 9, 10, 11] 48000 16000 = Some [5, 8]"
  using decimate_48k_16k[of "[5, 6, 7, 8, 9, 10, 11]" "[]"] by (simp add: upt_rec)

text \<open>
  The downlink conversion from 24 kHz to 48 kHz doubles the samples: every input sample is kept, and
  between two neighbours stands their mean, rounded toward zero; the last sample is repeated.
\<close>

theorem interpolate_24k_48k:
  assumes "length xs < 2 ^ 50" and "xs \<noteq> []"
  shows "\<exists>ys. ResampleLinear xs 24000 48000 = Some ys \<and> length ys = 2 * length xs \<and>
    (\<forall>k < length xs. ys ! (2 * k) = xs ! k \<and>
       ys ! (2 * k + 1) =
         (if k + 1 < length xs
          then word_of_int (trunc ((of_int (sint (xs ! k)) + of_int (sint (xs ! (k + 1)))) / 2))
          else xs ! k))"
proof -
  define g where "g i = (let k = i div 2 in
    if even i then xs ! k
    else if k + 1 < length xs
    then word_of_int (trunc ((of_int (sint (xs ! k)) + of_int (sint (xs ! (k + 1)))) / 2))
    else xs ! k)" for i
  have n: "int (length xs) * 48000 div 24000 = int (2 * length xs)" by simp
  have r: "fl (of_int 24000 / of_int 48000) = 1 / 2" using fl.half[of 1] by simp
  have "\<forall>i \<in> set [0..<2 * length xs]. resample_at xs (1 / 2) i = Some (g i)"
  proof
    fix i assume "i \<in> set [0..<2 * length xs]"
    then have i: "i < 2 * length xs" "i div 2 < length xs" by auto
    have p: "fl (of_nat i * (1 / 2)) = of_nat i / 2"
      using fl.half[of "int i"] i assms(1) by simp
    show "resample_at xs (1 / 2) i = Some (g i)"
    proof (cases "even i")
      case True
      then have "fl (of_nat i * (1 / 2)) = of_nat (i div 2)" using p by (auto elim!: evenE)
      then show ?thesis using resample_at_exact i(2) True by (simp add: g_def Let_def)
    next
      case False
      then have q: "fl (of_nat i * (1 / 2)) = of_nat (i div 2) + 1 / 2" using p by (auto elim!: oddE simp: field_simps)
      show ?thesis
      proof (cases "i div 2 + 1 < length xs")
        case True
        then show ?thesis using resample_at_half[OF q] False by (simp add: g_def Let_def)
      next
        case last: False
        then have "Suc (i div 2) = length xs" using i(2) by simp
        from resample_at_last[OF q this] False last show ?thesis by (simp add: g_def Let_def)
      qed
    qed
  qed
  from those_map_Some[OF this] have "ResampleLinear xs 24000 48000 = Some (map g [0..<2 * length xs])"
    using assms(2) by (auto simp only: ResampleLinear_def outLen_div Let_def n r nat_int of_nat_0_less_iff) auto
  then show ?thesis by (intro exI[of _ "map g [0..<2 * length xs]"]) (auto simp: g_def Let_def)
qed

theorem interpolate_24k_48k_witness:
  "\<exists>ys. ResampleLinear [10, - 5] 24000 48000 = Some ys \<and> ys ! 1 = 2 \<and> ys ! 3 = - 5"
proof -
  have "length [10, - 5 :: i16] < 2 ^ 50" "[10, - 5 :: i16] \<noteq> []" by simp_all
  from interpolate_24k_48k[OF this] obtain ys where ys: "ResampleLinear [10, - 5] 24000 48000 = Some ys"
    "\<forall>k < length [10, - 5 :: i16]. ys ! (2 * k) = [10, - 5] ! k \<and> ys ! (2 * k + 1) =
         (if k + 1 < length [10, - 5 :: i16]
          then word_of_int (trunc ((of_int (sint ([10, - 5 :: i16] ! k)) + of_int (sint ([10, - 5 :: i16] ! (k + 1)))) / 2))
          else [10, - 5] ! k)" by blast
  have "\<lfloor>5 / 2 :: rat\<rfloor> = 2" by (simp add: floor_eq_iff)
  with ys(2)[rule_format, of 0] have "ys ! 1 = 2" by (simp add: trunc_def)
  moreover from ys(2)[rule_format, of 1] have "ys ! 3 = - 5" by (simp add: numeral_eq_Suc)
  ultimately show ?thesis using ys(1) by blast
qed

subsection \<open>The encoder's complexity\<close>

text \<open>
  Every encoder compares the process-wide complexity with the one it applied last and passes a change
  on to the codec; \<open>-1\<close> means that none was set.
\<close>

definition complexity_default :: int where
  "complexity_default = - 1"

definition applyComplexity :: "int \<Rightarrow> int \<Rightarrow> int option \<times> int" where
  "applyComplexity live applied =
     (if live \<noteq> applied \<and> 0 \<le> live then (Some live, live) else (None, applied))"

text \<open>The codec calls of a new encoder over the complexities it sees frame by frame.\<close>

definition complexity_calls :: "int list \<Rightarrow> int option list \<times> int" where
  "complexity_calls lives = collect (\<lambda>applied live. applyComplexity live applied) complexity_default lives"

lemma complexity_applied:
  "snd (collect (\<lambda>applied live. applyComplexity live applied) a lives) =
     fold (\<lambda>live acc. if 0 \<le> live then live else acc) lives a"
  by (induction lives arbitrary: a) (auto simp: applyComplexity_def Let_def split_beta)

end
