(* ===== verification/Pumps.thy ===== *)
theory Pumps
  imports Hub Metrics Audio Breaker
begin

text \<open>
  The pumps a bridge runs, \<open>internal/rtc/bridge.go\<close>: the outbound audio loop that frames, encodes and paces
  the model's audio, the inbound audio loop, the text traffic of the data channel with its messages
  (\<open>internal/rtc/dcproto\<close>), and the monitor of interruptions; and the load-test model
  (\<open>internal/model/loopback\<close>) whose audio they play.

  The Opus codec, the RTP track and the data channel are parameters: a codec is a function on its own
  state, and the outcome of each call is part of the environment.
\<close>

subsection \<open>Model audio to the browser\<close>

definition frameSamples :: nat where
  "frameSamples = 960"

text \<open>
  The loop's variables, with what it has handed to the encoder, written to the track and reported.
\<close>

record 'e outbound =
  ob_buf :: "i16 list"
  ob_enc :: 'e
  ob_produced :: bool
  ob_last :: "time option"
  ob_metrics :: metrics
  ob_frames :: "i16 list list"
  ob_written :: "bytes list"
  ob_faults :: "(bool \<times> go_error) list"
  ob_exit :: "string option"

text \<open>
  The encoder, and per written frame the error of the write, the clock after it, and whether the
  cancelled context ends the wait for the next tick.
\<close>

record 'e outbound_env =
  oe_encode :: "'e \<Rightarrow> i16 list \<Rightarrow> bytes option \<times> 'e"
  oe_write :: "nat \<Rightarrow> go_error option"
  oe_now :: "nat \<Rightarrow> time"
  oe_ctx :: "nat \<Rightarrow> bool"

definition pump_start :: "'e \<Rightarrow> metrics \<Rightarrow> 'e outbound" where
  "pump_start enc m =
     \<lparr>ob_buf = [], ob_enc = enc, ob_produced = False, ob_last = None, ob_metrics = m,
      ob_frames = [], ob_written = [], ob_faults = [], ob_exit = None\<rparr>"

text \<open>The closure \<open>exit\<close>.\<close>

definition pump_exit :: "string \<Rightarrow> 'e outbound \<Rightarrow> 'e outbound" where
  "pump_exit reason s =
     s\<lparr>ob_metrics := RecordOutboundPumpExit reason (ob_metrics s), ob_exit := Some reason\<rparr>"

definition emit_frame :: "'e outbound_env \<Rightarrow> 'e outbound \<Rightarrow> 'e outbound" where
  "emit_frame env s =
     (let frame = take frameSamples (ob_buf s);
          (data, enc) = oe_encode env (ob_enc s) frame;
          n = length (ob_written s);
          s1 = s\<lparr>ob_buf := drop frameSamples (ob_buf s), ob_enc := enc, ob_frames := ob_frames s @ [frame]\<rparr> in
      case data of
        None \<Rightarrow> s1
      | Some d \<Rightarrow>
          (case oe_write env n of
             Some err \<Rightarrow> pump_exit ''write_sample'' s1
           | None \<Rightarrow>
               (let now = oe_now env n;
                    m = RecordOutboundFrameWritten (ob_metrics s1);
                    m' = (case ob_last s1 of None \<Rightarrow> m | Some l \<Rightarrow> ObserveFrameInterval (now - l) m);
                    s2 = s1\<lparr>ob_metrics := m', ob_produced := True, ob_written := ob_written s1 @ [d],
                            ob_last := Some now\<rparr> in
                if oe_ctx env n then pump_exit ''ctx'' s2 else s2)))"

function drain_buf :: "'e outbound_env \<Rightarrow> 'e outbound \<Rightarrow> 'e outbound" where
  "drain_buf env s =
     (if ob_exit s \<noteq> None \<or> length (ob_buf s) < frameSamples then s else drain_buf env (emit_frame env s))"
  by auto

lemma emit_frame_buf: "ob_buf (emit_frame env s) = drop frameSamples (ob_buf s)"
  by (auto simp: emit_frame_def pump_exit_def Let_def split: prod.split option.split)

termination drain_buf
  by (relation "measure (\<lambda>(env, s). length (ob_buf s))") (auto simp: emit_frame_buf frameSamples_def)

declare drain_buf.simps [simp del]

text \<open>
  The chunks the model delivers before its \<open>Recv\<close> fails with \<open>err\<close>; \<open>report\<close> says whether a fault
  reporter was bound.
\<close>

fun writeOutboundLoop :: "'e outbound_env \<Rightarrow> bool \<Rightarrow> go_error \<Rightarrow> i16 list list \<Rightarrow> 'e outbound \<Rightarrow> 'e outbound" where
  "writeOutboundLoop env report err [] s =
     (if ob_exit s \<noteq> None then s
      else pump_exit ''recv''
             (if report then s\<lparr>ob_faults := ob_faults s @ [(ob_produced s, err)]\<rparr> else s))"
| "writeOutboundLoop env report err (pcm # chunks) s =
     (if ob_exit s \<noteq> None then s
      else writeOutboundLoop env report err chunks (drain_buf env (s\<lparr>ob_buf := ob_buf s @ pcm\<rparr>)))"

subsection \<open>What the outbound pump guarantees\<close>

text \<open>The state of a loop that started with the metrics \<open>m\<close>.\<close>

definition exit_counts :: "metrics \<Rightarrow> u64 \<times> u64 \<times> u64" where
  "exit_counts m = (mx_exitWriteSample m, mx_exitRecv m, mx_exitCtx m)"

definition pump_ok :: "metrics \<Rightarrow> 'e outbound \<Rightarrow> bool" where
  "pump_ok m s =
     ((\<forall>f \<in> set (ob_frames s). length f = frameSamples) \<and>
      ob_produced s = (ob_written s \<noteq> []) \<and> (ob_last s = None) = (ob_written s = []) \<and>
      mx_framesWritten (ob_metrics s) = mx_framesWritten m + word_of_nat (length (ob_written s)) \<and>
      (ob_exit s = Some ''recv'' \<or> ob_faults s = []) \<and>
      exit_counts (ob_metrics s) =
        exit_counts (case ob_exit s of None \<Rightarrow> m | Some reason \<Rightarrow> RecordOutboundPumpExit reason m))"

lemma pump_ok_start: "pump_ok m (pump_start enc m)"
  by (simp add: pump_ok_def pump_start_def)

lemma pump_metrics_simps [simp]:
  "exit_counts (RecordOutboundFrameWritten m) = exit_counts m"
  "exit_counts (ObserveFrameInterval d m) = exit_counts m"
  "mx_framesWritten (RecordOutboundFrameWritten m) = mx_framesWritten m + 1"
  "mx_framesWritten (ObserveFrameInterval d m) = mx_framesWritten m"
  "mx_framesWritten (RecordOutboundPumpExit r m) = mx_framesWritten m"
  by (simp_all add: RecordOutboundFrameWritten_def ObserveFrameInterval_def RecordOutboundPumpExit_def exit_counts_def)

lemma exit_counts_exit:
  "exit_counts m1 = exit_counts m2 \<Longrightarrow>
   exit_counts (RecordOutboundPumpExit r m1) = exit_counts (RecordOutboundPumpExit r m2)"
  by (simp add: RecordOutboundPumpExit_def exit_counts_def)

lemma pump_ok_exit:
  assumes "pump_ok m s" and "ob_exit s = None" and "reason = ''recv'' \<or> ob_faults s = []"
  shows "pump_ok m (pump_exit reason s)"
  using assms exit_counts_exit[of "ob_metrics s" m reason] by (simp add: pump_ok_def pump_exit_def)

lemma pump_ok_take:
  assumes "pump_ok m s" and "length f = frameSamples"
  shows "pump_ok m (s\<lparr>ob_buf := b, ob_enc := e, ob_frames := ob_frames s @ [f]\<rparr>)"
  using assms unfolding pump_ok_def by auto

lemma pump_ok_written:
  assumes "pump_ok m s" and "exit_counts m' = exit_counts (ob_metrics s)"
    and "mx_framesWritten m' = mx_framesWritten (ob_metrics s) + 1"
  shows "pump_ok m (s\<lparr>ob_metrics := m', ob_produced := True, ob_written := ob_written s @ [d], ob_last := Some now\<rparr>)"
  using assms unfolding pump_ok_def by (auto simp: algebra_simps)

lemma emit_frame_ok:
  assumes "pump_ok m s" and "ob_exit s = None" and "frameSamples \<le> length (ob_buf s)"
  shows "pump_ok m (emit_frame env s) \<and> ob_exit (emit_frame env s) \<noteq> Some ''recv''"
proof -
  let ?f = "take frameSamples (ob_buf s)"
  obtain data enc where e: "oe_encode env (ob_enc s) ?f = (data, enc)" by fastforce
  let ?s1 = "s\<lparr>ob_buf := drop frameSamples (ob_buf s), ob_enc := enc, ob_frames := ob_frames s @ [?f]\<rparr>"
  have ok: "pump_ok m ?s1" "ob_exit ?s1 = None" "ob_faults ?s1 = []"
    using assms pump_ok_take[OF assms(1), of ?f] by (auto simp: pump_ok_def)
  show ?thesis
  proof (cases data)
    case None
    with e ok show ?thesis by (simp add: emit_frame_def Let_def)
  next
    case (Some d)
    show ?thesis
    proof (cases "oe_write env (length (ob_written s))")
      case None
      define now where "now = oe_now env (length (ob_written s))"
      define m' where "m' = (let m = RecordOutboundFrameWritten (ob_metrics s) in
        case ob_last s of None \<Rightarrow> m | Some l \<Rightarrow> ObserveFrameInterval (now - l) m)"
      let ?s2 = "?s1\<lparr>ob_metrics := m', ob_produced := True, ob_written := ob_written ?s1 @ [d], ob_last := Some now\<rparr>"
      have s2: "pump_ok m ?s2"
        by (rule pump_ok_written[OF ok(1)]) (simp_all add: m'_def Let_def split: option.split)
      have "emit_frame env s = (if oe_ctx env (length (ob_written s)) then pump_exit ''ctx'' ?s2 else ?s2)"
        using None Some e by (cases "ob_last s") (simp_all add: emit_frame_def Let_def now_def m'_def)
      with s2 ok show ?thesis using pump_ok_exit[OF s2, of "''ctx''"] by (simp add: pump_exit_def)
    next
      case (Some err)
      with \<open>data = Some d\<close> e pump_ok_exit[OF ok(1,2), of "''write_sample''"] ok(3) show ?thesis
        by (simp add: emit_frame_def pump_exit_def Let_def)
    qed
  qed
qed

lemma emit_frame_stream:
  "concat (ob_frames (emit_frame env s)) @ ob_buf (emit_frame env s) = concat (ob_frames s) @ ob_buf s"
  by (auto simp: emit_frame_def pump_exit_def Let_def split: prod.split option.split)

lemma drain_buf_ok:
  assumes "pump_ok m s"
  shows "pump_ok m (drain_buf env s) \<and>
    concat (ob_frames (drain_buf env s)) @ ob_buf (drain_buf env s) = concat (ob_frames s) @ ob_buf s \<and>
    (ob_exit (drain_buf env s) = None \<longrightarrow> length (ob_buf (drain_buf env s)) < frameSamples) \<and>
    (ob_exit s = None \<longrightarrow> ob_exit (drain_buf env s) \<noteq> Some ''recv'')"
  using assms
proof (induction env s rule: drain_buf.induct)
  case (1 env s)
  show ?case
  proof (cases "ob_exit s \<noteq> None \<or> length (ob_buf s) < frameSamples")
    case True
    with 1(2) show ?thesis by (auto simp: drain_buf.simps[of env s])
  next
    case False
    then have "ob_exit s = None" "frameSamples \<le> length (ob_buf s)" by auto
    note e = emit_frame_ok[OF 1(2) this, of env]
    have "ob_exit (emit_frame env s) \<noteq> None \<Longrightarrow> drain_buf env (emit_frame env s) = emit_frame env s"
      by (simp add: drain_buf.simps[of env "emit_frame env s"])
    with 1(1)[OF False conjunct1[OF e]] False e show ?thesis
      by (cases "ob_exit (emit_frame env s)") (auto simp: drain_buf.simps[of env s] emit_frame_stream)
  qed
qed

lemma pump_exited: "ob_exit s \<noteq> None \<Longrightarrow> writeOutboundLoop env report err chunks s = s"
  by (cases chunks) auto

lemma pump_ok_buf: "pump_ok m s \<Longrightarrow> pump_ok m (s\<lparr>ob_buf := b\<rparr>)"
  by (auto simp: pump_ok_def)

lemma pump_run:
  assumes "pump_ok m s" and "ob_exit s = None" and "length (ob_buf s) < frameSamples"
    and "writeOutboundLoop env report err chunks s = s'"
  shows "pump_ok m s' \<and> ob_exit s' \<noteq> None \<and>
    (\<exists>rest. concat (ob_frames s) @ ob_buf s @ concat chunks = concat (ob_frames s') @ ob_buf s' @ rest \<and>
       (ob_exit s' = Some ''recv'' \<longrightarrow> rest = [] \<and> length (ob_buf s') < frameSamples \<and>
          ob_faults s' = (if report then [(ob_written s' \<noteq> [], err)] else [])))"
  using assms
proof (induction chunks arbitrary: s)
  case Nil
  let ?s = "if report then s\<lparr>ob_faults := ob_faults s @ [(ob_produced s, err)]\<rparr> else s"
  have "exit_counts (ob_metrics s) = exit_counts m" using Nil.prems(1,2) by (simp add: pump_ok_def)
  then have "pump_ok m (pump_exit ''recv'' ?s)"
    using Nil.prems(1,2) exit_counts_exit[of "ob_metrics s" m "''recv''"]
    by (auto simp: pump_ok_def pump_exit_def)
  moreover have "ob_faults s = []" "ob_produced s = (ob_written s \<noteq> [])" using Nil.prems(1,2) by (auto simp: pump_ok_def)
  moreover have "s' = pump_exit ''recv'' ?s" using Nil.prems(2,4) by simp
  ultimately show ?case using Nil.prems(3) by (simp add: pump_exit_def)
next
  case (Cons pcm chunks)
  let ?b = "s\<lparr>ob_buf := ob_buf s @ pcm\<rparr>" and ?s = "drain_buf env (s\<lparr>ob_buf := ob_buf s @ pcm\<rparr>)"
  note d = drain_buf_ok[where env = env, OF pump_ok_buf[OF Cons.prems(1), of "ob_buf s @ pcm"]]
  have st: "concat (ob_frames ?s) @ ob_buf ?s = concat (ob_frames s) @ ob_buf s @ pcm" using d by simp
  show ?case
  proof (cases "ob_exit ?s")
    case None
    have "pump_ok m ?s" "length (ob_buf ?s) < frameSamples" "writeOutboundLoop env report err chunks ?s = s'"
      using d None Cons.prems(2,4) by auto
    note ih = Cons.IH[OF this(1) None this(2,3)]
    have "concat (ob_frames s) @ ob_buf s @ concat (pcm # chunks) = concat (ob_frames ?s) @ ob_buf ?s @ concat chunks"
      using arg_cong[OF st, of "\<lambda>x. x @ concat chunks"] by simp
    from ih[folded this] show ?thesis .
  next
    case (Some r)
    then have s': "s' = ?s" using Cons.prems(2,4) pump_exited[of ?s] by simp
    have "ob_exit ?s \<noteq> Some ''recv''" using d Cons.prems(2) by simp
    moreover have "concat (ob_frames s) @ ob_buf s @ concat (pcm # chunks) = concat (ob_frames s') @ ob_buf s' @ concat chunks"
      using arg_cong[OF st, of "\<lambda>x. x @ concat chunks"] by (simp add: s')
    ultimately show ?thesis using s' Some d by (intro conjI exI[of _ "concat chunks"]) simp_all
  qed
qed


text \<open>
  The outbound pump keeps the model's audio intact: it encodes it in frames of exactly 20 ms, in order
  and without a gap, so that what it has encoded and what it still buffers is a prefix of what the model
  delivered, and all of it, with less than one frame buffered, when it stops because the model ended.
\<close>

theorem outbound_framing:
  assumes "writeOutboundLoop env report err chunks (pump_start enc m) = s"
  shows "\<exists>rest. concat chunks = concat (ob_frames s) @ ob_buf s @ rest \<and>
    set (map length (ob_frames s)) \<subseteq> {960} \<and>
    (ob_exit s = Some ''recv'' \<longrightarrow> rest = [] \<and> length (ob_buf s) < 960)"
proof -
  have "ob_exit (pump_start enc m) = None" "length (ob_buf (pump_start enc m)) < frameSamples"
    by (simp_all add: pump_start_def frameSamples_def)
  from pump_run[OF pump_ok_start this assms] show ?thesis
    by (auto simp: pump_start_def pump_ok_def frameSamples_def)
qed

text \<open>
  The pump always ends with exactly one recorded exit, counts exactly the frames it has written, and
  reports a fault exactly when the model's receive failed, saying truthfully whether any audio had been
  written to the browser before.
\<close>

theorem outbound_accounting:
  assumes "writeOutboundLoop env report err chunks (pump_start enc m) = s"
  shows "\<exists>reason. ob_exit s = Some reason \<and>
    exit_counts (ob_metrics s) = exit_counts (RecordOutboundPumpExit reason m) \<and>
    mx_framesWritten (ob_metrics s) = mx_framesWritten m + word_of_nat (length (ob_written s)) \<and>
    ob_faults s = (if reason = ''recv'' \<and> report then [(ob_written s \<noteq> [], err)] else [])"
proof -
  have "ob_exit (pump_start enc m) = None" "length (ob_buf (pump_start enc m)) < frameSamples"
    by (simp_all add: pump_start_def frameSamples_def)
  from pump_run[OF pump_ok_start this assms] have ok: "pump_ok m s" and ex: "ob_exit s \<noteq> None"
    and f: "ob_exit s = Some ''recv'' \<Longrightarrow> ob_faults s = (if report then [(ob_written s \<noteq> [], err)] else [])" by auto
  from ex obtain reason where r: "ob_exit s = Some reason" by auto
  show ?thesis
  proof (cases "reason = ''recv''")
    case True
    with ok f r show ?thesis by (simp add: pump_ok_def)
  next
    case False
    with ok r show ?thesis by (simp add: pump_ok_def)
  qed
qed

definition demo_outbound :: "unit outbound_env" where
  "demo_outbound = \<lparr>oe_encode = (\<lambda>e f. (Some [1], e)), oe_write = (\<lambda>_. None), oe_now = (\<lambda>n. int n), oe_ctx = (\<lambda>_. False)\<rparr>"

lemma demo_outbound_run:
  "ob_exit (writeOutboundLoop demo_outbound True ''EOF'' [replicate 1000 0] (pump_start () metrics_zero)) = Some ''recv''
   \<and> ob_written (writeOutboundLoop demo_outbound True ''EOF'' [replicate 1000 0] (pump_start () metrics_zero)) = [[1]]"
proof -
  let ?s = "(pump_start () metrics_zero)\<lparr>ob_buf := replicate 1000 0\<rparr>"
  have e: "emit_frame demo_outbound ?s = ?s\<lparr>ob_buf := drop 960 (replicate 1000 0), ob_frames := [take 960 (replicate 1000 0)],
      ob_metrics := RecordOutboundFrameWritten metrics_zero, ob_produced := True, ob_written := [[1]], ob_last := Some 0\<rparr>"
    by (simp add: emit_frame_def demo_outbound_def pump_start_def frameSamples_def Let_def)
  have "drain_buf demo_outbound ?s = emit_frame demo_outbound ?s"
  proof -
    have "drain_buf demo_outbound (emit_frame demo_outbound ?s) = emit_frame demo_outbound ?s"
      unfolding e by (subst drain_buf.simps) (simp add: frameSamples_def)
    then show ?thesis by (subst drain_buf.simps) (simp add: frameSamples_def pump_start_def)
  qed
  then have d: "drain_buf demo_outbound ?s = ?s\<lparr>ob_buf := drop 960 (replicate 1000 0), ob_frames := [take 960 (replicate 1000 0)],
      ob_metrics := RecordOutboundFrameWritten metrics_zero, ob_produced := True, ob_written := [[1]], ob_last := Some 0\<rparr>"
    unfolding e .
  have "ob_buf (pump_start () metrics_zero) = []" "ob_exit (pump_start () metrics_zero) = None"
    by (simp_all add: pump_start_def)
  with d show ?thesis by (simp add: pump_exit_def)
qed

theorem outbound_framing_witness:
  "length (ob_buf (writeOutboundLoop demo_outbound True ''EOF'' [replicate 1000 0] (pump_start () metrics_zero))) < 960"
  using outbound_framing[of demo_outbound True "''EOF''" "[replicate 1000 0]" "()" metrics_zero, OF refl] demo_outbound_run
  by auto

theorem outbound_accounting_witness:
  "ob_faults (writeOutboundLoop demo_outbound True ''EOF'' [replicate 1000 0] (pump_start () metrics_zero)) = [(True, ''EOF'')]"
  using outbound_accounting[of demo_outbound True "''EOF''" "[replicate 1000 0]" "()" metrics_zero, OF refl] demo_outbound_run
  by auto

text \<open>The reporter the pump calls is the guard's: the faults it feeds to the breaker.\<close>

definition report_faults :: "string \<Rightarrow> time \<Rightarrow> time \<Rightarrow> (bool \<times> go_error) list \<Rightarrow> manager option \<Rightarrow> manager option" where
  "report_faults p started now faults g =
     fold (\<lambda>(produced, err) g. RecordStreamFault g p started produced (Some err) now) faults g"

text \<open>Once a frame has reached the browser, the end of the stream never counts against the provider.\<close>

lemma produced_no_fault:
  assumes "writeOutboundLoop env report err chunks (pump_start enc m) = s" and "ob_written s \<noteq> []"
  shows "report_faults p started now (ob_faults s) g = g"
proof -
  have "ob_exit (pump_start enc m) = None" "length (ob_buf (pump_start enc m)) < frameSamples"
    by (simp_all add: pump_start_def frameSamples_def)
  from pump_run[OF pump_ok_start this assms(1)] have "ob_faults s = [] \<or> ob_faults s = [(True, err)]"
    using assms(2) by (cases "ob_exit s = Some ''recv''") (auto simp: pump_ok_def)
  then show ?thesis by (auto simp: report_faults_def RecordStreamFault_def)
qed

text \<open>
  But the pump cannot tell who ended the stream: a client that hangs up before any audio closes the
  model, whose receive then fails, and that counts as an early fault of the provider.
\<close>

lemma hang_up_counts_as_fault:
  assumes "p \<noteq> ''loopback''" and "now - started < EarlyFaultWindow"
  shows "report_faults p started now (ob_faults (writeOutboundLoop env True ''EOF'' [] (pump_start enc m))) (Some g)
    = Some (put_breaker (snd (manager_get g p)) p (recordStreamFailure (fst (manager_get g p)) now))"
  using assms by (simp add: pump_start_def pump_exit_def report_faults_def RecordStreamFault_def skipped_def split_beta Let_def)


subsection \<open>Microphone to the model\<close>

text \<open>
  What the track gives before its read fails, and per chunk handed to the model whether it takes it; the
  decoder keeps a state.  The result is the chunks handed over.
\<close>

fun readInboundLoop ::
  "('d \<Rightarrow> bytes \<Rightarrow> i16 list option \<times> 'd) \<Rightarrow> (nat \<Rightarrow> bool) \<Rightarrow> 'd \<Rightarrow> bytes list \<Rightarrow> nat \<Rightarrow> i16 list list" where
  "readInboundLoop decode takes d [] n = []"
| "readInboundLoop decode takes d (payload # pkts) n =
     (if length payload = 0 then readInboundLoop decode takes d pkts n
      else (let (pcm, d') = decode d payload in
            case pcm of
              None \<Rightarrow> readInboundLoop decode takes d' pkts n
            | Some x \<Rightarrow> (if takes n then x # readInboundLoop decode takes d' pkts (Suc n) else [x])))"

text \<open>The decoded packets, in order, are what the model hears, as long as it takes them.\<close>

fun decoded :: "('d \<Rightarrow> bytes \<Rightarrow> i16 list option \<times> 'd) \<Rightarrow> 'd \<Rightarrow> bytes list \<Rightarrow> i16 list list" where
  "decoded decode d [] = []"
| "decoded decode d (p # ps) =
     (case decode d p of (None, d') \<Rightarrow> decoded decode d' ps | (Some x, d') \<Rightarrow> x # decoded decode d' ps)"

lemma inbound_exact:
  assumes "\<And>k. takes k"
  shows "readInboundLoop decode takes d pkts n = decoded decode d (filter (\<lambda>p. p \<noteq> []) pkts)"
  by (induction pkts arbitrary: d n) (auto simp: assms split: prod.splits option.splits)

lemma inbound_prefix:
  "\<exists>rest. decoded decode d (filter (\<lambda>p. p \<noteq> []) pkts) = readInboundLoop decode takes d pkts n @ rest"
proof (induction pkts arbitrary: d n)
  case (Cons p ps)
  obtain x d' where dd: "decode d p = (x, d')" by fastforce
  show ?case
  proof (cases "p = [] \<or> x = None")
    case True
    with Cons.IH[of d n] Cons.IH[of d' n] dd show ?thesis by (cases "p = []") auto
  next
    case False
    then obtain y where "x = Some y" "p \<noteq> []" by auto
    with Cons.IH[of d' "Suc n"] dd show ?thesis by auto
  qed
qed simp

subsection \<open>Messages of the data channel\<close>

definition line_json :: "line \<Rightarrow> json" where
  "line_json l = JObj [(''seq'', JNum (uint (ln_Seq l))), (''role'', JStr (ln_Role l)), (''text'', JStr (ln_Text l))]"

text \<open>\<open>marshal\<close> and \<open>unmarshal\<close> are \<open>json.Marshal\<close> and \<open>json.Unmarshal\<close>.\<close>

definition dc_Encode :: "(json \<Rightarrow> string) \<Rightarrow> line \<Rightarrow> string" where
  "dc_Encode marshal l = marshal (line_json l)"

definition tool_call_json :: "tool_call \<Rightarrow> json" where
  "tool_call_json c =
     JObj [(''type'', JStr ''tool_call''), (''id'', JStr (tc_ID c)), (''name'', JStr (tc_Name c)), (''args'', JRaw (tc_Args c))]"

definition dc_EncodeToolCall :: "(json \<Rightarrow> string) \<Rightarrow> tool_call \<Rightarrow> string" where
  "dc_EncodeToolCall marshal c = marshal (tool_call_json c)"

record dc_envelope =
  ev_Type :: string
  ev_ID :: string
  ev_Name :: string
  ev_Response :: string

definition dc_Decode :: "(string \<Rightarrow> dc_envelope option) \<Rightarrow> string \<Rightarrow> tool_result option" where
  "dc_Decode unmarshal data =
     (case unmarshal data of
        None \<Rightarrow> None
      | Some e \<Rightarrow>
          (if ev_Type e \<noteq> ''tool_result'' then None
           else Some \<lparr>tl_ID = ev_ID e, tl_Name = ev_Name e, tl_Response = ev_Response e\<rparr>))"

text \<open>\<open>OnMessage\<close>: what a message of the browser does to the session's recorder, and what the model gets.\<close>

datatype to_model = ToolResult tool_result | UserText string

definition on_message ::
  "(string \<Rightarrow> dc_envelope option) \<Rightarrow> capabilities \<Rightarrow> bool \<Rightarrow> string \<Rightarrow> 'l recorder \<Rightarrow> to_model list \<times> 'l recorder" where
  "on_message unmarshal caps isString data r =
     (if \<not> isString then ([], r)
      else (case (if cp_Tools caps then dc_Decode unmarshal data else None) of
              Some res \<Rightarrow> ([ToolResult res], r)
            | None \<Rightarrow> ([UserText data], snd (record_line r (''user'', data)))))"

text \<open>
  Every text message of the browser reaches the model exactly once, as a tool result or as user text;
  it enters the transcript exactly when it is text, and a tool result only goes to a model that
  dispatches tools.
\<close>

theorem browser_message_routed:
  assumes "on_message unmarshal caps True data r = (out, r')"
  shows "(\<exists>res. out = [ToolResult res] \<and> cp_Tools caps \<and> dc_Decode unmarshal data = Some res \<and> r' = r) \<or>
    (out = [UserText data] \<and> \<not> (cp_Tools caps \<and> dc_Decode unmarshal data \<noteq> None) \<and> rc_seq r' = rc_seq r + 1 \<and>
     (0 < rc_histLimit r \<longrightarrow> last (rc_history r') = \<lparr>ln_Seq = rc_seq r + 1, ln_Role = ''user'', ln_Text = data\<rparr>))"
proof (cases "cp_Tools caps \<and> dc_Decode unmarshal data \<noteq> None")
  case True
  then obtain res where "dc_Decode unmarshal data = Some res" by auto
  with True assms show ?thesis by (auto simp: on_message_def)
next
  case False
  then have "(if cp_Tools caps then dc_Decode unmarshal data else None) = None" by auto
  with assms have o: "out = [UserText data]" "r' = snd (record_line r (''user'', data))"
    by (simp_all add: on_message_def)
  with False show ?thesis by (auto simp: record_line_eq Let_def keep_last_snoc)
qed

theorem browser_message_routed_witness:
  "fst (on_message (\<lambda>_. None) \<lparr>cp_Restorer = False, cp_Transcriber = True, cp_Tools = True, cp_Interrupter = False\<rparr> True ''hi''
     (NewRecorder 4 [] 256 \<lparr>sm_SessionID = ''s'', sm_UserID = ''u'', sm_Provider = ''gemini''\<rparr> (None :: unit listener option)))
   = [UserText ''hi'']"
proof -
  let ?caps = "\<lparr>cp_Restorer = False, cp_Transcriber = True, cp_Tools = True, cp_Interrupter = False\<rparr>"
  let ?r = "NewRecorder 4 [] 256 \<lparr>sm_SessionID = ''s'', sm_UserID = ''u'', sm_Provider = ''gemini''\<rparr> (None :: unit listener option)"
  obtain out r' where o: "on_message (\<lambda>_. None) ?caps True ''hi'' ?r = (out, r')" by fastforce
  from browser_message_routed[OF o] show ?thesis using o by (auto simp: dc_Decode_def)
qed

subsection \<open>Transcripts to the browser\<close>

text \<open>
  The transcript pump records each line of the model and then sends it, waiting for the channel to open;
  it stops for good when the context ends the wait or the send fails.  Other goroutines record in
  between.  The state: the recorder, the lines the pump has recorded, the lines it has sent, and
  whether it runs.
\<close>

datatype send_outcome = Delivered | SendFailed | CtxDone





text \<open>The replay on a reconnect, up to a failing send.\<close>

definition sendReplay :: "nat option \<Rightarrow> line list \<Rightarrow> line list" where
  "sendReplay fails_at replay = (case fails_at of None \<Rightarrow> replay | Some n \<Rightarrow> take n replay)"


lemma ordered_upto_keep_last: "ordered_upto m ls \<Longrightarrow> ordered_upto m (keep_last n ls)"
  by (metis keep_last_suffix ordered_upto_suffix)










subsection \<open>Tool calls to the browser\<close>

text \<open>The calls received before the receive fails, each with what the channel then does.\<close>

datatype tool_outcome = NotOpen | ToolSendFailed | ToolSent bool

fun forwardToolCalls :: "(tool_call \<times> tool_outcome) list \<Rightarrow> tool_call list" where
  "forwardToolCalls [] = []"
| "forwardToolCalls ((c, NotOpen) # cs) = []"
| "forwardToolCalls ((c, ToolSendFailed) # cs) = []"
| "forwardToolCalls ((c, ToolSent ctxDone) # cs) = c # (if ctxDone then [] else forwardToolCalls cs)"

lemma tool_calls_prefix: "\<exists>rest. map fst cs = forwardToolCalls cs @ rest"
  by (induction cs rule: forwardToolCalls.induct) auto

subsection \<open>The monitor of interruptions\<close>

text \<open>
  The answers of the model's poll at each tick until the context ends, \<^const>\<open>None\<close> for an error: the number
  of times the interruption is handled.
\<close>

fun monitorInterruption :: "bool option list \<Rightarrow> nat" where
  "monitorInterruption [] = 0"
| "monitorInterruption (None # polls) = 0"
| "monitorInterruption (Some True # polls) = Suc (monitorInterruption polls)"
| "monitorInterruption (Some False # polls) = monitorInterruption polls"

lemma monitor_handles_each:
  "None \<notin> set polls \<Longrightarrow> monitorInterruption polls = length (filter (\<lambda>p. p = Some True) polls)"
  by (induction polls rule: monitorInterruption.induct) auto

subsection \<open>The loopback model\<close>

record loopback =
  lb_tone :: "i16 list"
  lb_pos :: nat
  lb_n :: nat
  lb_closed :: bool

text \<open>The tone, one second of a sine, is a parameter: \<open>math.Sin\<close> is not modelled.\<close>

definition loopback_New :: "i16 list \<Rightarrow> loopback" where
  "loopback_New tone = \<lparr>lb_tone = tone, lb_pos = 0, lb_n = 0, lb_closed = False\<rparr>"

text \<open>The loop of \<open>Recv\<close> over the samples of a frame.\<close>

fun loopback_fill :: "nat \<Rightarrow> loopback \<Rightarrow> i16 list \<times> loopback" where
  "loopback_fill 0 m = ([], m)"
| "loopback_fill (Suc k) m =
     (let x = lb_tone m ! lb_pos m;
          (xs, m') = loopback_fill k (m\<lparr>lb_pos := (lb_pos m + 1) mod length (lb_tone m)\<rparr>) in
      (x # xs, m'))"

text \<open>\<^const>\<open>None\<close> is the end of the stream.\<close>

definition loopback_Recv :: "loopback \<Rightarrow> i16 list option \<times> loopback" where
  "loopback_Recv m =
     (if lb_closed m then (None, m)
      else (let (out, m') = loopback_fill frameSamples m in (Some out, m')))"

definition loopback_RecvTranscript :: "loopback \<Rightarrow> model_transcript option \<times> loopback" where
  "loopback_RecvTranscript m =
     (if lb_closed m then (None, m)
      else (Some \<lparr>tr_Role = ''model'', tr_Text = ''loopback transcript '' @ format_int (int (lb_n m + 1))\<rparr>,
            m\<lparr>lb_n := lb_n m + 1\<rparr>))"

text \<open>Closing the closed channel would panic (\<^const>\<open>None\<close>); \<open>Close\<close> tests first.\<close>

definition close_closed :: "loopback \<Rightarrow> loopback option" where
  "close_closed m = (if lb_closed m then None else Some (m\<lparr>lb_closed := True\<rparr>))"

definition loopback_Close :: "loopback \<Rightarrow> loopback option" where
  "loopback_Close m = (if lb_closed m then Some m else close_closed m)"

fun loopback_frames :: "nat \<Rightarrow> loopback \<Rightarrow> i16 list" where
  "loopback_frames 0 m = []"
| "loopback_frames (Suc k) m =
     (case loopback_Recv m of (None, m') \<Rightarrow> [] | (Some out, m') \<Rightarrow> out @ loopback_frames k m')"

lemma loopback_fill_eq:
  assumes "lb_pos m < length (lb_tone m)"
  shows "loopback_fill k m =
    (map (\<lambda>i. lb_tone m ! ((lb_pos m + i) mod length (lb_tone m))) [0..<k],
     m\<lparr>lb_pos := (lb_pos m + k) mod length (lb_tone m)\<rparr>)"
  using assms
proof (induction k arbitrary: m)
  case (Suc k)
  let ?m = "m\<lparr>lb_pos := (lb_pos m + 1) mod length (lb_tone m)\<rparr>"
  have "lb_pos ?m < length (lb_tone ?m)" using Suc.prems by (cases "lb_tone m") auto
  note ih = Suc.IH[OF this]
  have "[0..<Suc k] = 0 # map Suc [0..<k]" by (simp only: map_Suc_upt upt_conv_Cons zero_less_Suc)
  with ih Suc.prems show ?case by (simp add: mod_simps o_def del: upt_Suc)
qed simp

text \<open>The audio of a load test is the tone repeated without a seam, whatever its length and however far it has played.\<close>

lemma loopback_stream:
  assumes "lb_pos m < length (lb_tone m)" and "\<not> lb_closed m"
  shows "loopback_frames k m = map (\<lambda>i. lb_tone m ! ((lb_pos m + i) mod length (lb_tone m))) [0..<k * frameSamples]"
  using assms
proof (induction k arbitrary: m)
  case (Suc k)
  let ?m = "m\<lparr>lb_pos := (lb_pos m + frameSamples) mod length (lb_tone m)\<rparr>"
  have r: "loopback_Recv m = (Some (map (\<lambda>i. lb_tone m ! ((lb_pos m + i) mod length (lb_tone m))) [0..<frameSamples]), ?m)"
    using Suc.prems by (simp add: loopback_Recv_def loopback_fill_eq)
  have "lb_pos ?m < length (lb_tone ?m)" using Suc.prems by (cases "lb_tone m") auto
  with Suc.IH[of ?m] Suc.prems(2)
  have "loopback_frames k ?m = map (\<lambda>i. lb_tone m ! ((lb_pos m + frameSamples + i) mod length (lb_tone m))) [0..<k * frameSamples]"
    by (simp add: mod_simps)
  moreover have "[0..<Suc k * frameSamples] = [0..<frameSamples] @ map (\<lambda>i. i + frameSamples) [0..<k * frameSamples]"
    using upt_add_eq_append[of 0 frameSamples "k * frameSamples"] map_add_upt[of frameSamples "k * frameSamples"]
    by (simp add: add.commute)
  moreover have "loopback_frames (Suc k) m =
      map (\<lambda>i. lb_tone m ! ((lb_pos m + i) mod length (lb_tone m))) [0..<frameSamples] @ loopback_frames k ?m"
    by (simp add: r)
  ultimately show ?case by (simp only: map_append map_map) (simp add: o_def add.assoc add.commute[of frameSamples])
qed simp

lemma loopback_close_once: "\<exists>m'. loopback_Close m = Some m' \<and> lb_closed m' \<and> loopback_Close m' = Some m'"
  by (auto simp: loopback_Close_def close_closed_def)


text \<open>What a browser sends is taken and dropped, and there is nothing to interrupt.\<close>

definition loopback_SendAudio :: "i16 list \<Rightarrow> loopback \<Rightarrow> go_error option \<times> loopback" where
  "loopback_SendAudio pcm m = (None, m)"

definition loopback_SendText :: "string \<Rightarrow> loopback \<Rightarrow> go_error option \<times> loopback" where
  "loopback_SendText text m = (None, m)"

definition loopback_RecvInterrupted :: "bool option" where
  "loopback_RecvInterrupted = Some False"

definition loopback_SupportsInterruption :: bool where
  "loopback_SupportsInterruption = False"

definition loopback_HandleInterrupted :: "loopback \<Rightarrow> go_error option \<times> loopback" where
  "loopback_HandleInterrupted m = (None, m)"

datatype loopback_call = LbSendAudio "i16 list" | LbSendText string | LbRecv | LbRecvTranscript | LbHandleInterrupted

fun loopback_step :: "loopback \<Rightarrow> loopback_call \<Rightarrow> i16 list option \<times> loopback" where
  "loopback_step m (LbSendAudio pcm) = (None, snd (loopback_SendAudio pcm m))"
| "loopback_step m (LbSendText text) = (None, snd (loopback_SendText text m))"
| "loopback_step m LbRecv = loopback_Recv m"
| "loopback_step m LbRecvTranscript = (None, snd (loopback_RecvTranscript m))"
| "loopback_step m LbHandleInterrupted = (None, snd (loopback_HandleInterrupted m))"

definition heard_frames :: "i16 list option list \<Rightarrow> i16 list" where
  "heard_frames os = concat (List.map_filter (\<lambda>x. x) os)"

lemma heard_frames_simps [simp]:
  "heard_frames [] = []" "heard_frames (None # os) = heard_frames os" "heard_frames (Some f # os) = f @ heard_frames os"
  by (simp_all add: heard_frames_def map_filter_simps)

lemma loopback_frames_count: "loopback_frames k (m\<lparr>lb_n := n\<rparr>) = loopback_frames k m"
proof (induction k arbitrary: m)
  case (Suc k)
  have swap: "m\<lparr>lb_n := n, lb_pos := p\<rparr> = m\<lparr>lb_pos := p, lb_n := n\<rparr>" for m :: loopback and p by (cases m) simp
  have "loopback_fill j (m\<lparr>lb_n := n\<rparr>) = map_prod id (\<lambda>m. m\<lparr>lb_n := n\<rparr>) (loopback_fill j m)" for j m
  proof (induction j arbitrary: m)
    case (Suc j)
    show ?case using Suc[of "m\<lparr>lb_pos := (lb_pos m + 1) mod length (lb_tone m)\<rparr>"]
      by (simp add: swap split_beta Let_def)
  qed simp
  then show ?case using Suc by (simp add: loopback_Recv_def split_beta Let_def)
qed simp

text \<open>So whatever the client sends or asks in between, the audio it is sent is the tone without a seam.\<close>

lemma loopback_undisturbed:
  assumes "collect loopback_step m calls = (os, m')"
  shows "\<not> lb_closed m \<longrightarrow> heard_frames os = loopback_frames (length (filter ((=) LbRecv) calls)) m"
  using assms
proof (induction calls arbitrary: m os)
  case (Cons c calls)
  obtain r m1 where r: "loopback_step m c = (r, m1)" by fastforce
  define os1 where "os1 = fst (collect loopback_step m1 calls)"
  have os1: "collect loopback_step m1 calls = (os1, m')" "os = r # os1"
    using Cons.prems r by (auto simp: os1_def split_beta Let_def)
  have fill: "lb_closed (snd (loopback_fill k m)) = lb_closed m" for k and m :: loopback
    by (induction k arbitrary: m) (simp_all add: split_beta Let_def)
  show ?case
  proof (cases c)
    case LbRecv
    then show ?thesis using Cons.IH[OF os1(1)] os1(2) r fill[of frameSamples m]
      by (auto simp: loopback_Recv_def split_beta Let_def)
  next
    case LbRecvTranscript
    then show ?thesis using Cons.IH[OF os1(1)] os1(2) r
      by (auto simp: loopback_RecvTranscript_def loopback_frames_count)
  qed (use Cons.IH[OF os1(1)] os1(2) r in
    \<open>auto simp: loopback_SendAudio_def loopback_SendText_def loopback_HandleInterrupted_def\<close>)
qed simp

end
