(* ===== verification/Bridge.thy ===== *)
theory Bridge
  imports Pumps
begin

text \<open>
  The wiring of one bridge, the callbacks that \<open>Hub.Serve\<close> (\<open>internal/rtc/bridge.go\<close>) installs on the peer
  connection: which goroutines run for which tracks and data channels, what is replayed when, and when
  they end; the two wrappers that set a codec up before a pump starts; and the WebRTC configuration of
  \<open>NewHub\<close>.  The callbacks of the WebRTC library are the events of a machine.
\<close>

subsection \<open>The API\<close>

record media_config =
  mc_MimeType :: string
  mc_ClockRate :: nat
  mc_Channels :: nat
  mc_SDPFmtpLine :: string
  mc_PayloadType :: nat
  mc_rewrite :: "(string list) option"

definition opusFmtp :: string where
  "opusFmtp = ''minptime=10;useinbandfec=1;usedtx=1;maxaveragebitrate=16000''"

text \<open>What \<open>NewHub\<close> sets up, given the outcome of its two registrations.\<close>

definition hub_api ::
  "go_error option \<Rightarrow> go_error option \<Rightarrow> string \<Rightarrow> go_error + media_config" where
  "hub_api registerCodec registerInterceptors publicIP =
     (case registerCodec of
        Some e \<Rightarrow> Inl e
      | None \<Rightarrow>
         (case registerInterceptors of
            Some e \<Rightarrow> Inl e
          | None \<Rightarrow>
              Inr \<lparr>mc_MimeType = ''audio/opus'', mc_ClockRate = 48000, mc_Channels = 2,
                   mc_SDPFmtpLine = opusFmtp, mc_PayloadType = 111,
                   mc_rewrite = (if publicIP \<noteq> '''' then Some [publicIP] else None)\<rparr>))"

subsection \<open>Pumps with their codecs\<close>

text \<open>Without an encoder the pump ends before its loop: nothing is recorded and no fault is reported.\<close>

definition writeOutbound ::
  "'e option \<Rightarrow> 'e outbound_env \<Rightarrow> bool \<Rightarrow> go_error \<Rightarrow> i16 list list \<Rightarrow> metrics \<Rightarrow> 'e outbound option" where
  "writeOutbound newEncoder env report err chunks m =
     (case newEncoder of
        None \<Rightarrow> None
      | Some enc \<Rightarrow> Some (writeOutboundLoop env report err chunks (pump_start enc m)))"

definition readInbound ::
  "'d option \<Rightarrow> ('d \<Rightarrow> bytes \<Rightarrow> i16 list option \<times> 'd) \<Rightarrow> (nat \<Rightarrow> bool) \<Rightarrow> bytes list \<Rightarrow> i16 list list" where
  "readInbound newDecoder decode takes pkts =
     (case newDecoder of None \<Rightarrow> [] | Some d \<Rightarrow> readInboundLoop decode takes d pkts 0)"

subsection \<open>The callbacks\<close>

text \<open>The goroutines of a bridge: a track is a number, a data channel too.\<close>

datatype pump =
  DrainRTCP | InboundPump nat | OutboundPump | InterruptionMonitor | TranscriptPump nat | ToolPump nat

text \<open>
  \<open>br_log\<close> is what the bridge starts and replays, in order; \<open>br_waiting\<close> the channels whose \<open>OnOpen\<close> has
  been set.
\<close>

datatype bridge_act = Go pump | Replay nat "line list"

record bridge =
  br_caps :: capabilities
  br_replay :: "line list"
  br_trackOnce :: bool
  br_replayOnce :: bool
  br_waiting :: "nat list"
  br_log :: "bridge_act list"

definition bridge_start :: "capabilities \<Rightarrow> line list \<Rightarrow> bridge" where
  "bridge_start caps replay =
     \<lparr>br_caps = caps, br_replay = replay, br_trackOnce = False, br_replayOnce = False, br_waiting = [],
      br_log = [Go DrainRTCP, Go OutboundPump] @
        (if cp_Interrupter caps then [Go InterruptionMonitor] else [])\<rparr>"

datatype track_kind = AudioTrack | VideoTrack

definition on_track :: "nat \<Rightarrow> track_kind \<Rightarrow> bridge \<Rightarrow> bridge" where
  "on_track t kind b =
     (if kind \<noteq> AudioTrack then b
      else if br_trackOnce b then b
      else b\<lparr>br_trackOnce := True, br_log := br_log b @ [Go (InboundPump t)]\<rparr>)"

text \<open>The closure \<open>start\<close> of a data channel.\<close>

definition channel_start :: "nat \<Rightarrow> bridge \<Rightarrow> bridge" where
  "channel_start dc b =
     (let b1 = (if cp_Transcriber (br_caps b)
                then (let b0 = (if br_replayOnce b then b
                                else b\<lparr>br_replayOnce := True, br_log := br_log b @ [Replay dc (br_replay b)]\<rparr>) in
                      b0\<lparr>br_log := br_log b0 @ [Go (TranscriptPump dc)]\<rparr>)
                else b) in
      if cp_Tools (br_caps b1) then b1\<lparr>br_log := br_log b1 @ [Go (ToolPump dc)]\<rparr> else b1)"

definition on_data_channel :: "nat \<Rightarrow> bool \<Rightarrow> bridge \<Rightarrow> bridge" where
  "on_data_channel dc isOpen b =
     (if cp_Transcriber (br_caps b) \<or> cp_Tools (br_caps b)
      then (if isOpen then channel_start dc b else b\<lparr>br_waiting := dc # br_waiting b\<rparr>)
      else b)"

definition on_open :: "nat \<Rightarrow> bridge \<Rightarrow> bridge" where
  "on_open dc b =
     (if dc \<in> set (br_waiting b)
      then channel_start dc (b\<lparr>br_waiting := remove1 dc (br_waiting b)\<rparr>) else b)"

datatype bridge_event = OnTrack nat track_kind | OnDataChannel nat bool | OnOpen nat

fun bridge_step :: "bridge \<Rightarrow> bridge_event \<Rightarrow> bridge" where
  "bridge_step b (OnTrack t kind) = on_track t kind b"
| "bridge_step b (OnDataChannel dc isOpen) = on_data_channel dc isOpen b"
| "bridge_step b (OnOpen dc) = on_open dc b"

subsection \<open>One microphone, one replay\<close>

definition inbound_tracks :: "bridge_act list \<Rightarrow> nat list" where
  "inbound_tracks acts = concat (map (\<lambda>a. case a of Go (InboundPump t) \<Rightarrow> [t] | _ \<Rightarrow> []) acts)"

definition replays :: "bridge_act list \<Rightarrow> (nat \<times> line list) list" where
  "replays acts = concat (map (\<lambda>a. case a of Replay dc ls \<Rightarrow> [(dc, ls)] | _ \<Rightarrow> []) acts)"

definition transcript_channels :: "bridge_act list \<Rightarrow> nat list" where
  "transcript_channels acts = concat (map (\<lambda>a. case a of Go (TranscriptPump dc) \<Rightarrow> [dc] | _ \<Rightarrow> []) acts)"

definition tool_channels :: "bridge_act list \<Rightarrow> nat list" where
  "tool_channels acts = concat (map (\<lambda>a. case a of Go (ToolPump dc) \<Rightarrow> [dc] | _ \<Rightarrow> []) acts)"

lemmas act_views = inbound_tracks_def replays_def transcript_channels_def tool_channels_def

lemma act_views_append [simp]:
  "inbound_tracks (xs @ ys) = inbound_tracks xs @ inbound_tracks ys" "replays (xs @ ys) = replays xs @ replays ys"
  "transcript_channels (xs @ ys) = transcript_channels xs @ transcript_channels ys"
  "tool_channels (xs @ ys) = tool_channels xs @ tool_channels ys"
  by (simp_all add: act_views)

lemma act_views_Cons [simp]:
  "inbound_tracks (a # acts) = (case a of Go (InboundPump t) \<Rightarrow> [t] | _ \<Rightarrow> []) @ inbound_tracks acts"
  "replays (a # acts) = (case a of Replay dc ls \<Rightarrow> [(dc, ls)] | _ \<Rightarrow> []) @ replays acts"
  "transcript_channels (a # acts) = (case a of Go (TranscriptPump dc) \<Rightarrow> [dc] | _ \<Rightarrow> []) @ transcript_channels acts"
  "tool_channels (a # acts) = (case a of Go (ToolPump dc) \<Rightarrow> [dc] | _ \<Rightarrow> []) @ tool_channels acts"
  "inbound_tracks [] = []" "replays [] = []" "transcript_channels [] = []" "tool_channels [] = []"
  by (simp_all add: act_views)

text \<open>The channels a run opens, in the order in which they open.\<close>

fun opened :: "nat list \<Rightarrow> bridge_event list \<Rightarrow> nat list" where
  "opened w [] = []"
| "opened w (OnTrack t kind # es) = opened w es"
| "opened w (OnDataChannel dc isOpen # es) = (if isOpen then dc # opened w es else opened (dc # w) es)"
| "opened w (OnOpen dc # es) = (if dc \<in> set w then dc # opened (remove1 dc w) es else opened w es)"

fun audio_tracks :: "bridge_event list \<Rightarrow> nat list" where
  "audio_tracks [] = []"
| "audio_tracks (OnTrack t AudioTrack # es) = t # audio_tracks es"
| "audio_tracks (_ # es) = audio_tracks es"


lemma channel_start_log:
  "br_log (channel_start dc b) = br_log b @
     (if cp_Transcriber (br_caps b)
      then (if br_replayOnce b then [] else [Replay dc (br_replay b)]) @ [Go (TranscriptPump dc)] else []) @
     (if cp_Tools (br_caps b) then [Go (ToolPump dc)] else [])"
  by (simp add: channel_start_def Let_def)

lemma channel_start_simps [simp]:
  "br_caps (channel_start dc b) = br_caps b" "br_replay (channel_start dc b) = br_replay b"
  "br_trackOnce (channel_start dc b) = br_trackOnce b" "br_waiting (channel_start dc b) = br_waiting b"
  "br_replayOnce (channel_start dc b) = (br_replayOnce b \<or> cp_Transcriber (br_caps b))"
  by (simp_all add: channel_start_def Let_def)

lemma bridge_step_fixed [simp]:
  "br_caps (bridge_step b e) = br_caps b" "br_replay (bridge_step b e) = br_replay b"
  by (cases e; simp add: on_track_def on_data_channel_def on_open_def)+

lemma bridge_run_fixed [simp]:
  "br_caps (run bridge_step b es) = br_caps b" "br_replay (run bridge_step b es) = br_replay b"
  by (induction es arbitrary: b) simp_all

lemma inbound_run:
  "inbound_tracks (br_log (run bridge_step b es)) =
     inbound_tracks (br_log b) @ (if br_trackOnce b then [] else take 1 (audio_tracks es))"
proof (induction es arbitrary: b)
  case (Cons e es)
  show ?case
  proof (cases e)
    case (OnTrack t kind)
    then show ?thesis by (cases kind) (auto simp: Cons.IH on_track_def)
  qed (auto simp: Cons.IH on_data_channel_def on_open_def channel_start_log)
qed simp

lemma channels_run:
  fixes b :: bridge and es :: "bridge_event list"
  assumes "cp_Transcriber (br_caps b) \<or> cp_Tools (br_caps b)"
  defines "chans \<equiv> opened (br_waiting b) es"
  shows "transcript_channels (br_log (run bridge_step b es)) =
      transcript_channels (br_log b) @ (if cp_Transcriber (br_caps b) then chans else []) \<and>
    tool_channels (br_log (run bridge_step b es)) =
      tool_channels (br_log b) @ (if cp_Tools (br_caps b) then chans else []) \<and>
    replays (br_log (run bridge_step b es)) = replays (br_log b) @
      (if cp_Transcriber (br_caps b) \<and> \<not> br_replayOnce b
       then map (\<lambda>dc. (dc, br_replay b)) (take 1 chans) else [])"
  using assms(1) unfolding chans_def
proof (induction es arbitrary: b)
  case (Cons e es)
  note IH = Cons.IH[of "bridge_step b e", simplified, OF Cons.prems]
  show ?case
  proof (cases e)
    case (OnTrack t kind)
    then show ?thesis using IH Cons.prems by (simp add: on_track_def split: if_splits)
  next
    case (OnDataChannel dc isOpen)
    then show ?thesis using IH Cons.prems
      by (cases isOpen) (simp_all add: on_data_channel_def channel_start_log)
  next
    case (OnOpen dc)
    then show ?thesis using IH Cons.prems
      by (cases "dc \<in> set (br_waiting b)") (simp_all add: on_open_def channel_start_log)
  qed
qed simp

text \<open>The replay goes out before the transcripts of any channel.\<close>

fun replay_first :: "bridge_act list \<Rightarrow> bool" where
  "replay_first [] = True"
| "replay_first (Replay dc ls # acts) = True"
| "replay_first (Go (TranscriptPump dc) # acts) = False"
| "replay_first (_ # acts) = replay_first acts"

lemma replay_first_append:
  "replay_first (xs @ ys) \<longleftrightarrow> replay_first xs \<and> (replays xs \<noteq> [] \<or> replay_first ys)"
  by (induction xs rule: replay_first.induct) auto

definition bridge_ok :: "bridge \<Rightarrow> bool" where
  "bridge_ok b = (replay_first (br_log b) \<and> (br_replayOnce b \<longleftrightarrow> replays (br_log b) \<noteq> []))"

lemma channel_start_ok: "bridge_ok b \<Longrightarrow> bridge_ok (channel_start dc b)"
  by (auto simp: bridge_ok_def channel_start_log replay_first_append)

lemma bridge_step_ok: "bridge_ok b \<Longrightarrow> bridge_ok (bridge_step b e)"
  by (cases e) (auto simp: on_track_def on_data_channel_def on_open_def replay_first_append
      bridge_ok_def[of "b\<lparr>br_waiting := w\<rparr>" for w] bridge_ok_def[of "b\<lparr>br_trackOnce := True, br_log := l\<rparr>" for l]
      bridge_ok_def[of b] intro!: channel_start_ok)

interpretation bridge: machine bridge_step bridge_ok
  by unfold_locales (rule bridge_step_ok)

text \<open>
  C12: One microphone, one replay.  Whatever tracks and data channels the browser opens, and in whatever
  order: exactly the first audio track is read; when the model transcribes, the missed lines are
  replayed exactly once, on the first channel that opens and before any transcript is sent; and every
  channel that opens gets one transcript pump and one tool pump, as far as the model has the capability,
  and no channel that never opens gets any.
\<close>

theorem bridge_callbacks:
  fixes caps :: capabilities and replay :: "line list" and es :: "bridge_event list"
  defines "acts \<equiv> br_log (run bridge_step (bridge_start caps replay) es)"
  shows "inbound_tracks acts = take 1 (audio_tracks es) \<and>
    transcript_channels acts = (if cp_Transcriber caps then opened [] es else []) \<and>
    tool_channels acts = (if cp_Tools caps then opened [] es else []) \<and>
    replays acts = (if cp_Transcriber caps then map (\<lambda>dc. (dc, replay)) (take 1 (opened [] es)) else []) \<and>
    replay_first acts"
proof -
  let ?b = "bridge_start caps replay"
  have b: "br_caps ?b = caps" "br_waiting ?b = []" "\<not> br_replayOnce ?b" "\<not> br_trackOnce ?b" "br_replay ?b = replay"
    "inbound_tracks (br_log ?b) = []" "transcript_channels (br_log ?b) = []" "tool_channels (br_log ?b) = []"
    "replays (br_log ?b) = []" "bridge_ok ?b"
    by (simp_all add: bridge_start_def act_views bridge_ok_def)
  have quiet: "transcript_channels (br_log (run bridge_step c es)) = transcript_channels (br_log c) \<and>
      tool_channels (br_log (run bridge_step c es)) = tool_channels (br_log c) \<and>
      replays (br_log (run bridge_step c es)) = replays (br_log c)"
    if "\<not> cp_Transcriber (br_caps c)" "\<not> cp_Tools (br_caps c)" for c
    using that
  proof (induction es arbitrary: c)
    case (Cons e es)
    then show ?case
      by (cases e) (simp_all add: on_track_def on_data_channel_def on_open_def channel_start_log)
  qed simp
  have "bridge_ok (run bridge_step ?b es)" by (rule bridge.run_inv[OF b(10)])
  then show ?thesis
    using inbound_run[of ?b es] channels_run[of ?b es] quiet[of ?b] b
    by (cases "cp_Transcriber caps \<or> cp_Tools caps") (auto simp: acts_def bridge_ok_def)
qed

text \<open>So two channels share one source of transcripts: each line reaches only one of them.\<close>

lemma two_channels_compete:
  assumes "cp_Transcriber caps"
  shows "transcript_channels (br_log (run bridge_step (bridge_start caps []) [OnDataChannel 1 True, OnDataChannel 2 True])) =
    [1, 2]"
  using assms by (simp add: bridge_start_def on_data_channel_def channel_start_log act_views)

end
