(* ===== verification/Closeall.thy ===== *)
theory Closeall
  imports Hub "HOL-Library.Multiset"
begin

text \<open>
  The graceful shutdown of the hub (\<open>CloseAll\<close> of \<open>internal/rtc/bridge.go\<close>) with what it waits for: the
  \<open>Close\<close> of every model, which may never return, and the goroutines of the sessions, for which
  \<open>h.wg.Wait()\<close> waits.  The event \<open>Shutdown\<close> of theory Hub is the loop when every \<open>Close\<close> returns.
\<close>

subsection \<open>The loop and the wait\<close>

text \<open>
  \<open>Stuck a\<close>: the \<open>Close\<close> of the model of scope \<open>a\<close> does not return, and the loop stands there.
  \<open>Waiting\<close>: the loop is over and \<open>wg.Wait\<close> does not return.
\<close>

datatype 'l shutdown = ShutdownPanic | Stuck nat "'l hub" | Waiting "'l hub" | Finished "'l hub"

text \<open>
  \<open>closes a\<close> says whether the \<open>Close\<close> of the model of scope \<open>a\<close> returns.  A scope that is closed already
  is skipped by its \<open>Once\<close>; the context is cancelled before the model is closed.
\<close>

fun close_sessions :: "(nat \<Rightarrow> bool) \<Rightarrow> time \<Rightarrow> nat list \<Rightarrow> 'l hub \<Rightarrow> 'l shutdown + 'l hub" where
  "close_sessions closes now [] h = Inr h"
| "close_sessions closes now (a # as) h =
     (if \<not> ss_cleanup (sess_at h a) then Inl ShutdownPanic
      else if sc_done (hb_scopes h ! a) then close_sessions closes now as h
      else if closes a then close_sessions closes now as (scope_Close now a h)
      else Inl (Stuck a (upd_scope a (\<lambda>sc. sc\<lparr>sc_cancelled := True\<rparr>) h)))"

text \<open>
  \<open>order\<close> is the snapshot of the registry, in the order in which Go iterates over the map.  Every scope
  has goroutines in the wait group from the time it is opened; the one that drains its RTCP runs until
  the peer connection is closed.  \<open>ends a\<close> says whether all goroutines of scope \<open>a\<close> end once it is closed.
\<close>

definition hub_CloseAll ::
  "(nat \<Rightarrow> bool) \<Rightarrow> (nat \<Rightarrow> bool) \<Rightarrow> time \<Rightarrow> nat list \<Rightarrow> 'l hub \<Rightarrow> 'l shutdown" where
  "hub_CloseAll closes ends now order h =
     (case close_sessions closes now order h of
        Inl r \<Rightarrow> r
      | Inr h' \<Rightarrow>
          (if list_all (\<lambda>a. sc_done (hb_scopes h' ! a) \<and> ends a) [0..<length (hb_scopes h')]
           then Finished h' else Waiting h'))"

subsection \<open>One session of the loop\<close>

definition registered :: "'l hub \<Rightarrow> nat \<Rightarrow> bool" where
  "registered h a \<longleftrightarrow>
     a < length (hb_scopes h) \<and> ss_cleanup (sess_at h a) \<and> \<not> sc_done (hb_scopes h ! a) \<and>
     (ss_id (sess_at h a), a) \<in> set (hb_conns h)"

lemma conn_registered:
  assumes "hub_ok h" and "(sid, a) \<in> set (hb_conns h)"
  shows "registered h a" and "ss_id (sess_at h a) = sid"
  using hub_ok_conn[OF assms] hub_ok_scope[OF assms(1), of a] assms(2)
  by (auto simp: registered_def conn_ok_def scope_ok_def)

lemma scope_Close_registered:
  assumes "hub_ok h" and "registered h a"
  shows "set (hb_conns (scope_Close now a h)) = {p \<in> set (hb_conns h). snd p \<noteq> a}"
    and "b \<noteq> a \<Longrightarrow> hb_scopes (scope_Close now a h) ! b = hb_scopes h ! b"
    and "registered h b \<Longrightarrow> b \<noteq> a \<Longrightarrow> registered (scope_Close now a h) b"
    and "sc_done (hb_scopes (scope_Close now a h) ! a)"
proof -
  note r = assms(2)[unfolded registered_def]
  note at = scope_Close_simps[of a h now]
  have com: "sc_committed (hb_scopes h ! a)"
    using hub_ok_scope[OF assms(1), of a] r by (simp add: scope_ok_def)
  have eq: "ss_id (sess_at h a) = sid \<longleftrightarrow> b = a" if "(sid, b) \<in> set (hb_conns h)" for sid b
    using conn_registered[OF assms(1) that] that r hub_ok_distinct[OF assms(1)]
    by (metis eq_key_imp_eq_value)
  show c: "set (hb_conns (scope_Close now a h)) = {p \<in> set (hb_conns h). snd p \<noteq> a}"
    using r com eq eq[of "ss_id (sess_at h a)"] by (auto simp: at AList.delete_eq)
  show s: "b \<noteq> a \<Longrightarrow> hb_scopes (scope_Close now a h) ! b = hb_scopes h ! b" for b using r by (simp add: at)
  show "registered h b \<Longrightarrow> b \<noteq> a \<Longrightarrow> registered (scope_Close now a h) b"
    by (simp add: registered_def s c)
  show "sc_done (hb_scopes (scope_Close now a h) ! a)" using r by (simp add: at)
qed

subsection \<open>The whole loop\<close>

text \<open>The registry and the scopes after the loop has closed the scopes of a list.\<close>

definition closed_scopes :: "nat list \<Rightarrow> 'l hub \<Rightarrow> 'l hub \<Rightarrow> bool" where
  "closed_scopes as h h' \<longleftrightarrow>
     hub_ok h' \<and> length (hb_scopes h') = length (hb_scopes h) \<and>
     set (hb_conns h') = {p \<in> set (hb_conns h). snd p \<notin> set as} \<and>
     (\<forall>b \<in> set as. sc_done (hb_scopes h' ! b)) \<and>
     (\<forall>b. b \<notin> set as \<longrightarrow> hb_scopes h' ! b = hb_scopes h ! b)"

lemma close_sessions_all:
  assumes "hub_ok h" and "\<forall>a \<in> set as. registered h a \<and> closes a" and "distinct as"
  shows "\<exists>h'. close_sessions closes now as h = Inr h' \<and> closed_scopes as h h' \<and>
    run hub_step (Some h) (map (ConnectionEnd now) as) = Some h' \<and>
    close_sessions closes now (as @ bs) h = close_sessions closes now bs h'"
  using assms
proof (induction as arbitrary: h)
  case (Cons a as)
  let ?h = "scope_Close now a h"
  have a: "registered h a" "closes a" "a \<notin> set as" using Cons.prems by auto
  note c = scope_Close_registered[OF Cons.prems(1) a(1), where now = now]
  have l: "a < length (hb_scopes h)" "ss_cleanup (sess_at h a)" "\<not> sc_done (hb_scopes h ! a)"
    using a(1) by (simp_all add: registered_def)
  have "hub_ok ?h" using Cons.prems(1) l(1) by (rule scope_Close_ok)
  moreover have "\<forall>b \<in> set as. registered ?h b \<and> closes b" using Cons.prems(2) c(3) a(3) by fastforce
  ultimately obtain h' where h': "close_sessions closes now as ?h = Inr h'" "closed_scopes as ?h h'"
      "run hub_step (Some ?h) (map (ConnectionEnd now) as) = Some h'"
      "close_sessions closes now (as @ bs) ?h = close_sessions closes now bs h'"
    using Cons.IH[of ?h] Cons.prems(3) by auto
  have "closed_scopes (a # as) h h'"
    using h'(2) a(3) c(2)[of _] c(4) unfolding closed_scopes_def c(1) by auto
  then show ?case using h' l a(2) by (auto simp: cleanup_def)
qed (simp add: closed_scopes_def)

text \<open>The event \<open>Shutdown\<close> is this loop when every \<open>Close\<close> returns.\<close>

lemma shutdown_event:
  "CloseAll now h =
   (case close_sessions (\<lambda>a. True) now (map snd (hb_conns h)) h of Inl r \<Rightarrow> None | Inr h' \<Rightarrow> Some h')"
proof -
  have "fold (\<lambda>a acc. case acc of None \<Rightarrow> None | Some h' \<Rightarrow> cleanup now a h') as (Some h) =
      (case close_sessions (\<lambda>a. True) now as h of Inl r \<Rightarrow> None | Inr h' \<Rightarrow> Some h')" for as and h :: "'a hub"
    by (induction as arbitrary: h) (auto simp: cleanup_def fold_cleanup_None scope_Close_done)
  then show ?thesis by (simp add: CloseAll_def)
qed

lemma closed_once:
  assumes "hub_ok h" and "a < length (hb_scopes h)" and "sc_done (hb_scopes h ! a)"
  shows "sc_modelCloses (hb_scopes h ! a) = 1" and "sc_pcCloses (hb_scopes h ! a) = 1"
  using hub_ok_scope[OF assms(1,2)] assms(3) by (simp_all add: scope_ok_def)

lemma conns_distinct: "hub_ok h \<Longrightarrow> distinct (map snd (hb_conns h))"
proof -
  assume h: "hub_ok h"
  have "inj_on snd (set (hb_conns h))"
    using conn_registered(2)[OF h] by (intro inj_onI) (metis prod.collapse)
  then show ?thesis using hub_ok_distinct[OF h] by (simp add: distinct_map)
qed


subsection \<open>Graceful shutdown\<close>

lemma snapshot:
  assumes "hub_ok h" and "mset order = mset (map snd (hb_conns h))"
  shows "set order = snd ` set (hb_conns h)" and "distinct order" and "a \<in> set order \<Longrightarrow> registered h a"
proof -
  show s: "set order = snd ` set (hb_conns h)" using mset_eq_setD[OF assms(2)] by simp
  show "distinct order" using conns_distinct[OF assms(1)] assms(2) by (metis mset_eq_imp_distinct_iff)
  show "a \<in> set order \<Longrightarrow> registered h a" using conn_registered(1)[OF assms(1)] unfolding s by force
qed

lemma shutdown_returns:
  assumes "hub_ok h" and "mset order = mset (map snd (hb_conns h))" and "\<forall>a \<in> set order. closes a"
  shows "\<exists>h'. hub_CloseAll closes ends now order h =
      (if \<forall>b < length (hb_scopes h). (sc_done (hb_scopes h ! b) \<or> b \<in> set order) \<and> ends b
       then Finished h' else Waiting h') \<and>
    Count h' = 0 \<and>
    (\<forall>b \<in> set order. sc_done (hb_scopes h' ! b) \<and> sc_modelCloses (hb_scopes h' ! b) = 1 \<and>
       sc_pcCloses (hb_scopes h' ! b) = 1) \<and>
    (\<forall>b. b \<notin> set order \<longrightarrow> hb_scopes h' ! b = hb_scopes h ! b)"
proof -
  note snap = snapshot[OF assms(1,2)]
  obtain h' where h': "close_sessions closes now order h = Inr h'" "closed_scopes order h h'"
    using close_sessions_all[OF assms(1) _ snap(2), of closes now] assms(3) snap(3) by blast
  note c = h'(2)[unfolded closed_scopes_def]
  have "hb_conns h' = []" using c unfolding snap(1) by (metis (no_types, lifting) empty_Collect_eq imageI set_empty)
  moreover have "sc_done (hb_scopes h' ! b) \<longleftrightarrow> sc_done (hb_scopes h ! b) \<or> b \<in> set order" for b
    using c by (cases "b \<in> set order") auto
  then have "list_all (\<lambda>a. sc_done (hb_scopes h' ! a) \<and> ends a) [0..<length (hb_scopes h')] \<longleftrightarrow>
      (\<forall>b < length (hb_scopes h). (sc_done (hb_scopes h ! b) \<or> b \<in> set order) \<and> ends b)"
    using c by (auto simp: list_all_iff)
  moreover have "sc_done (hb_scopes h' ! b) \<and> sc_modelCloses (hb_scopes h' ! b) = 1 \<and>
      sc_pcCloses (hb_scopes h' ! b) = 1" if "b \<in> set order" for b
    using closed_once[of h' b] c that snap(3)[OF that] by (simp add: registered_def)
  ultimately show ?thesis using h'(1) c by (intro exI[of _ h']) (simp add: hub_CloseAll_def Count_def)
qed

lemma shutdown_stops:
  assumes "hub_ok h" and "mset order = mset (map snd (hb_conns h))"
    and "order = before @ a # rest" and "\<forall>b \<in> set before. closes b" and "\<not> closes a"
  shows "\<exists>h'. hub_CloseAll closes ends now order h = Stuck a h' \<and>
    (\<forall>b \<in> set before. sc_done (hb_scopes h' ! b) \<and> sc_modelCloses (hb_scopes h' ! b) = 1) \<and>
    sc_cancelled (hb_scopes h' ! a) \<and> \<not> sc_done (hb_scopes h' ! a) \<and>
    (\<forall>b \<in> set rest. hb_scopes h' ! b = hb_scopes h ! b \<and> \<not> sc_done (hb_scopes h' ! b)) \<and>
    set (hb_conns h') = {p \<in> set (hb_conns h). snd p = a \<or> snd p \<in> set rest}"
proof -
  note snap = snapshot[OF assms(1,2), unfolded assms(3)]
  obtain h1 where h1: "closed_scopes before h h1"
      "close_sessions closes now order h = close_sessions closes now (a # rest) h1"
    using close_sessions_all[OF assms(1), of before closes now "a # rest"] assms(4) snap(2,3) unfolding assms(3) by auto
  note c = h1(1)[unfolded closed_scopes_def]
  have same: "hb_scopes h1 ! b = hb_scopes h ! b" "\<not> sc_done (hb_scopes h ! b)" "ss_cleanup (sess_at h b)"
      "b < length (hb_scopes h)" "b \<notin> set before" if "b \<in> set (a # rest)" for b
    using c snap(2) snap(3)[of b] that by (auto simp: registered_def)
  let ?h = "upd_scope a (\<lambda>sc. sc\<lparr>sc_cancelled := True\<rparr>) h1"
  have "close_sessions closes now order h = Inl (Stuck a ?h)" using same[of a] assms(5) by (simp add: h1(2))
  then have out: "hub_CloseAll closes ends now order h = Stuck a ?h" by (simp add: hub_CloseAll_def)
  have other: "hb_scopes ?h ! b = hb_scopes h1 ! b" if "b \<noteq> a" for b
    using that by (simp add: upd_scope_def nth_list_update_neq)
  have na: "a \<notin> set rest" "a \<notin> set before" using snap(2) by auto
  then have "sc_done (hb_scopes ?h ! b) \<and> sc_modelCloses (hb_scopes ?h ! b) = 1" if "b \<in> set before" for b
    using that other[of b] closed_once[of h1 b] c snap(3)[of b] by (cases "b = a") (simp_all add: registered_def)
  moreover have "hb_scopes ?h ! b = hb_scopes h ! b \<and> \<not> sc_done (hb_scopes ?h ! b)" if "b \<in> set rest" for b
    using that na other[of b] same[of b] by (cases "b = a") auto
  moreover have "sc_cancelled (hb_scopes ?h ! a)" "\<not> sc_done (hb_scopes ?h ! a)" using c same[of a] by simp_all
  moreover have "set (hb_conns ?h) = {p \<in> set (hb_conns h). snd p = a \<or> snd p \<in> set rest}"
    using c snap(1,2) by (auto simp: image_iff)
  ultimately show ?thesis using out by blast
qed

text \<open>
  C11: Graceful shutdown, whatever the order in which Go iterates over the registry, on a well-formed hub:
  \<open>CloseAll\<close> does not panic.  If the \<open>Close\<close> of every registered model returns, it empties the registry
  and closes the model and the peer connection of every registered session exactly once, and it returns
  exactly when no other session is open and all goroutines end.  If not, it stops at the first model
  whose \<open>Close\<close> does not return: the sessions before it are closed, that one is only cancelled, and it and
  the sessions after it stay registered, the latter untouched.
\<close>

theorem shutdown_closes_or_stops:
  assumes "hub_ok h" and "mset order = mset (map snd (hb_conns h))"
  shows
    "((\<forall>a \<in> set order. closes a) \<longrightarrow>
      (\<exists>h'. hub_CloseAll closes ends now order h =
         (if \<forall>b < length (hb_scopes h). (sc_done (hb_scopes h ! b) \<or> b \<in> set order) \<and> ends b
          then Finished h' else Waiting h') \<and>
        Count h' = 0 \<and>
        (\<forall>b \<in> set order. sc_done (hb_scopes h' ! b) \<and> sc_modelCloses (hb_scopes h' ! b) = 1 \<and>
           sc_pcCloses (hb_scopes h' ! b) = 1) \<and>
        (\<forall>b. b \<notin> set order \<longrightarrow> hb_scopes h' ! b = hb_scopes h ! b))) \<and>
     (\<forall>before a rest. order = before @ a # rest \<longrightarrow> (\<forall>b \<in> set before. closes b) \<longrightarrow> \<not> closes a \<longrightarrow>
      (\<exists>h'. hub_CloseAll closes ends now order h = Stuck a h' \<and>
        (\<forall>b \<in> set before. sc_done (hb_scopes h' ! b) \<and> sc_modelCloses (hb_scopes h' ! b) = 1) \<and>
        sc_cancelled (hb_scopes h' ! a) \<and> \<not> sc_done (hb_scopes h' ! a) \<and>
        (\<forall>b \<in> set rest. hb_scopes h' ! b = hb_scopes h ! b \<and> \<not> sc_done (hb_scopes h' ! b)) \<and>
        set (hb_conns h') = {p \<in> set (hb_conns h). snd p = a \<or> snd p \<in> set rest}))"
  using shutdown_returns[OF assms] shutdown_stops[OF assms] by blast

definition two_calls :: "unit hub" where
  "two_calls = the (run hub_step (Some NewHub)
     [Open 0 demo_info, Commit 0, Open 1 (demo_info\<lparr>in_ID := ''t''\<rparr>), Commit 1])"

lemma two_calls_eval:
  "hub_ok two_calls" "map snd (hb_conns two_calls) = [0, 1]" "length (hb_scopes two_calls) = 2"
  by (simp_all add: two_calls_def newSessionScope_def new_session_def NewHub_def scope_commit_def hub_add_def upd_scope_def
      Let_def demo_info_def hub_ok_def conn_ok_def scope_ok_def less_Suc_eq)

theorem shutdown_closes_or_stops_witness:
  "(\<exists>h'. hub_CloseAll (\<lambda>a. True) (\<lambda>a. True) 9 [1, 0] two_calls = Finished h' \<and> Count h' = 0) \<and>
   (\<exists>h'. hub_CloseAll (\<lambda>a. a = 1) (\<lambda>a. True) 9 [1, 0] two_calls = Stuck 0 h' \<and> sc_done (hb_scopes h' ! 1) \<and>
      \<not> sc_done (hb_scopes h' ! 0))"
proof -
  have m: "mset [1, 0] = mset (map snd (hb_conns two_calls))" by (simp add: two_calls_eval)
  have all: "\<forall>b < length (hb_scopes two_calls). (sc_done (hb_scopes two_calls ! b) \<or> b \<in> set [1, 0]) \<and> True"
    by (auto simp: two_calls_eval less_Suc_eq numeral_2_eq_2)
  note t = shutdown_closes_or_stops[OF two_calls_eval(1) m]
  have "\<exists>h'. hub_CloseAll (\<lambda>a. True) (\<lambda>a. True) 9 [1, 0] two_calls = Finished h' \<and> Count h' = 0"
    using t[of "\<lambda>a. True" "\<lambda>a. True" 9, unfolded if_P[OF all]] by auto
  moreover have "\<exists>h'. hub_CloseAll (\<lambda>a. a = 1) (\<lambda>a. True) 9 [1, 0] two_calls = Stuck 0 h' \<and>
      sc_done (hb_scopes h' ! 1) \<and> \<not> sc_done (hb_scopes h' ! 0)"
    using conjunct2[OF t[of "\<lambda>a. a = 1" "\<lambda>a. True" 9], rule_format, of "[1]" 0 "[]"] by auto
  ultimately show ?thesis by blast
qed

subsection \<open>Limits\<close>

text \<open>
  Of the two sessions set up with one id (lemma \<open>second_session_unregistered\<close>), the one that is left is
  not in the registry: nobody closes it, and \<open>wg.Wait\<close> waits for its goroutines.
\<close>

lemma unregistered_session_waits:
  assumes "hub_ok h" and "b < length (hb_scopes h)" and "\<not> sc_done (hb_scopes h ! b)"
    and "\<forall>sid. (sid, b) \<notin> set (hb_conns h)" and "mset order = mset (map snd (hb_conns h))"
    and "\<forall>a \<in> set order. closes a"
  shows "\<exists>h'. hub_CloseAll closes ends now order h = Waiting h'"
proof -
  have "b \<notin> set order" using snapshot(1)[OF assms(1,5)] assms(4) by auto
  then have "\<not> (\<forall>b < length (hb_scopes h). (sc_done (hb_scopes h ! b) \<or> b \<in> set order) \<and> ends b)"
    using assms(2,3) by blast
  from shutdown_returns[OF assms(1,5,6), of ends now, unfolded if_not_P[OF this]] show ?thesis by blast
qed

end
