(* ===== verification/Access.thy ===== *)
theory Access
  imports Transcript
begin

text \<open>
  Who is calling and how often: \<open>internal/auth/auth.go\<close>, \<open>internal/ratelimit/ratelimit.go\<close> and the
  client address of \<open>internal/offer/handler.go\<close>.  A token verifier and the Redis server are
  parameters; the script the limiter runs there is part of the source and is modelled over Redis'
  two commands.
\<close>

subsection \<open>Identity\<close>

type_synonym token_verifier = "string \<Rightarrow> go_error + UserID"

text \<open>\<open>bearer\<close>: the value of the Authorization header is the argument.\<close>

definition bearer :: "string \<Rightarrow> string" where
  "bearer h =
     (let p = ''Bearer '' in
      if length p < length h \<and> map lower_char (take (length p) h) = map lower_char p
      then trim_space (drop (length p) h) else '''')"

text \<open>An absent authenticator or verifier makes everybody anonymous.\<close>

definition Authenticator_UserID :: "token_verifier option option \<Rightarrow> string \<Rightarrow> UserID" where
  "Authenticator_UserID a authorization =
     (case a of
        None \<Rightarrow> ''''
      | Some None \<Rightarrow> ''''
      | Some (Some v) \<Rightarrow>
          (let tok = bearer authorization in
           if tok = '''' then ''''
           else (case v tok of Inl err \<Rightarrow> '''' | Inr uid \<Rightarrow> uid)))"

definition DevVerifier_Verify :: token_verifier where
  "DevVerifier_Verify token = Inr token"

text \<open>
  Identity never blocks a call and is never invented: the resolved user is anonymous unless a
  verifier is configured, the request carries a bearer token, and that verifier accepts exactly this
  token for that user.
\<close>

theorem identity_only_from_verifier:
  assumes "\<not> Anonymous (Authenticator_UserID a authorization)"
  shows "\<exists>v tok. a = Some (Some v) \<and> tok \<noteq> '''' \<and> tok = bearer authorization \<and>
    v tok = Inr (Authenticator_UserID a authorization)"
  using assms
  by (auto simp: Authenticator_UserID_def Anonymous_def Let_def split: option.splits sum.splits if_splits)

theorem identity_only_from_verifier_witness:
  "Authenticator_UserID (Some (Some DevVerifier_Verify)) ''bEaReR  u1'' = ''u1'' \<and>
   (\<exists>tok. tok \<noteq> '''' \<and> tok = bearer ''bEaReR  u1'')"
proof -
  have e: "Authenticator_UserID (Some (Some DevVerifier_Verify)) ''bEaReR  u1'' = ''u1''"
    by (simp add: Authenticator_UserID_def bearer_def DevVerifier_Verify_def Let_def lower_char_def
        trim_space_def white_space_def)
  then have "\<not> Anonymous (Authenticator_UserID (Some (Some DevVerifier_Verify)) ''bEaReR  u1'')"
    by (simp add: Anonymous_def)
  from identity_only_from_verifier[OF this] e show ?thesis by blast
qed

subsection \<open>Rate limit\<close>

text \<open>
  Redis: the two commands the script calls, on a server state \<open>'r\<close>, and whether the round trip fails.
\<close>

record 'r redis =
  rd_INCR :: "string \<Rightarrow> 'r \<Rightarrow> int \<times> 'r"
  rd_EXPIRE :: "string \<Rightarrow> int \<Rightarrow> 'r \<Rightarrow> 'r"

definition incrExpire :: "'r redis \<Rightarrow> string \<Rightarrow> int \<Rightarrow> 'r \<Rightarrow> int \<times> 'r" where
  "incrExpire rdb key ttl r =
     (let (n, r1) = rd_INCR rdb key r in
      if n = 1 then (n, rd_EXPIRE rdb key ttl r1) else (n, r1))"

record 'r limiter =
  lm_rdb :: "'r redis option"
  lm_max :: int
  lm_window :: duration

definition Limiter_New :: "string \<Rightarrow> 'r redis \<Rightarrow> int \<Rightarrow> duration \<Rightarrow> 'r limiter" where
  "Limiter_New addr client limit window =
     (if addr = '''' then \<lparr>lm_rdb = None, lm_max = 0, lm_window = 0\<rparr>
      else \<lparr>lm_rdb = Some client, lm_max = limit, lm_window = window\<rparr>)"

text \<open>
  \<open>failure\<close> is the error of the round trip, if it fails.  \<open>int(window.Seconds())\<close> drops the fraction of a
  second (the quotient of non-negative windows).
\<close>

definition Limiter_Allow ::
  "'r limiter \<Rightarrow> go_error option \<Rightarrow> string \<Rightarrow> 'r \<Rightarrow> (bool \<times> go_error option) \<times> 'r" where
  "Limiter_Allow l failure key r =
     (case lm_rdb l of
        None \<Rightarrow> ((True, None), r)
      | Some rdb \<Rightarrow>
          (case failure of
             Some err \<Rightarrow> ((True, Some err), r)
           | None \<Rightarrow>
               (let (n, r1) = incrExpire rdb (''rl:'' @ key) (lm_window l div second) r in
                ((n \<le> lm_max l, None), r1))))"

text \<open>
  What Redis documents of the two commands: \<open>INCR\<close> counts each key by itself, and \<open>EXPIRE\<close> with a positive
  time leaves the counts as they are until the time is over, while with none it deletes the key.
\<close>

definition counts :: "'r redis \<Rightarrow> (string \<Rightarrow> 'r \<Rightarrow> nat) \<Rightarrow> bool" where
  "counts rdb count \<longleftrightarrow>
     (\<forall>k r. fst (rd_INCR rdb k r) = int (count k r) + 1) \<and>
     (\<forall>k r k'. count k' (snd (rd_INCR rdb k r)) = (if k' = k then count k r + 1 else count k' r)) \<and>
     (\<forall>k t r k'. count k' (rd_EXPIRE rdb k t r) = (if k' = k \<and> t \<le> 0 then 0 else count k' r))"

text \<open>The answers to a run of requests of any clients, each with the error of its round trip, if it fails.\<close>

fun allowed_run :: "'r limiter \<Rightarrow> (string \<times> go_error option) list \<Rightarrow> 'r \<Rightarrow> bool list" where
  "allowed_run l [] r = []"
| "allowed_run l ((key, failure) # qs) r =
     (let ((ok, err), r1) = Limiter_Allow l failure key r in ok # allowed_run l qs r1)"

lemma incrExpire_counts:
  assumes "counts rdb count" and "incrExpire rdb key ttl r = (n, r1)"
  shows "n = int (count key r) + 1"
    and "count k r1 = (if k \<noteq> key then count k r else if count key r = 0 \<and> ttl \<le> 0 then 0 else count key r + 1)"
proof -
  have c: "fst (rd_INCR rdb k r) = int (count k r) + 1"
    "count k' (snd (rd_INCR rdb k r)) = (if k' = k then count k r + 1 else count k' r)"
    "count k' (rd_EXPIRE rdb k t r) = (if k' = k \<and> t \<le> 0 then 0 else count k' r)" for k k' t r
    using assms(1) unfolding counts_def by blast+
  show "n = int (count key r) + 1"
    "count k r1 = (if k \<noteq> key then count k r else if count key r = 0 \<and> ttl \<le> 0 then 0 else count key r + 1)"
    using assms(2) by (auto simp: incrExpire_def split_beta Let_def c split: if_splits)
qed

lemma allow_counts:
  assumes "counts rdb count" and "lm_rdb l = Some rdb" and "second \<le> lm_window l"
    and "Limiter_Allow l failure key r = ((ok, err), r1)"
  shows "ok \<longleftrightarrow> failure \<noteq> None \<or> int (count (''rl:'' @ key) r) < lm_max l"
    and "count (''rl:'' @ k) r1 = count (''rl:'' @ k) r + of_bool (k = key \<and> failure = None)"
proof -
  obtain n r2 where i: "incrExpire rdb (''rl:'' @ key) (lm_window l div second) r = (n, r2)" by fastforce
  have "second div second \<le> lm_window l div second" using assms(3) by (rule zdiv_mono1) simp
  moreover have "second div second = 1" using second_pos by (intro div_self) linarith
  ultimately have ttl: "\<not> lm_window l div second \<le> 0" by linarith
  show "ok \<longleftrightarrow> failure \<noteq> None \<or> int (count (''rl:'' @ key) r) < lm_max l"
    "count (''rl:'' @ k) r1 = count (''rl:'' @ k) r + of_bool (k = key \<and> failure = None)"
    using assms(2,4) incrExpire_counts[OF assms(1) i] ttl i
    by (auto simp: Limiter_Allow_def split: option.splits)
qed

text \<open>
  C27: The limiter admits the first \<open>max\<close> sessions of each client in a window.  Whatever requests of
  whatever clients come in one window of a second or more, in whatever order, and whichever of them fail
  to reach Redis: a request that does not reach Redis passes (the limiter fails open), and any other is
  admitted exactly when fewer than \<open>max\<close> requests of the same client have been counted before it.  The
  counts are those of a Redis whose commands do what is documented; they start at zero with the window.
\<close>

theorem limiter_window:
  assumes "counts rdb count" and "lm_rdb l = Some rdb" and "second \<le> lm_window l"
    and "\<forall>key. count (''rl:'' @ key) r = 0"
  shows "allowed_run l qs r =
    map (\<lambda>i. snd (qs ! i) \<noteq> None \<or>
      int (length (filter (\<lambda>q. q = (fst (qs ! i), None)) (take i qs))) < lm_max l) [0..<length qs]"
proof -
  have "allowed_run l qs r =
    map (\<lambda>i. snd (qs ! i) \<noteq> None \<or> int (count (''rl:'' @ fst (qs ! i)) r) +
      int (length (filter (\<lambda>q. q = (fst (qs ! i), None)) (take i qs))) < lm_max l) [0..<length qs]" for r
  proof (induction qs arbitrary: r)
    case (Cons q qs)
    obtain key failure where q: "q = (key, failure)" by fastforce
    obtain ok err r1 where st: "Limiter_Allow l failure key r = ((ok, err), r1)" by (metis surj_pair)
    note c = allow_counts[OF assms(1-3) st, unfolded append_Cons append_Nil]
    let ?F = "\<lambda>r qs i. snd (qs ! i) \<noteq> None \<or> int (count (''rl:'' @ fst (qs ! i)) r) +
      int (length (filter (\<lambda>x. x = (fst (qs ! i), None)) (take i qs))) < lm_max l"
    have "?F r1 qs i = ?F r (q # qs) (Suc i)" for i by (cases failure) (auto simp: c(2) q)
    then have m: "map (?F r (q # qs)) [0..<length (q # qs)] = ?F r (q # qs) 0 # map (?F r1 qs) [0..<length qs]"
      by (simp only: list.size(4) add_Suc_right add_0_right map_upt_Suc)
    have "allowed_run l (q # qs) r = ok # allowed_run l qs r1" by (simp add: q st)
    then show ?case unfolding m Cons.IH[of r1] using c(1) q by simp
  qed simp
  from this[of r] show ?thesis using assms(4) by simp
qed

definition counting_redis :: "(string \<Rightarrow> nat) redis" where
  "counting_redis = \<lparr>rd_INCR = (\<lambda>k r. (int (r k) + 1, r(k := r k + 1))), rd_EXPIRE = (\<lambda>k t r. if t \<le> 0 then r(k := 0) else r)\<rparr>"

lemma counting_redis_counts: "counts counting_redis (\<lambda>k r. r k)"
  by (auto simp: counts_def counting_redis_def)

theorem limiter_window_witness:
  "allowed_run (Limiter_New ''redis:6379'' counting_redis 2 (60 * second))
     [(''a'', None), (''a'', None), (''b'', None), (''a'', None), (''a'', Some ''timeout''), (''b'', None)] (\<lambda>k. 0) =
   [True, True, True, False, True, True]"
proof -
  let ?l = "Limiter_New ''redis:6379'' counting_redis 2 (60 * second)"
  let ?qs = "[(''a'', None), (''a'', None), (''b'', None), (''a'', None), (''a'', Some ''timeout''), (''b'', None)]"
  have "allowed_run ?l ?qs (\<lambda>k. 0) = map (\<lambda>i. snd (?qs ! i) \<noteq> None \<or>
      int (length (filter (\<lambda>q. q = (fst (?qs ! i), None)) (take i ?qs))) < lm_max ?l) [0..<length ?qs]"
    by (rule limiter_window[OF counting_redis_counts]) (simp_all add: Limiter_New_def)
  then show ?thesis by (simp add: Limiter_New_def upt_rec)
qed

text \<open>
  A window shorter than a second is cut to a time of zero, for which \<open>EXPIRE\<close> deletes the key: the
  first request of a client is counted and forgotten again, and the limiter never limits.
\<close>

lemma short_window_never_limits:
  assumes "counts rdb count" and "lm_rdb l = Some rdb" and "0 \<le> lm_window l" and "lm_window l < second"
    and "1 \<le> lm_max l" and "\<forall>key. count (''rl:'' @ key) r = 0"
  shows "set (allowed_run l qs r) \<subseteq> {True}"
  using assms(6)
proof (induction qs arbitrary: r)
  case (Cons q qs)
  obtain key failure where q: "q = (key, failure)" by fastforce
  obtain n r2 where i: "incrExpire rdb (''rl:'' @ key) (lm_window l div second) r = (n, r2)" by fastforce
  have ttl: "lm_window l div second = 0" using assms(3,4) by (simp add: div_pos_pos_trivial)
  obtain ok err r1 where st: "Limiter_Allow l failure key r = ((ok, err), r1)" by (metis surj_pair)
  have "ok \<and> (\<forall>k. count (''rl:'' @ k) r1 = 0)"
    using assms(2,5) Cons.prems st incrExpire_counts[OF assms(1) i] ttl i
    by (auto simp: Limiter_Allow_def split: option.splits if_splits)
  then show ?case using Cons.IH[of r1] by (simp add: q st)
qed simp

subsection \<open>The client address\<close>

text \<open>\<open>net.SplitHostPort\<close>: the host, when the address has the form host:port or [host]:port.\<close>

definition last_index :: "char \<Rightarrow> string \<Rightarrow> nat option" where
  "last_index c s =
     (case index_of (rev s) [c] of None \<Rightarrow> None | Some i \<Rightarrow> Some (length s - 1 - i))"

definition split_host :: "string \<Rightarrow> string option" where
  "split_host s =
     (case last_index CHR '':'' s of
        None \<Rightarrow> None
      | Some i \<Rightarrow>
          (if hd s = CHR ''['' then
             (case index_of s [CHR '']''] of
                None \<Rightarrow> None
              | Some e \<Rightarrow>
                  (if e + 1 \<noteq> i then None
                   else if CHR ''['' \<in> set (drop 1 s) \<or> CHR '']'' \<in> set (drop (e + 1) s) then None
                   else Some (take (e - 1) (drop 1 s))))
           else
             (let host = take i s in
              if CHR '':'' \<in> set host \<or> CHR ''['' \<in> set s \<or> CHR '']'' \<in> set s then None
              else Some host)))"

definition clientIP :: "bool \<Rightarrow> string \<Rightarrow> string \<Rightarrow> string" where
  "clientIP trustProxy xff remoteAddr =
     (let peer = (case split_host remoteAddr of Some host \<Rightarrow> host | None \<Rightarrow> remoteAddr) in
      if trustProxy \<and> xff \<noteq> '''' then
        (let ip = trim_space (last (split_on CHR '','' xff)) in if ip \<noteq> '''' then ip else peer)
      else peer)"

lemma split_on_append:
  "split_on d (s @ d # t) = split_on d s @ split_on d t"
  by (induction s) (auto split: list.splits)

text \<open>
  A client cannot choose its rate-limit key: without a trusted proxy the forwarded header has no
  influence at all, and behind one only the entry the proxy itself appended counts, whatever the
  client wrote before it.
\<close>

theorem client_key_not_spoofable:
  "clientIP False xff remoteAddr = clientIP False xff' remoteAddr \<and>
   (CHR '','' \<notin> set observed \<longrightarrow> trim_space observed \<noteq> '''' \<longrightarrow>
    clientIP True (forged @ CHR '','' # observed) remoteAddr = trim_space observed)"
proof -
  have one: "split_on CHR '','' observed = [observed]" if "CHR '','' \<notin> set observed"
    using that by (induction observed) auto
  have "last (split_on CHR '','' (forged @ CHR '','' # observed)) = observed" if "CHR '','' \<notin> set observed"
    using one[OF that] by (simp add: split_on_append)
  then show ?thesis by (auto simp: clientIP_def Let_def)
qed

theorem client_key_not_spoofable_witness:
  "clientIP True ''9.9.9.9, 1.2.3.4'' ''10.0.0.1:80'' = ''1.2.3.4''"
proof -
  have t: "trim_space '' 1.2.3.4'' = ''1.2.3.4''" by (simp add: trim_space_def white_space_def)
  have "trim_space '' 1.2.3.4'' \<noteq> ''''" "CHR '','' \<notin> set '' 1.2.3.4''" by (simp_all add: t)
  with client_key_not_spoofable[where observed = "'' 1.2.3.4''" and forged = "''9.9.9.9''"
      and remoteAddr = "''10.0.0.1:80''" and xff = "''''" and xff' = "''''"] t
  show ?thesis by simp
qed

end
