(* ===== verification/Encoding.thy ===== *)
theory Encoding
  imports Prelude
begin

text \<open>
  The parts of Go's \<open>unicode/utf8\<close>, \<open>strings\<close> and \<open>encoding/base64\<close> that the offer and the provider
  adapters use, on byte strings, and a base64 encoder as the reference the decoder is checked against.
\<close>

subsection \<open>UTF-8\<close>

definition byte_in :: "nat \<Rightarrow> nat \<Rightarrow> char \<Rightarrow> bool" where
  "byte_in lo hi c = (lo \<le> of_char c \<and> of_char c \<le> hi)"

text \<open>The ranges of the bytes that follow a first byte, if there is a sequence that begins with it.\<close>

definition utf8_ranges :: "char \<Rightarrow> (nat \<times> nat) list option" where
  "utf8_ranges c =
     (let cont = (0x80, 0xBF) in
      if byte_in 0 0x7F c then Some []
      else if byte_in 0xC2 0xDF c then Some [cont]
      else if byte_in 0xE0 0xE0 c then Some [(0xA0, 0xBF), cont]
      else if byte_in 0xED 0xED c then Some [(0x80, 0x9F), cont]
      else if byte_in 0xE1 0xEF c then Some [cont, cont]
      else if byte_in 0xF0 0xF0 c then Some [(0x90, 0xBF), cont, cont]
      else if byte_in 0xF4 0xF4 c then Some [(0x80, 0x8F), cont, cont]
      else if byte_in 0xF1 0xF3 c then Some [cont, cont, cont]
      else None)"

fun matches :: "(nat \<times> nat) list \<Rightarrow> string \<Rightarrow> bool" where
  "matches [] cs = True"
| "matches (r # rs) [] = False"
| "matches ((lo, hi) # rs) (c # cs) = (byte_in lo hi c \<and> matches rs cs)"

text \<open>The length of the valid UTF-8 sequence a string begins with, 0 when there is none.\<close>

fun utf8_width :: "string \<Rightarrow> nat" where
  "utf8_width [] = 0"
| "utf8_width (c # cs) =
     (case utf8_ranges c of
        None \<Rightarrow> 0
      | Some rs \<Rightarrow> if matches rs cs then Suc (length rs) else 0)"

lemma matches_length: "matches rs cs \<Longrightarrow> length rs \<le> length cs"
  by (induction rs cs rule: matches.induct) auto

lemma matches_take: "matches rs cs \<Longrightarrow> matches rs (take (length rs) cs @ t)"
  by (induction rs cs rule: matches.induct) auto

lemma utf8_width_cons: "utf8_width (c # cs) = Suc n \<Longrightarrow> n \<le> length cs"
  using matches_length by (auto split: option.splits if_splits)

lemma utf8_width_take: "utf8_width (c # cs) = Suc n \<Longrightarrow> utf8_width (c # take n cs @ t) = Suc n"
  using matches_take by (auto split: option.splits if_splits)

declare utf8_width.simps(2) [simp del]

text \<open>\<open>utf8.DecodeRuneInString\<close>: the first code point; an invalid first byte gives U+FFFD.\<close>

fun decode_rune :: "string \<Rightarrow> nat" where
  "decode_rune [] = 0xFFFD"
| "decode_rune (c # cs) =
     (let bits = (\<lambda>i. of_char (cs ! i) mod 64) in
      case utf8_width (c # cs) of
        0 \<Rightarrow> 0xFFFD
      | Suc n \<Rightarrow>
          (if n = 0 then of_char c
           else if n = 1 then (of_char c mod 32) * 64 + bits 0
           else if n = 2 then (of_char c mod 16) * 4096 + bits 0 * 64 + bits 1
           else (of_char c mod 8) * 262144 + bits 0 * 4096 + bits 1 * 64 + bits 2))"

text \<open>\<open>strings.ToValidUTF8(s, "")\<close>: the bytes that begin no valid sequence are dropped.\<close>

fun to_valid_utf8 :: "string \<Rightarrow> string" where
  "to_valid_utf8 [] = []"
| "to_valid_utf8 (c # cs) =
     (case utf8_width (c # cs) of
        0 \<Rightarrow> to_valid_utf8 cs
      | Suc n \<Rightarrow> c # take n cs @ to_valid_utf8 (drop n cs))"

fun valid_utf8 :: "string \<Rightarrow> bool" where
  "valid_utf8 [] = True"
| "valid_utf8 (c # cs) =
     (case utf8_width (c # cs) of 0 \<Rightarrow> False | Suc n \<Rightarrow> valid_utf8 (drop n cs))"

lemma length_to_valid_utf8: "length (to_valid_utf8 s) \<le> length s"
proof (induction s rule: to_valid_utf8.induct)
  case (2 c cs)
  show ?case
  proof (cases "utf8_width (c # cs)")
    case 0
    with 2 show ?thesis by simp
  next
    case (Suc n)
    with 2(2)[of n] utf8_width_cons[OF Suc] show ?thesis by simp
  qed
qed simp

lemma valid_to_valid_utf8: "valid_utf8 (to_valid_utf8 s)"
proof (induction s rule: to_valid_utf8.induct)
  case (2 c cs)
  show ?case
  proof (cases "utf8_width (c # cs)")
    case 0
    with 2 show ?thesis by simp
  next
    case (Suc n)
    with 2(2)[OF Suc] utf8_width_cons[OF Suc] utf8_width_take[OF Suc] show ?thesis by simp
  qed
qed simp

lemma to_valid_utf8_id: "valid_utf8 s \<Longrightarrow> to_valid_utf8 s = s"
proof (induction s rule: to_valid_utf8.induct)
  case (2 c cs)
  then show ?case by (cases "utf8_width (c # cs)") auto
qed simp

subsection \<open>Base64\<close>

definition b64_alphabet :: string where
  "b64_alphabet = ''ABCDEFGHIJKLMNOPQRSTUVWXYZabcdefghijklmnopqrstuvwxyz0123456789+/''"

definition b64_val :: "char \<Rightarrow> nat option" where
  "b64_val c = find (\<lambda>i. b64_alphabet ! i = c) [0..<64]"

definition byte :: "nat \<Rightarrow> char" where
  "byte n = char_of (n mod 256)"

text \<open>
  \<open>StdEncoding.DecodeString\<close>: new lines are skipped, the rest is quanta of four characters; padding may
  only end the last quantum, and its unused bits are not checked.
\<close>

fun b64_quanta :: "string \<Rightarrow> string option" where
  "b64_quanta [] = Some []"
| "b64_quanta (a # b # c # d # rest) =
     (case (b64_val a, b64_val b) of
        (Some x, Some y) \<Rightarrow>
          (if c = CHR ''='' then
             (if d = CHR ''='' \<and> rest = [] then Some [byte (x * 4 + y div 16)] else None)
           else
             (case b64_val c of
                None \<Rightarrow> None
              | Some z \<Rightarrow>
                  (if d = CHR ''='' then
                     (if rest = [] then Some [byte (x * 4 + y div 16), byte (y * 16 + z div 4)] else None)
                   else
                     (case (b64_val d, b64_quanta rest) of
                        (Some w, Some t) \<Rightarrow>
                          Some (byte (x * 4 + y div 16) # byte (y * 16 + z div 4) # byte (z * 64 + w) # t)
                      | _ \<Rightarrow> None))))
      | _ \<Rightarrow> None)"
| "b64_quanta _ = None"

definition b64_decode :: "string \<Rightarrow> string option" where
  "b64_decode s = b64_quanta (filter (\<lambda>c. c \<noteq> CHR 0x0D \<and> c \<noteq> CHR 0x0A) s)"

lemma b64_quanta_Cons_length:
  assumes "\<And>t. b64_quanta rest = Some t \<Longrightarrow> length t \<le> length rest" and "b64_quanta (a # b # c # d # rest) = Some u"
  shows "length u \<le> 4 + length rest"
proof (cases "b64_quanta rest")
  case None
  with assms(2) show ?thesis by (auto split: option.splits if_splits)
next
  case (Some t)
  with assms(1)[OF Some] assms(2) show ?thesis by (auto split: option.splits if_splits)
qed

lemma b64_quanta_length: "b64_quanta s = Some t \<Longrightarrow> length t \<le> length s"
proof (induction s arbitrary: t rule: length_induct)
  case (1 s)
  show ?case
  proof (cases "\<exists>a b c d rest. s = a # b # c # d # rest")
    case True
    then obtain a b c d rest where s: "s = a # b # c # d # rest" by blast
    have "length t \<le> 4 + length rest"
      by (rule b64_quanta_Cons_length[of rest a b c d]) (use 1 s in auto)
    with s show ?thesis by simp
  next
    case False
    with 1(2) show ?thesis by (cases s rule: b64_quanta.cases) auto
  qed
qed

lemma b64_decode_length: "b64_decode s = Some t \<Longrightarrow> length t \<le> length s"
  unfolding b64_decode_def by (drule b64_quanta_length) (erule order_trans, rule length_filter_le)

definition b64_char :: "nat \<Rightarrow> char" where
  "b64_char n = b64_alphabet ! (n mod 64)"

fun b64_encode :: "string \<Rightarrow> string" where
  "b64_encode [] = []"
| "b64_encode [a] =
     [b64_char (of_char a div 4), b64_char (of_char a mod 4 * 16), CHR ''='', CHR ''='']"
| "b64_encode [a, b] =
     [b64_char (of_char a div 4), b64_char (of_char a mod 4 * 16 + of_char b div 16),
      b64_char (of_char b mod 16 * 4), CHR ''='']"
| "b64_encode (a # b # c # rest) =
     b64_char (of_char a div 4) # b64_char (of_char a mod 4 * 16 + of_char b div 16) #
     b64_char (of_char b mod 16 * 4 + of_char c div 64) # b64_char (of_char c mod 64) # b64_encode rest"

lemma less_64_cases: "n < 64 \<Longrightarrow> n \<in> set [0..<64]"
  by simp

lemma b64_table:
  "\<forall>i \<in> set [0..<64]. b64_val (b64_alphabet ! i) = Some i \<and>
     b64_alphabet ! i \<notin> {CHR ''='', CHR 0x0D, CHR 0x0A}"
  by code_simp

lemma b64_val_char: "n < 64 \<Longrightarrow> b64_val (b64_char n) = Some n"
  using b64_table less_64_cases[of n] by (simp add: b64_char_def)

lemma b64_char_plain: "b64_char n \<noteq> CHR ''=''" "b64_char n \<noteq> CHR 0x0D" "b64_char n \<noteq> CHR 0x0A"
  using b64_table less_64_cases[of "n mod 64"] by (auto simp: b64_char_def)

lemma of_char_less: "of_char c < (256::nat)"
  using of_char_mod_256[of c, where 'a = nat] by (metis mod_less_divisor zero_less_numeral)

lemma byte_of: "n mod 256 = of_char c \<Longrightarrow> byte n = c"
  by (simp add: byte_def)

lemma sextets:
  fixes x y z :: nat
  assumes "x < 256" and "y < 256" and "z < 256"
  shows "x div 4 < 64" and "x mod 4 * 16 < 64" and "x mod 4 * 16 + y div 16 < 64"
    and "y mod 16 * 4 < 64" and "y mod 16 * 4 + z div 64 < 64" and "z mod 64 < 64"
    and "(x div 4 * 4 + x mod 4 * 16 div 16) mod 256 = x"
    and "(x div 4 * 4 + (x mod 4 * 16 + y div 16) div 16) mod 256 = x"
    and "((x mod 4 * 16 + y div 16) * 16 + y mod 16 * 4 div 4) mod 256 = y"
    and "((x mod 4 * 16 + y div 16) * 16 + (y mod 16 * 4 + z div 64) div 4) mod 256 = y"
    and "((y mod 16 * 4 + z div 64) * 64 + z mod 64) mod 256 = z"
proof -
  have lt: "x div 4 < 64" "x mod 4 < 4" "y div 16 < 16" "y mod 16 < 16" "z div 64 < 4" "z mod 64 < 64"
    using assms by auto
  then show "x div 4 < 64" "x mod 4 * 16 < 64" "x mod 4 * 16 + y div 16 < 64"
    "y mod 16 * 4 < 64" "y mod 16 * 4 + z div 64 < 64" "z mod 64 < 64"
    by linarith+
  have d: "(x mod 4 * 16 + y div 16) div 16 = x mod 4" "(y mod 16 * 4 + z div 64) div 4 = y mod 16"
    using lt by simp_all
  show "(x div 4 * 4 + x mod 4 * 16 div 16) mod 256 = x"
    "(x div 4 * 4 + (x mod 4 * 16 + y div 16) div 16) mod 256 = x"
    using assms by (simp_all only: d div_mult_mod_eq mod_less) simp_all
  have g: "(p * 16 + q) * 16 + r = (q * 16 + r) + p * 256"
    and g': "(p * 4 + q) * 64 + r = (q * 64 + r) + p * 256" for p q r :: nat
    by (simp_all add: algebra_simps)
  have "(x mod 4 * 16 + y div 16) * 16 + y mod 16 = y + x mod 4 * 256"
    by (simp only: g div_mult_mod_eq)
  then have y: "((x mod 4 * 16 + y div 16) * 16 + y mod 16) mod 256 = y" using assms by simp
  then show "((x mod 4 * 16 + y div 16) * 16 + (y mod 16 * 4 + z div 64) div 4) mod 256 = y"
    by (simp only: d)
  from y show "((x mod 4 * 16 + y div 16) * 16 + y mod 16 * 4 div 4) mod 256 = y" by simp
  have "(y mod 16 * 4 + z div 64) * 64 + z mod 64 = z + y mod 16 * 256"
    by (simp only: g' div_mult_mod_eq)
  then show "((y mod 16 * 4 + z div 64) * 64 + z mod 64) mod 256 = z" using assms by simp
qed

lemma b64_quanta_encode: "b64_quanta (b64_encode s) = Some s"
proof (induction s rule: b64_encode.induct)
  case (2 a)
  note x = sextets[OF of_char_less[of a] of_char_less[of a] of_char_less[of a]]
  show ?case using byte_of[OF x(7)] by (simp add: b64_val_char b64_char_plain x(1,2))
next
  case (3 a b)
  note x = sextets[OF of_char_less[of a] of_char_less[of b] of_char_less[of b]]
  show ?case
    using byte_of[OF x(8)] byte_of[OF x(9)] by (simp add: b64_val_char b64_char_plain x(1,3,4))
next
  case (4 a b c rest)
  note x = sextets[OF of_char_less[of a] of_char_less[of b] of_char_less[of c]]
  show ?case
    using byte_of[OF x(8)] byte_of[OF x(10)] byte_of[OF x(11)] 4
    by (simp add: b64_val_char b64_char_plain x(1,3,5,6))
qed simp

lemma b64_decode_encode: "b64_decode (b64_encode s) = Some s"
proof -
  have "filter (\<lambda>c. c \<noteq> CHR 0x0D \<and> c \<noteq> CHR 0x0A) (b64_encode s) = b64_encode s"
    by (induction s rule: b64_encode.induct) (simp_all add: b64_char_plain)
  then show ?thesis by (simp add: b64_decode_def b64_quanta_encode)
qed

end
