(* ===== verification/Intake.thy ===== *)
theory Intake
  imports Replay Breaker Access Encoding
begin

text \<open>
  The session offer: \<open>internal/offer/intake.go\<close> with the listener brief (\<open>memory.go\<close>), the providers
  (\<open>provider.go\<close>, \<open>models.go\<close>) and the HTTP adapter (\<open>handler.go\<close>).  One offer runs through the rate
  limit, the provider and header checks, the provider guard, the reconnect resolution, the model dial
  and the bridge's set-up; each step can end it.

  The world an offer acts on is the guard, the hub, the Redis server and the metrics.  The dial of a
  model, the memory service, the replay index and the WebRTC calls are parameters.
\<close>

subsection \<open>Providers and the system prompt\<close>

definition ParseProvider :: "string \<Rightarrow> go_error + string" where
  "ParseProvider raw =
     (if raw = ''gemini'' \<or> raw = '''' then Inr ''gemini''
      else if raw = ''doubao'' \<or> raw = ''loopback'' \<or> raw = ''cascade'' then Inr raw
      else Inl (''unknown model '' @ raw))"

definition joinSystem :: "string \<Rightarrow> string \<Rightarrow> string" where
  "joinSystem base extra =
     (if extra = '''' then base
      else if base = '''' then extra
      else base @ [CHR 0x0A, CHR 0x0A] @ extra)"

text \<open>
  The production factory: which adapter is dialled, with which system prompt and history.  The
  constructors of the adapters are parameters; the cascade's builds its ASR and TTS stages first.
\<close>

record cascade_config =
  cc_WhisperURL :: string
  cc_LLMURL :: string
  cc_LLMModel :: string
  cc_TTSURL :: string
  cc_TTSSpeaker :: string
  cc_TTSLang :: string
  cc_TurnDetectURL :: string
  cc_System :: string

datatype turn_detect_choice = NopTurnDetector | HTTPTurnDetector string

record 'm adapters =
  ad_doubao :: "string \<Rightarrow> restored_turn list \<Rightarrow> go_error + 'm"
  ad_loopback :: 'm
  ad_gemini :: "string \<Rightarrow> go_error + 'm"
  ad_NewWhisper :: "string \<Rightarrow> go_error option"
  ad_NewXTTS :: "string \<Rightarrow> string \<Rightarrow> string \<Rightarrow> go_error option"
  ad_cascade :: "turn_detect_choice \<Rightarrow> string \<Rightarrow> string \<Rightarrow> string \<Rightarrow> go_error + 'm"

record factory =
  fc_Cascade :: cascade_config
  fc_GeminiSystem :: string
  fc_DoubaoSystem :: string

text \<open>The second result says whether the ASR stage was closed again, after a failure of the TTS stage.\<close>

definition Factory_New ::
  "'m adapters \<Rightarrow> factory \<Rightarrow> string \<Rightarrow> restored_turn list \<Rightarrow> session_params \<Rightarrow> (go_error + 'm) \<times> bool" where
  "Factory_New ad f provider history params =
     (if provider = ''doubao'' then
        (ad_doubao ad (joinSystem (fc_DoubaoSystem f) (sp_SystemSuffix params)) history, False)
      else if provider = ''loopback'' then (Inr (ad_loopback ad), False)
      else if provider = ''cascade'' then
        (let c = fc_Cascade f in
         case ad_NewWhisper ad (cc_WhisperURL c) of
           Some err \<Rightarrow> (Inl err, False)
         | None \<Rightarrow>
             (case ad_NewXTTS ad (cc_TTSURL c) (cc_TTSSpeaker c) (cc_TTSLang c) of
                Some err \<Rightarrow> (Inl err, True)
              | None \<Rightarrow>
                  (ad_cascade ad
                     (if cc_TurnDetectURL c \<noteq> '''' then HTTPTurnDetector (cc_TurnDetectURL c) else NopTurnDetector)
                     (cc_LLMURL c) (cc_LLMModel c) (joinSystem (cc_System c) (sp_SystemSuffix params)),
                   False)))
      else (ad_gemini ad (joinSystem (fc_GeminiSystem f) (sp_SystemSuffix params)), False))"

subsection \<open>The listener brief\<close>

definition maxListenerBrief :: nat where
  "maxListenerBrief = 8 * 1024"

definition decodeListenerBrief :: "string \<Rightarrow> string" where
  "decodeListenerBrief header =
     (if header = '''' then ''''
      else (case b64_decode header of
              None \<Rightarrow> ''''
            | Some b \<Rightarrow>
                to_valid_utf8 (if maxListenerBrief < length b then take maxListenerBrief b else b)))"

type_synonym memory_provider = "UserID \<Rightarrow> go_error + string"

definition resolveBrief :: "memory_provider option \<Rightarrow> UserID \<Rightarrow> string \<Rightarrow> string" where
  "resolveBrief mp userID header =
     (case mp of
        None \<Rightarrow> decodeListenerBrief header
      | Some f \<Rightarrow>
          (if Anonymous userID then ''''
           else (case f userID of Inl err \<Rightarrow> '''' | Inr brief \<Rightarrow> brief)))"

text \<open>
  The brief injected into the system prompt is bounded and well-formed, and arrives unchanged:
  whatever the header, the decoded brief is valid UTF-8 of at most 8 KiB, and every valid text up to
  that size that the orchestrator encodes in base64 is decoded to itself.  With a memory service the
  header has no influence, and an anonymous user gets no brief.
\<close>

theorem listener_brief:
  "length (decodeListenerBrief header) \<le> maxListenerBrief \<and> valid_utf8 (decodeListenerBrief header) \<and>
   (valid_utf8 text_in \<longrightarrow> length text_in \<le> maxListenerBrief \<longrightarrow>
      decodeListenerBrief (b64_encode text_in) = text_in) \<and>
   resolveBrief (Some f) uid header = resolveBrief (Some f) uid '''' \<and>
   (Anonymous uid \<longrightarrow> resolveBrief (Some f) uid header = '''')"
proof -
  let ?cut = "\<lambda>b :: string. if maxListenerBrief < length b then take maxListenerBrief b else b"
  have "length (to_valid_utf8 (?cut b)) \<le> maxListenerBrief" for b
    using length_to_valid_utf8[of "?cut b"] by (auto split: if_splits)
  then have "length (decodeListenerBrief header) \<le> maxListenerBrief \<and> valid_utf8 (decodeListenerBrief header)"
    by (auto simp: decodeListenerBrief_def valid_to_valid_utf8 split: option.splits)
  moreover have "decodeListenerBrief (b64_encode s) = s" if "valid_utf8 s" "length s \<le> maxListenerBrief" for s
  proof (cases "s = []")
    case False
    then have "b64_encode s \<noteq> []" by (cases s rule: b64_encode.cases) auto
    with that show ?thesis
      by (simp add: decodeListenerBrief_def b64_decode_encode to_valid_utf8_id)
  qed (simp add: decodeListenerBrief_def)
  ultimately show ?thesis by (simp add: resolveBrief_def)
qed

theorem listener_brief_witness:
  "decodeListenerBrief (b64_encode ''likes jazz'') = ''likes jazz'' \<and> resolveBrief (Some (\<lambda>u. Inr ''x'')) '''' ''eA=='' = ''''"
proof -
  have v: "valid_utf8 ''likes jazz''" by (simp add: utf8_width.simps(2) utf8_ranges_def byte_in_def)
  have l: "length ''likes jazz'' \<le> maxListenerBrief" by (simp add: maxListenerBrief_def)
  have "Anonymous ''''" by (simp add: Anonymous_def)
  with listener_brief[of "''eA==''" "''likes jazz''" "\<lambda>u. Inr ''x''" "''''"] v l show ?thesis by blast
qed

subsection \<open>Results\<close>

record intake_result =
  ir_Status :: int
  ir_Headers :: "(string \<times> string) list"
  ir_Body :: string

definition replayProtocolReject :: "string \<Rightarrow> intake_result" where
  "replayProtocolReject msg =
     \<lparr>ir_Status = 400,
      ir_Headers = [(''X-Replay-Version'', replayProtocolVersion),
                    (''X-Replay-Status'', status_text StatusProtocolInvalid)],
      ir_Body = msg\<rparr>"

definition cb_state_text :: "cb_state \<Rightarrow> string" where
  "cb_state_text s =
     (case s of StateClosed \<Rightarrow> ''closed'' | StateOpen \<Rightarrow> ''open'' | StateHalfOpen \<Rightarrow> ''half_open'')"

definition circuitReject :: "decision \<Rightarrow> intake_result" where
  "circuitReject d =
     (let sec = dec_RetryAfter d div second in
      \<lparr>ir_Status = 503,
       ir_Headers = [(''X-Model-CB-State'', cb_state_text (dec_State d)), (''X-Model-CB-Reason'', dec_Reason d)]
         @ (if 0 < dec_RetryAfter d
            then [(''Retry-After'', format_int (if sec \<le> 0 then 1 else sec))] else []),
       ir_Body = ''model circuit open''\<rparr>)"

definition offer_restoredTurns :: "line list \<Rightarrow> restored_turn list" where
  "offer_restoredTurns ls =
     (if length ls = 0 then [] else map (\<lambda>ln. \<lparr>rt_Role = ln_Role ln, rt_Text = ln_Text ln\<rparr>) ls)"

definition streamFaultBinder ::
  "manager option \<Rightarrow> string \<Rightarrow> (time \<Rightarrow> bool \<Rightarrow> go_error option \<Rightarrow> time \<Rightarrow> manager option) option" where
  "streamFaultBinder guard provider = (if guard = None then None else StreamFaultBinder guard provider)"

subsection \<open>ServeOffer\<close>

record 'r intake =
  it_Limiter :: "'r limiter"
  it_Publisher :: "publisher option"
  it_ReplayIndex :: "replayer option"
  it_Memory :: "memory_provider option"
  it_Replay :: replay_config
  it_NilObserver :: bool

record intake_request =
  rq_ClientIP :: string
  rq_Model :: string
  rq_OfferSDP :: string
  rq_UserID :: UserID
  rq_SessionIDHeader :: string
  rq_LastSeqHeader :: string
  rq_ReplayVersionHeader :: string
  rq_ListenerBriefHeader :: string

record 'r world =
  wd_guard :: "manager option"
  wd_hub :: "tap hub"
  wd_redis :: 'r
  wd_metrics :: metrics

text \<open>
  What comes from outside during one offer: the clock where it is read, a fresh UUID, the outcome of
  the Redis round trip, of the model's dial and of the WebRTC calls.
\<close>

record offer_env =
  en_redisFailure :: "go_error option"
  en_newSessionID :: SessionID
  en_now :: time
  en_replayAt :: time
  en_took :: "duration \<times> duration"
  en_dial :: "string \<Rightarrow> restored_turn list \<Rightarrow> session_params \<Rightarrow> go_error + model_type"
  en_started :: time
  en_webrtc :: "string \<Rightarrow> webrtc_env"

definition ServeOffer ::
  "'r intake \<Rightarrow> offer_env \<Rightarrow> intake_request \<Rightarrow> 'r world \<Rightarrow> intake_result \<times> 'r world" where
  "ServeOffer it env req w =
     (let ((ok, _), redis) = Limiter_Allow (it_Limiter it) (en_redisFailure env) (rq_ClientIP req) (wd_redis w);
          w1 = w\<lparr>wd_redis := redis\<rparr> in
      if \<not> ok then (\<lparr>ir_Status = 429, ir_Headers = [], ir_Body = ''rate limit exceeded''\<rparr>, w1)
      else
     (case ParseProvider (rq_Model req) of
        Inl err \<Rightarrow> (\<lparr>ir_Status = 400, ir_Headers = [], ir_Body = ''unknown model''\<rparr>, w1)
      | Inr provider \<Rightarrow>
     (case ParseReplayHeaders (rq_SessionIDHeader req) (rq_LastSeqHeader req) (rq_ReplayVersionHeader req) of
        Inl msg \<Rightarrow> (replayProtocolReject msg, w1)
      | Inr headers \<Rightarrow>
     (let (d, guard1) = AllowDial (wd_guard w1) provider (en_now env);
          w2 = w1\<lparr>wd_guard := guard1\<rparr> in
      if \<not> dec_Allowed d then (circuitReject d, w2)
      else
     (let (res, obs, hub1) = Hub_ResolveReplay (en_replayAt env) (it_ReplayIndex it) (en_took env)
            (it_Replay it) (en_newSessionID env) provider (rq_UserID req) headers (wd_hub w2);
          w3 = w2\<lparr>wd_hub := hub1,
                  wd_metrics := (if it_NilObserver it then fold observe obs (wd_metrics w2) else wd_metrics w2)\<rparr> in
      case res of
        Inl msg \<Rightarrow> (replayProtocolReject msg, w3)
      | Inr replay \<Rightarrow>
     (let params = \<lparr>sp_SystemSuffix = resolveBrief (it_Memory it) (rq_UserID req) (rq_ListenerBriefHeader req)\<rparr>;
          dialled = en_dial env provider (offer_restoredTurns (ro_InitialHistory replay)) params;
          err = (case dialled of Inl e \<Rightarrow> Some e | Inr _ \<Rightarrow> None);
          w4 = w3\<lparr>wd_guard := RecordDial (wd_guard w3) provider err (en_now env)\<rparr> in
      case dialled of
        Inl e \<Rightarrow> (\<lparr>ir_Status = 502, ir_Headers = [], ir_Body = e\<rparr>, w4)
      | Inr m \<Rightarrow>
     (let info = \<lparr>in_ID = ro_SessionID replay, in_UserID = rq_UserID req, in_Provider = provider,
                  in_StartSeq = ro_StartSeq replay, in_InitialHistory = ro_InitialHistory replay,
                  in_Replay = ro_ReplayLines replay,
                  in_Transcript = Some (Tap (it_Publisher it)
                    \<lparr>sm_SessionID = ro_SessionID replay, sm_UserID = rq_UserID req, sm_Provider = provider\<rparr>),
                  in_StreamFaultAt = (streamFaultBinder (wd_guard w4) provider \<noteq> None)\<rparr>;
          (served, effects, hub2) = Serve (en_webrtc env (rq_OfferSDP req)) (en_started env) m info (wd_hub w4);
          w5 = w4\<lparr>wd_hub := hub2\<rparr> in
      case served of
        Inl e \<Rightarrow> (\<lparr>ir_Status = 500, ir_Headers = [], ir_Body = e\<rparr>, w5)
      | Inr answer \<Rightarrow>
          (\<lparr>ir_Status = 200,
            ir_Headers = [(''Content-Type'', ''application/sdp''), (''X-Session-ID'', ro_SessionID replay),
                          (''X-Replay-Version'', replayProtocolVersion),
                          (''X-Replay-Status'', status_text (ro_Status replay))],
            ir_Body = answer\<rparr>, w5))))))))"

text \<open>What \<open>ServeOffer\<close> hands to the bridge, and the resolution and the dial it makes.\<close>

definition offer_info ::
  "'r intake \<Rightarrow> intake_request \<Rightarrow> string \<Rightarrow> replay_outcome \<Rightarrow> manager option \<Rightarrow> tap session_info" where
  "offer_info it req provider replay guard =
     \<lparr>in_ID = ro_SessionID replay, in_UserID = rq_UserID req, in_Provider = provider,
      in_StartSeq = ro_StartSeq replay, in_InitialHistory = ro_InitialHistory replay,
      in_Replay = ro_ReplayLines replay,
      in_Transcript = Some (Tap (it_Publisher it)
        \<lparr>sm_SessionID = ro_SessionID replay, sm_UserID = rq_UserID req, sm_Provider = provider\<rparr>),
      in_StreamFaultAt = (streamFaultBinder guard provider \<noteq> None)\<rparr>"

abbreviation offer_resolve where
  "offer_resolve it env req provider headers h \<equiv>
     Hub_ResolveReplay (en_replayAt env) (it_ReplayIndex it) (en_took env) (it_Replay it)
       (en_newSessionID env) provider (rq_UserID req) headers h"

abbreviation offer_dial where
  "offer_dial it env req provider replay \<equiv>
     en_dial env provider (offer_restoredTurns (ro_InitialHistory replay))
       \<lparr>sp_SystemSuffix = resolveBrief (it_Memory it) (rq_UserID req) (rq_ListenerBriefHeader req)\<rparr>"

abbreviation offer_headers where
  "offer_headers req \<equiv>
     ParseReplayHeaders (rq_SessionIDHeader req) (rq_LastSeqHeader req) (rq_ReplayVersionHeader req)"

abbreviation offer_limited where
  "offer_limited it env req w \<equiv>
     \<not> fst (fst (Limiter_Allow (it_Limiter it) (en_redisFailure env) (rq_ClientIP req) (wd_redis w)))"

text \<open>The ways an offer ends, with the guard and the hub it leaves behind.\<close>

lemma ServeOffer_cases:
  assumes "ServeOffer it env req w = (r, w')"
  obtains
    (limited) "ir_Status r = 429" "wd_guard w' = wd_guard w" "wd_hub w' = wd_hub w"
      "offer_limited it env req w"
  | (rejected) "ir_Status r = 400" "wd_guard w' = wd_guard w" "wd_hub w' = wd_hub w"
      "(\<exists>e. ParseProvider (rq_Model req) = Inl e) \<or> (\<exists>msg. offer_headers req = Inl msg)"
  | (circuit) provider d where "ParseProvider (rq_Model req) = Inr provider"
      "AllowDial (wd_guard w) provider (en_now env) = (d, wd_guard w')" "\<not> dec_Allowed d"
      "r = circuitReject d" "wd_hub w' = wd_hub w" "\<not> offer_limited it env req w"
  | (protocol) provider headers d msg obs where "ParseProvider (rq_Model req) = Inr provider"
      "offer_headers req = Inr headers"
      "AllowDial (wd_guard w) provider (en_now env) = (d, wd_guard w')" "dec_Allowed d"
      "offer_resolve it env req provider headers (wd_hub w) = (Inl msg, obs, wd_hub w')"
      "r = replayProtocolReject msg" "\<not> offer_limited it env req w"
  | (dial) provider headers d guard replay obs e where "ParseProvider (rq_Model req) = Inr provider"
      "offer_headers req = Inr headers"
      "AllowDial (wd_guard w) provider (en_now env) = (d, guard)" "dec_Allowed d"
      "offer_resolve it env req provider headers (wd_hub w) = (Inr replay, obs, wd_hub w')"
      "offer_dial it env req provider replay = Inl e"
      "wd_guard w' = RecordDial guard provider (Some e) (en_now env)"
      "ir_Status r = 502" "ir_Body r = e" "\<not> offer_limited it env req w"
  | (served) provider headers d guard replay obs hub m x effects where "ParseProvider (rq_Model req) = Inr provider"
      "offer_headers req = Inr headers"
      "AllowDial (wd_guard w) provider (en_now env) = (d, guard)" "dec_Allowed d"
      "offer_resolve it env req provider headers (wd_hub w) = (Inr replay, obs, hub)"
      "offer_dial it env req provider replay = Inr m"
      "wd_guard w' = RecordDial guard provider None (en_now env)"
      "Serve (en_webrtc env (rq_OfferSDP req)) (en_started env) m
         (offer_info it req provider replay (wd_guard w')) hub = (x, effects, wd_hub w')"
      "ir_Status r = (case x of Inl _ \<Rightarrow> 500 | Inr _ \<Rightarrow> 200)" "ir_Body r = (case x of Inl e \<Rightarrow> e | Inr a \<Rightarrow> a)"
      "\<exists>a. x = Inr a \<Longrightarrow> map_of (ir_Headers r) ''X-Session-ID'' = Some (ro_SessionID replay) \<and>
         map_of (ir_Headers r) ''X-Replay-Status'' = Some (status_text (ro_Status replay))"
      "\<not> offer_limited it env req w"
proof -
  obtain ok lerr redis where l: "Limiter_Allow (it_Limiter it) (en_redisFailure env) (rq_ClientIP req) (wd_redis w)
      = ((ok, lerr), redis)" by (metis surj_pair)
  show ?thesis
  proof (cases ok)
    case False
    with assms l limited show ?thesis by (auto simp: ServeOffer_def)
  next
    case ok: True
    show ?thesis
    proof (cases "ParseProvider (rq_Model req)")
      case (Inl e)
      with assms l ok rejected show ?thesis by (auto simp: ServeOffer_def)
    next
      case p: (Inr provider)
      show ?thesis
      proof (cases "offer_headers req")
        case (Inl e)
        with assms l ok p rejected show ?thesis by (auto simp: ServeOffer_def replayProtocolReject_def)
      next
        case hd: (Inr headers)
        obtain d guard where g: "AllowDial (wd_guard w) provider (en_now env) = (d, guard)" by fastforce
        show ?thesis
        proof (cases "dec_Allowed d")
          case False
          with assms l ok p hd g circuit show ?thesis by (auto simp: ServeOffer_def)
        next
          case al: True
          obtain res obs hub where rs: "offer_resolve it env req provider headers (wd_hub w) = (res, obs, hub)"
            by (metis prod_cases3)
          show ?thesis
          proof (cases res)
            case (Inl msg)
            with assms l ok p hd g al rs have "wd_guard w' = guard" "wd_hub w' = hub" "r = replayProtocolReject msg"
              by (auto simp: ServeOffer_def Let_def)
            with protocol[OF p hd, of d msg obs] g al rs Inl l ok show ?thesis by simp
          next
            case rp: (Inr replay)
            show ?thesis
            proof (cases "offer_dial it env req provider replay")
              case (Inl e)
              with assms l ok p hd g al rs rp have "wd_guard w' = RecordDial guard provider (Some e) (en_now env)"
                "wd_hub w' = hub" "ir_Status r = 502" "ir_Body r = e"
                by (auto simp: ServeOffer_def Let_def)
              with dial[OF p hd g al, of replay obs e] rs rp Inl l ok show ?thesis by simp
            next
              case m: (Inr m)
              define g' where "g' = RecordDial guard provider None (en_now env)"
              obtain x effects hub2 where s: "Serve (en_webrtc env (rq_OfferSDP req)) (en_started env) m
                  (offer_info it req provider replay g') hub = (x, effects, hub2)" by (metis prod_cases3)
              have "wd_guard w' = g' \<and> wd_hub w' = hub2 \<and>
                  ir_Status r = (case x of Inl _ \<Rightarrow> 500 | Inr _ \<Rightarrow> 200) \<and>
                  ir_Body r = (case x of Inl e \<Rightarrow> e | Inr a \<Rightarrow> a) \<and>
                  ((\<exists>a. x = Inr a) \<longrightarrow> map_of (ir_Headers r) ''X-Session-ID'' = Some (ro_SessionID replay) \<and>
                     map_of (ir_Headers r) ''X-Replay-Status'' = Some (status_text (ro_Status replay)))"
                using assms l ok p hd g al rs rp m s
                by (auto simp: ServeOffer_def Let_def offer_info_def g'_def split: sum.splits)
              then show ?thesis using served[OF p hd g al, of replay obs hub m x effects] rs rp m s l ok
                by (auto simp: g'_def)
            qed
          qed
        qed
      qed
    qed
  qed
qed

lemma resolve_conns:
  assumes "offer_resolve it env req provider headers h = (res, obs, h')"
  shows "h' = h \<or> (\<exists>after. h' = snd (Resume (en_replayAt env) (rh_SessionID headers) (rq_UserID req) provider after h))"
  using assms
  by (auto simp: Hub_ResolveReplay_def ResolveReplay_def Let_def
      split: if_splits option.splits prod.splits index_answer.splits; metis snd_conv)+

lemma Resume_conns:
  assumes "hub_ok h" and "map_of (hb_conns (snd (Resume t sid uid provider after h))) i = Some a"
  shows "map_of (hb_conns h) i = Some a"
proof -
  have close: "map_of (hb_conns (scope_Close t b h)) i = Some a \<Longrightarrow> map_of (hb_conns h) i = Some a"
    if "b < length (hb_scopes h)" for b
    by (cases "sc_done (hb_scopes h ! b)")
      (auto simp: scope_Close_done scope_Close_simps(1)[OF that] delete_conv' split: if_splits)
  show ?thesis
  proof (cases "map_of (hb_conns h) sid")
    case None
    then show ?thesis using assms(2) by (auto simp: Resume_def split: if_splits)
  next
    case (Some b)
    then show ?thesis
      using assms(2) close[OF hub_okD(1)[OF assms(1) Some]]
      by (auto simp: Resume_def Let_def split: if_splits)
  qed
qed

text \<open>The only session a resume takes out of the registry is the caller's own.\<close>

lemma Resume_removes:
  assumes "hub_ok h" and "map_of (hb_conns h) i = Some a"
    and "map_of (hb_conns (snd (Resume t sid uid provider after h))) i = None"
  shows "i = sid \<and> \<not> Anonymous uid \<and> ss_userID (sess_at h a) = uid \<and> ss_provider (sess_at h a) = provider"
proof (cases "map_of (hb_conns h) sid")
  case None
  then show ?thesis using assms(2,3) by (auto simp: Resume_def split: if_splits)
next
  case (Some b)
  note b = hub_okD[OF assms(1) Some]
  have "i = sid" using assms(2,3) Some b
    by (auto simp: Resume_def Let_def scope_Close_simps(1)[OF b(1,3)] delete_conv' split: if_splits)
  then show ?thesis using assms(2,3) Some by (auto simp: Resume_def Let_def split: if_splits)
qed

lemma resolve_registry:
  assumes "hub_ok h" and "offer_resolve it env req provider headers h = (res, obs, h')"
  shows "map_of (hb_conns h') i = Some a \<Longrightarrow> map_of (hb_conns h) i = Some a"
    and "map_of (hb_conns h) i = Some a \<Longrightarrow> map_of (hb_conns h') i = None \<Longrightarrow>
      rh_SessionID headers = i \<and> \<not> Anonymous (rq_UserID req) \<and> ss_userID (sess_at h a) = rq_UserID req \<and>
      ss_provider (sess_at h a) = provider"
  using resolve_conns[OF assms(2)] Resume_conns[OF assms(1)] Resume_removes[OF assms(1)] by (auto; metis)+

text \<open>
  C19: An accepted offer is a registered session: status 200 is answered only when the limiter and the
  guard have let the call through, the reconnect has been resolved and the provider's dial has succeeded,
  and then the session id in the response is registered
  in the hub, owned by the caller's identity, with the requested provider, open, seeded with what the
  reconnect resolved; and the guard has recorded the successful dial.
\<close>

theorem offer_accepted:
  assumes "ServeOffer it env req w = (r, w')" and "ir_Status r = 200"
  shows "\<exists>sid a provider headers replay obs hub m. ParseProvider (rq_Model req) = Inr provider \<and>
    offer_headers req = Inr headers \<and> \<not> offer_limited it env req w \<and>
    dec_Allowed (fst (AllowDial (wd_guard w) provider (en_now env))) \<and>
    wd_guard w' = RecordDial (snd (AllowDial (wd_guard w) provider (en_now env))) provider None (en_now env) \<and>
    offer_resolve it env req provider headers (wd_hub w) = (Inr replay, obs, hub) \<and>
    offer_dial it env req provider replay = Inr m \<and>
    map_of (ir_Headers r) ''X-Session-ID'' = Some sid \<and> sid = ro_SessionID replay \<and>
    map_of (hb_conns (wd_hub w')) sid = Some a \<and>
    ss_userID (sess_at (wd_hub w') a) = rq_UserID req \<and> ss_provider (sess_at (wd_hub w') a) = provider \<and>
    \<not> sc_done (hb_scopes (wd_hub w') ! a) \<and> sc_committed (hb_scopes (wd_hub w') ! a) \<and>
    rc_seq (ss_rec (sess_at (wd_hub w') a)) = ro_StartSeq replay \<and>
    rc_history (ss_rec (sess_at (wd_hub w') a)) = ro_InitialHistory replay"
  using assms(1)
proof (cases rule: ServeOffer_cases)
  case (served provider headers d guard replay obs hub m x effects)
  then obtain ans where x: "x = Inr ans" using assms(2) by (cases x) auto
  let ?info = "offer_info it req provider replay (wd_guard w')"
  let ?a = "length (hb_scopes hub)"
  have h': "wd_hub w' = scope_commit ?a (snd (newSessionScope (new_session (en_started env) ?info) hub))"
    using served(8) x by (auto simp: Serve_eq split: option.splits)
  note co = committed_scope[where h = hub and t = "en_started env" and info = ?info, folded h']
  have "in_ID ?info = ro_SessionID replay" by (simp add: offer_info_def)
  then have reg: "map_of (hb_conns (wd_hub w')) (ro_SessionID replay) = Some ?a" by (simp add: co update_conv')
  have a: "hb_scopes (wd_hub w') ! ?a = \<lparr>sc_sess = (new_session (en_started env) ?info)\<lparr>ss_cleanup := True\<rparr>,
       sc_committed = True, sc_done = False, sc_cancelled = False, sc_modelCloses = 0, sc_pcCloses = 0\<rparr>"
    by (simp add: co)
  have "map_of (ir_Headers r) ''X-Session-ID'' = Some (ro_SessionID replay)" using served(11) x by blast
  moreover have "dec_Allowed (fst (AllowDial (wd_guard w) provider (en_now env)))"
    "wd_guard w' = RecordDial (snd (AllowDial (wd_guard w) provider (en_now env))) provider None (en_now env)"
    using served(3,4,7) by simp_all
  ultimately show ?thesis
    using served(1,2,5,6,12) reg
    by (intro exI[of _ "ro_SessionID replay"] exI[of _ ?a] exI[of _ provider] exI[of _ headers]
        exI[of _ replay] exI[of _ obs] exI[of _ hub] exI[of _ m] conjI)
      (simp_all add: a new_session_def NewRecorder_def offer_info_def)
qed (use assms(2) in \<open>simp_all add: circuitReject_def replayProtocolReject_def Let_def\<close>)

text \<open>
  C20: A refused or failed offer registers nothing: unless the answer is 200, every session in the
  registry afterwards was there before; a rate-limited, unparsable or guarded offer leaves the hub
  untouched altogether; and a session that is gone afterwards was taken over by its owner: it is the one
  the offer asks to resume, and it belongs to the caller, who is not anonymous, and to the provider asked
  for.
\<close>

theorem offer_refused_harmless:
  assumes "ServeOffer it env req w = (r, w')" and "ir_Status r \<noteq> 200" and "hub_ok (wd_hub w)"
  shows "(map_of (hb_conns (wd_hub w')) sid = Some a \<longrightarrow> map_of (hb_conns (wd_hub w)) sid = Some a) \<and>
    (ir_Status r \<in> {400, 429, 503} \<longrightarrow> wd_hub w' = wd_hub w) \<and>
    (map_of (hb_conns (wd_hub w)) sid = Some a \<longrightarrow> map_of (hb_conns (wd_hub w')) sid = None \<longrightarrow>
      \<not> Anonymous (rq_UserID req) \<and> ss_userID (sess_at (wd_hub w) a) = rq_UserID req \<and>
      ParseProvider (rq_Model req) = Inr (ss_provider (sess_at (wd_hub w) a)) \<and>
      (\<exists>headers. offer_headers req = Inr headers \<and> rh_SessionID headers = sid))"
  using assms(1)
proof (cases rule: ServeOffer_cases)
  case (protocol provider headers d msg obs)
  have "wd_hub w' = wd_hub w"
    using hub_lookup.only_hit_takes_over[OF protocol(5)[unfolded Hub_ResolveReplay_def]] by auto
  then show ?thesis by simp
next
  case (dial provider headers d guard replay obs e)
  then show ?thesis
    using resolve_registry[OF assms(3) dial(5)] by auto
next
  case (served provider headers d guard replay obs hub m x effects)
  then obtain e where x: "x = Inl e" using assms(2) by (cases x) auto
  have "hb_conns (wd_hub w') = hb_conns hub"
    using served(8) x by (auto dest: Serve_Inl_conns)
  then show ?thesis
    using resolve_registry[OF assms(3) served(5)] served(1,2,9) x by auto
qed (simp_all add: circuitReject_def Let_def)

text \<open>An offer that is refused before the dial does not depend on what the dial would have been.\<close>

lemma refused_undialled:
  assumes "ServeOffer it env req w = (r, w')" and "ir_Status r \<in> {400, 429, 503}"
  shows "ServeOffer it (env\<lparr>en_dial := dial\<rparr>) req w = (r, w')"
  using assms(1)
proof (cases rule: ServeOffer_cases)
  case limited
  then show ?thesis using assms(1) by (auto simp: ServeOffer_def split_beta Let_def)
next
  case rejected
  then show ?thesis using assms(1)
    by (cases "ParseProvider (rq_Model req)"; cases "offer_headers req") (auto simp: ServeOffer_def split_beta Let_def)
next
  case (circuit provider d)
  then show ?thesis using assms(1) by (cases "offer_headers req") (auto simp: ServeOffer_def split_beta Let_def)
next
  case (protocol provider headers d msg obs)
  then show ?thesis using assms(1) by (simp add: ServeOffer_def split_beta Let_def)
qed (use assms(2) in \<open>auto split: sum.splits\<close>)

text \<open>
  C21: The guard hears of every dial, and of that dial only.  An offer drives the guard by a run of its
  events for the provider the request names: nothing, a single question, or a question followed by the
  record of the dial's outcome.  Without a record nothing has been dialled: the answer (400, 429, 503)
  and all that the offer does are the same whatever a dial would do.  With a record of a failure the
  dial of that provider failed with the error recorded, which is the one the caller sees (502); with a
  record of success it succeeded (200, or 500 when the set-up of the call failed after it).
\<close>

theorem offer_guard_protocol:
  assumes "ServeOffer it env req w = (r, w')"
  shows "(ir_Status r \<in> {400, 429} \<and> wd_guard w' = wd_guard w \<and>
        (\<forall>dial. ServeOffer it (env\<lparr>en_dial := dial\<rparr>) req w = (r, w')))
    \<or> (\<exists>p. ParseProvider (rq_Model req) = Inr p \<and> ir_Status r \<in> {400, 503} \<and>
        wd_guard w' = run guard_step (wd_guard w) [EvAllow p (en_now env)] \<and>
        (\<forall>dial. ServeOffer it (env\<lparr>en_dial := dial\<rparr>) req w = (r, w')))
    \<or> (\<exists>p history params. ParseProvider (rq_Model req) = Inr p \<and> ir_Status r = 502 \<and>
        en_dial env p history params = Inl (ir_Body r) \<and>
        wd_guard w' = run guard_step (wd_guard w)
          [EvAllow p (en_now env), EvRecord p (Some (ir_Body r)) (en_now env)])
    \<or> (\<exists>p history params m. ParseProvider (rq_Model req) = Inr p \<and> ir_Status r \<in> {200, 500} \<and>
        en_dial env p history params = Inr m \<and>
        wd_guard w' = run guard_step (wd_guard w)
          [EvAllow p (en_now env), EvRecord p None (en_now env)])"
  using assms
proof (cases rule: ServeOffer_cases)
  case (circuit provider d)
  then have "ir_Status r = 503" by (simp add: circuitReject_def Let_def)
  then show ?thesis using circuit(1,2) refused_undialled[OF assms] by auto
next
  case (protocol provider headers d msg obs)
  then have "ir_Status r = 400" by (simp add: replayProtocolReject_def)
  then show ?thesis using protocol(1,3) refused_undialled[OF assms] by auto
next
  case (dial provider headers d guard replay obs e)
  then show ?thesis by auto
next
  case (served provider headers d guard replay obs hub m x effects)
  then show ?thesis by (auto split: sum.splits)
qed (use refused_undialled[OF assms] in simp_all)

subsection \<open>A concrete offer\<close>

definition demo_intake :: "unit intake" where
  "demo_intake = \<lparr>it_Limiter = \<lparr>lm_rdb = None, lm_max = 0, lm_window = 0\<rparr>, it_Publisher = Some KafkaPublisher,
     it_ReplayIndex = None, it_Memory = None,
     it_Replay = \<lparr>rp_Enabled = False, rp_Timeout = 0, rp_Limit = 0\<rparr>, it_NilObserver = True\<rparr>"

definition demo_model_type :: model_type where
  "demo_model_type = \<lparr>mt_restorer = True, mt_transcriber = True, mt_tools = True, mt_interrupter = True,
     mt_supportsInterruption = False\<rparr>"

definition demo_offer_env :: "go_error option \<Rightarrow> offer_env" where
  "demo_offer_env dial_error = \<lparr>en_redisFailure = None, en_newSessionID = ''new'', en_now = 100, en_replayAt = 101,
     en_took = (1, 1),
     en_dial = (\<lambda>provider history params. case dial_error of Some e \<Rightarrow> Inl e | None \<Rightarrow> Inr demo_model_type),
     en_started = 102, en_webrtc = (\<lambda>sdp. env_ok)\<rparr>"

definition demo_request :: intake_request where
  "demo_request = \<lparr>rq_ClientIP = ''1.2.3.4'', rq_Model = ''loopback'', rq_OfferSDP = ''v=0'', rq_UserID = ''u'',
     rq_SessionIDHeader = '''', rq_LastSeqHeader = '''', rq_ReplayVersionHeader = '''',
     rq_ListenerBriefHeader = ''''\<rparr>"

definition demo_world :: "unit world" where
  "demo_world = \<lparr>wd_guard = None, wd_hub = NewHub, wd_redis = (), wd_metrics = metrics_zero\<rparr>"

lemma demo_headers: "offer_headers demo_request = Inr no_headers"
  by (simp add: demo_request_def ParseReplayHeaders_def trim_space_def)

lemma demo_offer_ok:
  "\<exists>r w'. ServeOffer demo_intake (demo_offer_env None) demo_request demo_world = (r, w') \<and> ir_Status r = 200 \<and>
     map_of (ir_Headers r) ''X-Session-ID'' = Some ''new''"
proof -
  have "Serve env_ok t m info h = (Inr ''v=0'', serve_prelude m t info,
      scope_commit (length (hb_scopes h)) (snd (newSessionScope (new_session t info) h)))" for t m info and h :: "tap hub"
    by (simp add: Serve_eq env_ok_def)
  then show ?thesis
    using demo_headers
    by (simp add: ServeOffer_def demo_intake_def demo_offer_env_def demo_world_def Limiter_Allow_def
        ParseProvider_def AllowDial_def skipped_def Hub_ResolveReplay_def ResolveReplay_def no_headers_def Let_def)
      (simp add: demo_request_def)
qed

theorem offer_accepted_witness:
  "\<exists>w' a. snd (ServeOffer demo_intake (demo_offer_env None) demo_request demo_world) = w' \<and>
     map_of (hb_conns (wd_hub w')) ''new'' = Some a \<and> ss_userID (sess_at (wd_hub w') a) = ''u''"
proof -
  obtain r w' where o: "ServeOffer demo_intake (demo_offer_env None) demo_request demo_world = (r, w')"
    "ir_Status r = 200" "map_of (ir_Headers r) ''X-Session-ID'' = Some ''new''" using demo_offer_ok by blast
  from offer_accepted[OF o(1,2)] obtain sid a where
    "map_of (ir_Headers r) ''X-Session-ID'' = Some sid" "map_of (hb_conns (wd_hub w')) sid = Some a"
    "ss_userID (sess_at (wd_hub w') a) = rq_UserID demo_request" by blast
  with o show ?thesis by (simp add: demo_request_def)
qed

lemma demo_offer_failed:
  "\<exists>r w'. ServeOffer demo_intake (demo_offer_env (Some ''refused'')) demo_request
     (demo_world\<lparr>wd_guard := Some (Manager_New \<lparr>OpenAfter = 1, OpenFor = 1, HalfOpenSuccess = 1, AuthOpenFor = 1\<rparr> Map.empty)\<rparr>)
     = (r, w') \<and> ir_Status r = 502"
  using demo_headers
  by (simp add: ServeOffer_def demo_intake_def demo_offer_env_def demo_world_def Limiter_Allow_def
      ParseProvider_def AllowDial_def skipped_def Hub_ResolveReplay_def ResolveReplay_def no_headers_def Let_def)
    (simp add: demo_request_def)

theorem offer_refused_harmless_witness:
  "hb_conns (wd_hub (snd (ServeOffer (demo_intake\<lparr>it_Limiter := \<lparr>lm_rdb = Some \<lparr>rd_INCR = (\<lambda>k r. (5, r)),
       rd_EXPIRE = (\<lambda>k t r. r)\<rparr>, lm_max = 2, lm_window = 60 * second\<rparr>\<rparr>)
     (demo_offer_env None) demo_request demo_world))) = []"
proof -
  let ?it = "demo_intake\<lparr>it_Limiter := \<lparr>lm_rdb = Some \<lparr>rd_INCR = (\<lambda>k r. (5, r)),
       rd_EXPIRE = (\<lambda>k t r. r)\<rparr>, lm_max = 2, lm_window = 60 * second\<rparr>\<rparr>"
  obtain r w' where o: "ServeOffer ?it (demo_offer_env None) demo_request demo_world = (r, w')"
    "ir_Status r = 429"
    by (simp add: ServeOffer_def demo_world_def demo_offer_env_def Limiter_Allow_def incrExpire_def)
  have "hub_ok (wd_hub demo_world)" by (simp add: demo_world_def NewHub_ok)
  from offer_refused_harmless[OF o(1) _ this] o(2) have "wd_hub w' = wd_hub demo_world" by simp
  with o(1) show ?thesis by (simp add: demo_world_def NewHub_def)
qed

theorem offer_guard_protocol_witness:
  "\<exists>p. wd_guard (snd (ServeOffer demo_intake (demo_offer_env None) demo_request demo_world)) =
     run guard_step None [EvAllow p 100, EvRecord p None 100]"
proof -
  obtain r w' where o: "ServeOffer demo_intake (demo_offer_env None) demo_request demo_world = (r, w')"
    "ir_Status r = 200" using demo_offer_ok by blast
  have "en_now (demo_offer_env None) = 100" "wd_guard demo_world = None"
    by (simp_all add: demo_offer_env_def demo_world_def)
  with offer_guard_protocol[OF o(1)] o show ?thesis by auto
qed

subsection \<open>A limit of the guard protocol\<close>

text \<open>
  An offer whose last sequence number is ahead of the session is refused after the guard has been
  asked, and records no outcome.  When the guard was half-open, the probe it gave away stays out: no
  later offer is admitted for that provider until some other outcome is recorded, and none can be.
\<close>

lemma refused_offer_keeps_probe:
  assumes "ServeOffer it env req w = (r, w')" and "wd_guard w = Some m"
    and "it_Limiter it = \<lparr>lm_rdb = None, lm_max = 0, lm_window = 0\<rparr>"
    and "ParseProvider (rq_Model req) = Inr p" and "p \<noteq> ''loopback''"
    and "mg_provider m p = Some b" and "bk_state b = StateHalfOpen" and "\<not> bk_halfOpenProbeInFlight b"
    and "offer_headers req = Inr headers" and "rh_Requested headers" and "\<not> rh_Incomplete headers"
    and "\<not> Anonymous (rq_UserID req)"
    and "SessionState (en_replayAt env) (rh_SessionID headers) (rq_UserID req) (wd_hub w) = Some (p, known)"
    and "known < rh_LastSeq headers"
  shows "ir_Status r = 400 \<and> (\<exists>m' b'. wd_guard w' = Some m' \<and> mg_provider m' p = Some b' \<and>
    bk_state b' = StateHalfOpen \<and> bk_halfOpenProbeInFlight b' \<and>
    \<not> dec_Allowed (fst (AllowDial (wd_guard w') p later)))"
proof -
  have al: "AllowDial (Some m) p (en_now env) = (\<lparr>dec_Allowed = True, dec_State = StateHalfOpen, dec_Reason = '''',
      dec_RetryAfter = 0\<rparr>, Some (put_breaker m p (b\<lparr>bk_halfOpenProbeInFlight := True\<rparr>)))"
    using assms(5-8) by (simp add: AllowDial_def skipped_def Allow_def manager_get_def breaker_allow_def
        allow_half_open_def)
  have rs: "offer_resolve it env req p headers (wd_hub w) =
      (Inl ''X-Last-Seq exceeds known max seq'', [], wd_hub w)"
    using assms(10-14) by (simp add: Hub_ResolveReplay_def ResolveReplay_def Let_def)
  have "r = replayProtocolReject ''X-Last-Seq exceeds known max seq''"
    "wd_guard w' = Some (put_breaker m p (b\<lparr>bk_halfOpenProbeInFlight := True\<rparr>))"
    using assms(1-4,9) al rs by (auto simp: ServeOffer_def Limiter_Allow_def Let_def)
  then show ?thesis
    using assms(5,7)
    by (simp add: replayProtocolReject_def AllowDial_def skipped_def Allow_def manager_get_def breaker_allow_def
        allow_half_open_def put_breaker_def)
qed

subsection \<open>The HTTP adapter\<close>

record http_request =
  hq_Method :: string
  hq_Body :: "go_error + string"
  hq_RemoteAddr :: string
  hq_model :: string
  hq_Header :: "string \<Rightarrow> string"

text \<open>What is written to the response: a redirect, an \<open>http.Error\<close>, or a status with a body.\<close>

datatype http_response =
    Redirected string
  | Errored "(string \<times> string) list" string int
  | Written "(string \<times> string) list" int string

definition writeIntakeResult :: "intake_result \<Rightarrow> http_response" where
  "writeIntakeResult res =
     (let status = (if ir_Status res = 0 then 200 else ir_Status res) in
      if 400 \<le> status then Errored (ir_Headers res) (ir_Body res) status
      else Written (ir_Headers res) status (ir_Body res))"

definition ServeHTTP ::
  "'r intake \<Rightarrow> token_verifier option option \<Rightarrow> bool \<Rightarrow> offer_env \<Rightarrow> http_request \<Rightarrow> 'r world
     \<Rightarrow> http_response \<times> 'r world" where
  "ServeHTTP it authn trustProxy env r w =
     (if hq_Method r \<noteq> ''POST'' then (Redirected ''/demo/'', w)
      else (case hq_Body r of
         Inl err \<Rightarrow> (Errored [] ''read body'' 400, w)
       | Inr body \<Rightarrow>
           (let (res, w1) = ServeOffer it env
                  \<lparr>rq_ClientIP = clientIP trustProxy (hq_Header r ''X-Forwarded-For'') (hq_RemoteAddr r),
                   rq_Model = hq_model r, rq_OfferSDP = body,
                   rq_UserID = Authenticator_UserID authn (hq_Header r ''Authorization''),
                   rq_SessionIDHeader = hq_Header r ''X-Session-ID'',
                   rq_LastSeqHeader = hq_Header r ''X-Last-Seq'',
                   rq_ReplayVersionHeader = hq_Header r ''X-Replay-Version'',
                   rq_ListenerBriefHeader = hq_Header r ''X-Listener-Brief''\<rparr> w in
            (writeIntakeResult res, w1))))"

end
