(* ===== verification/Adapter.thy ===== *)
theory Adapter
  imports Audio Model "HOL-Library.Sublist"
begin

text \<open>
  The live half that the two streaming adapters, \<open>internal/model/doubao\<close> and \<open>internal/model/gemini\<close>,
  write the same way: a reader goroutine that turns each server message into operations on bounded
  channels, and the bridge's calls that receive from them (\<open>Recv\<close>, \<open>RecvTranscript\<close>,
  \<open>RecvToolCall\<close>, \<open>RecvInterrupted\<close>, \<open>HandleInterrupted\<close>).

  The goroutines interleave at their channel operations, so these are the events of a machine: the
  reader's operations still to do for the current message are a list of actions, a blocked operation
  leaves the state as it is, and a \<open>select\<close> with several ready cases takes the context's when the
  event says so.  What the adapter does with a message is a parameter, the handler; its laws are the
  locale \<open>message_handler\<close>.
\<close>

subsection \<open>Channels\<close>

record 'a chan =
  ch_items :: "'a list"
  ch_cap :: nat
  ch_closed :: bool

definition make_chan :: "nat \<Rightarrow> 'a chan" where
  "make_chan n = \<lparr>ch_items = [], ch_cap = n, ch_closed = False\<rparr>"

definition ch_full :: "'a chan \<Rightarrow> bool" where
  "ch_full c = (ch_cap c \<le> length (ch_items c))"

definition ch_put :: "'a \<Rightarrow> 'a chan \<Rightarrow> 'a chan" where
  "ch_put x c = c\<lparr>ch_items := ch_items c @ [x]\<rparr>"

text \<open>A receive is ready when there is an item or the channel is closed.\<close>

definition ch_ready :: "'a chan \<Rightarrow> bool" where
  "ch_ready c = (ch_items c \<noteq> [] \<or> ch_closed c)"

definition ch_close :: "'a chan \<Rightarrow> 'a chan" where
  "ch_close c = c\<lparr>ch_closed := True\<rparr>"

lemma chan_simps [simp]:
  "ch_items (make_chan n) = []" "ch_cap (make_chan n) = n" "\<not> ch_closed (make_chan n)"
  "ch_items (ch_put x c) = ch_items c @ [x]" "ch_cap (ch_put x c) = ch_cap c"
  "ch_closed (ch_put x c) = ch_closed c"
  "ch_items (ch_close c) = ch_items c" "ch_cap (ch_close c) = ch_cap c" "ch_closed (ch_close c)"
  by (simp_all add: make_chan_def ch_put_def ch_close_def)

text \<open>
  \<open>drainAudioQueue\<close>: receive until the receive would block.  A receive from a closed and empty channel
  does not block, it returns the zero value; the fuel bounds the iterations, and \<^const>\<open>None\<close> says that the
  loop is still running.
\<close>

fun drainAudioQueue :: "nat \<Rightarrow> 'a chan \<Rightarrow> 'a chan option" where
  "drainAudioQueue 0 c = None"
| "drainAudioQueue (Suc n) c =
     (if ch_ready c then drainAudioQueue n (c\<lparr>ch_items := tl (ch_items c)\<rparr>) else Some c)"

lemma drain_open:
  assumes "\<not> ch_closed c" and "length (ch_items c) < n"
  shows "drainAudioQueue n c = Some (c\<lparr>ch_items := []\<rparr>)"
  using assms
proof (induction n arbitrary: c)
  case (Suc n)
  then show ?case by (cases "ch_items c") (auto simp: ch_ready_def)
qed simp

lemma drain_closed: "ch_closed c \<Longrightarrow> drainAudioQueue n c = None"
  by (induction n arbitrary: c) (auto simp: ch_ready_def)

subsection \<open>The reader and its actions\<close>

datatype 't action =
  PushAudio "i16 list" | PushText 't | PushTool tool_call | Barge | Finish | Crash

text \<open>
  \<open>ad_reader\<close> holds the actions the reader has still to do for its current message; \<^const>\<open>None\<close> when it
  has returned.  \<open>ad_crashed\<close>: a panic ended the process.
\<close>

record ('t, 'b) adapter =
  ad_audio :: "i16 list chan"
  ad_text :: "'t chan"
  ad_tools :: "tool_call chan"
  ad_irq :: "unit chan"
  ad_cancelled :: bool
  ad_crashed :: bool
  ad_reader :: "'t action list option"
  ad_buf :: 'b

definition new_adapter :: "'b \<Rightarrow> ('t, 'b) adapter" where
  "new_adapter b =
     \<lparr>ad_audio = make_chan 64, ad_text = make_chan 64, ad_tools = make_chan 8, ad_irq = make_chan 1,
      ad_cancelled = False, ad_crashed = False, ad_reader = Some [], ad_buf = b\<rparr>"

text \<open>The deferred closes of the reader.\<close>

definition end_reader :: "('t, 'b) adapter \<Rightarrow> ('t, 'b) adapter" where
  "end_reader s = s\<lparr>ad_audio := ch_close (ad_audio s), ad_text := ch_close (ad_text s),
                    ad_tools := ch_close (ad_tools s), ad_irq := ch_close (ad_irq s), ad_reader := None\<rparr>"

text \<open>
  \<open>signalInterrupted\<close>: drain the queued audio, then leave one signal.  The reader is the only sender,
  so the channel is open and the drain stops at the empty queue.
\<close>

definition signalInterrupted :: "('t, 'b) adapter \<Rightarrow> ('t, 'b) adapter" where
  "signalInterrupted s =
     (let s1 = s\<lparr>ad_audio := (ad_audio s)\<lparr>ch_items := []\<rparr>\<rparr> in
      if ch_full (ad_irq s1) then s1 else s1\<lparr>ad_irq := ch_put () (ad_irq s1)\<rparr>)"

fun is_tool :: "'t action \<Rightarrow> bool" where
  "is_tool (PushTool c) = True"
| "is_tool _ = False"

text \<open>
  One action; \<open>ctx\<close>: when the send and the cancelled context are both ready, the context wins.  On the
  context an audio send returns from the reader, a text send is skipped, and a tool call returns from
  its loop, skipping the message's other calls.
\<close>

definition act :: "bool \<Rightarrow> 't action \<Rightarrow> 't action list \<Rightarrow> ('t, 'b) adapter \<Rightarrow> ('t, 'b) adapter" where
  "act ctx a rest s =
     (let go = s\<lparr>ad_reader := Some rest\<rparr> in
      case a of
        PushAudio x \<Rightarrow>
          (if ad_cancelled s \<and> (ctx \<or> ch_full (ad_audio s)) then end_reader s
           else if ch_full (ad_audio s) then s else go\<lparr>ad_audio := ch_put x (ad_audio s)\<rparr>)
      | PushText t \<Rightarrow>
          (if ad_cancelled s \<and> (ctx \<or> ch_full (ad_text s)) then go
           else if ch_full (ad_text s) then s else go\<lparr>ad_text := ch_put t (ad_text s)\<rparr>)
      | PushTool c \<Rightarrow>
          (if ad_cancelled s \<and> (ctx \<or> ch_full (ad_tools s))
           then s\<lparr>ad_reader := Some (dropWhile is_tool rest)\<rparr>
           else if ch_full (ad_tools s) then s else go\<lparr>ad_tools := ch_put c (ad_tools s)\<rparr>)
      | Barge \<Rightarrow> signalInterrupted go
      | Finish \<Rightarrow> end_reader s
      | Crash \<Rightarrow> s\<lparr>ad_crashed := True, ad_reader := None\<rparr>)"

definition reader_step :: "bool \<Rightarrow> ('t, 'b) adapter \<Rightarrow> ('t, 'b) adapter" where
  "reader_step ctx s =
     (case ad_reader s of Some (a # rest) \<Rightarrow> act ctx a rest s | _ \<Rightarrow> s)"

subsection \<open>The bridge's calls\<close>

datatype 'v got = Got 'v | EOF | Blocked

text \<open>\<open>Recv\<close> and its siblings: one item of a channel, unless the cancelled context wins.\<close>

definition ch_recv :: "bool \<Rightarrow> bool \<Rightarrow> 'a chan \<Rightarrow> 'a got \<times> 'a chan" where
  "ch_recv cancelled ctx c =
     (if cancelled \<and> (ctx \<or> \<not> ch_ready c) then (EOF, c)
      else (case ch_items c of
              x # xs \<Rightarrow> (Got x, c\<lparr>ch_items := xs\<rparr>)
            | [] \<Rightarrow> (if ch_closed c then EOF else Blocked, c)))"

definition Recv :: "bool \<Rightarrow> ('t, 'b) adapter \<Rightarrow> i16 list got \<times> ('t, 'b) adapter" where
  "Recv ctx s = (let (r, c) = ch_recv (ad_cancelled s) ctx (ad_audio s) in (r, s\<lparr>ad_audio := c\<rparr>))"

definition recvTranscript :: "bool \<Rightarrow> ('t, 'b) adapter \<Rightarrow> 't got \<times> ('t, 'b) adapter" where
  "recvTranscript ctx s = (let (r, c) = ch_recv (ad_cancelled s) ctx (ad_text s) in (r, s\<lparr>ad_text := c\<rparr>))"

definition RecvToolCall :: "bool \<Rightarrow> ('t, 'b) adapter \<Rightarrow> tool_call got \<times> ('t, 'b) adapter" where
  "RecvToolCall ctx s = (let (r, c) = ch_recv (ad_cancelled s) ctx (ad_tools s) in (r, s\<lparr>ad_tools := c\<rparr>))"

text \<open>
  \<open>RecvInterrupted\<close> does not test whether the channel is closed: a receive from the closed channel is
  a signal.  \<^const>\<open>None\<close> is its error.
\<close>

definition RecvInterrupted :: "bool \<Rightarrow> ('t, 'b) adapter \<Rightarrow> bool option \<times> ('t, 'b) adapter" where
  "RecvInterrupted ctx s =
     (if ad_cancelled s \<and> (ctx \<or> \<not> ch_ready (ad_irq s)) then (None, s)
      else if ch_ready (ad_irq s) then (Some True, s\<lparr>ad_irq := (ad_irq s)\<lparr>ch_items := tl (ch_items (ad_irq s))\<rparr>\<rparr>)
      else (Some False, s))"

text \<open>\<^const>\<open>None\<close>: the drain has not returned within the fuel.\<close>

definition HandleInterrupted :: "nat \<Rightarrow> ('t, 'b) adapter \<Rightarrow> ('t, 'b) adapter option" where
  "HandleInterrupted fuel s = map_option (\<lambda>c. s\<lparr>ad_audio := c\<rparr>) (drainAudioQueue fuel (ad_audio s))"


subsection \<open>The adapter as a machine\<close>

datatype 'm event =
  Message 'm | ReadError | Reader bool | CallRecv bool | CallRecvTranscript bool | CallRecvToolCall bool
| CallRecvInterrupted bool | CallHandleInterrupted | Cancel

datatype ('m, 't) out =
  Accepted 'm | GotAudio "i16 list got" | GotText "'t got" | GotTool "tool_call got"
| GotInterrupt "bool option" | Hung | Quiet

type_synonym ('m, 't, 'b) handler = "'b \<Rightarrow> 'm \<Rightarrow> 't action list \<times> 'b"

text \<open>
  A panic ended every goroutine.  The reader reads when it has finished with the message before.  A \<open>HandleInterrupted\<close> on the closed
  channel empties it and never returns (\<^const>\<open>Hung\<close>).
\<close>

definition ad_step ::
  "('m, 't, 'b) handler \<Rightarrow> ('t, 'b) adapter \<Rightarrow> 'm event \<Rightarrow> ('m, 't) out \<times> ('t, 'b) adapter" where
  "ad_step h s e =
     (if ad_crashed s then (Quiet, s) else
      case e of
        Message m \<Rightarrow>
          (if ad_reader s = Some []
           then (Accepted m, s\<lparr>ad_reader := Some (fst (h (ad_buf s) m)), ad_buf := snd (h (ad_buf s) m)\<rparr>)
           else (Quiet, s))
      | ReadError \<Rightarrow> (Quiet, if ad_reader s = Some [] then end_reader s else s)
      | Reader ctx \<Rightarrow> (Quiet, reader_step ctx s)
      | CallRecv ctx \<Rightarrow> map_prod GotAudio id (Recv ctx s)
      | CallRecvTranscript ctx \<Rightarrow> map_prod GotText id (recvTranscript ctx s)
      | CallRecvToolCall ctx \<Rightarrow> map_prod GotTool id (RecvToolCall ctx s)
      | CallRecvInterrupted ctx \<Rightarrow> map_prod GotInterrupt id (RecvInterrupted ctx s)
      | CallHandleInterrupted \<Rightarrow>
          (case HandleInterrupted (Suc (length (ch_items (ad_audio s)))) s of
             Some s' \<Rightarrow> (Quiet, s')
           | None \<Rightarrow> (Hung, s\<lparr>ad_audio := (ad_audio s)\<lparr>ch_items := []\<rparr>\<rparr>))
      | Cancel \<Rightarrow> (Quiet, s\<lparr>ad_cancelled := True\<rparr>))"

text \<open>What a list of outputs delivered, and what a list of actions sends.\<close>

fun messages_read :: "('m, 't) out list \<Rightarrow> 'm list" where
  "messages_read [] = []"
| "messages_read (Accepted m # os) = m # messages_read os"
| "messages_read (_ # os) = messages_read os"

fun texts_got :: "('m, 't) out list \<Rightarrow> 't list" where
  "texts_got [] = []"
| "texts_got (GotText (Got t) # os) = t # texts_got os"
| "texts_got (_ # os) = texts_got os"

fun audio_got :: "('m, 't) out list \<Rightarrow> i16 list list" where
  "audio_got [] = []"
| "audio_got (GotAudio (Got x) # os) = x # audio_got os"
| "audio_got (_ # os) = audio_got os"

fun texts :: "'t action list \<Rightarrow> 't list" where
  "texts [] = []"
| "texts (PushText t # as) = t # texts as"
| "texts (_ # as) = texts as"

fun audios :: "'t action list \<Rightarrow> i16 list list" where
  "audios [] = []"
| "audios (PushAudio x # as) = x # audios as"
| "audios (_ # as) = audios as"

text \<open>The actions of a sequence of messages, and the buffer after them.\<close>

fun handle_all :: "('m, 't, 'b) handler \<Rightarrow> 'b \<Rightarrow> 'm list \<Rightarrow> 't action list \<times> 'b" where
  "handle_all h b [] = ([], b)"
| "handle_all h b (m # ms) =
     (let (a, b1) = h b m; (as, b2) = handle_all h b1 ms in (a @ as, b2))"

definition todo :: "('t, 'b) adapter \<Rightarrow> 't action list" where
  "todo s = (case ad_reader s of None \<Rightarrow> [] | Some as \<Rightarrow> as)"

definition pending_texts :: "('t, 'b) adapter \<Rightarrow> 't list" where
  "pending_texts s = ch_items (ad_text s) @ texts (todo s)"

definition pending_audio :: "('t, 'b) adapter \<Rightarrow> i16 list list" where
  "pending_audio s = ch_items (ad_audio s) @ audios (todo s)"

text \<open>An action that ends the reader is the last of its message.\<close>

definition ends_last :: "'t action list \<Rightarrow> bool" where
  "ends_last as = (\<forall>a \<in> set (butlast as). a \<noteq> Finish \<and> a \<noteq> Crash)"

lemma ends_last_Cons: "ends_last (a # as) \<longleftrightarrow> as = [] \<or> a \<noteq> Finish \<and> a \<noteq> Crash \<and> ends_last as"
  by (auto simp: ends_last_def)

lemma ends_last_Nil [simp]: "ends_last []"
  by (simp add: ends_last_def)

lemma ends_last_dropWhile: "ends_last as \<Longrightarrow> ends_last (dropWhile P as)"
  by (induction as) (auto simp: ends_last_Cons)

definition no_end :: "'t action list \<Rightarrow> bool" where
  "no_end as = (Finish \<notin> set as \<and> Crash \<notin> set as)"

lemma no_end_ends_last: "no_end as \<Longrightarrow> ends_last as"
  by (auto simp: no_end_def ends_last_def dest: in_set_butlastD)

lemma texts_append [simp]: "texts (as @ bs) = texts as @ texts bs"
  by (induction as rule: texts.induct) auto

lemma audios_append [simp]: "audios (as @ bs) = audios as @ audios bs"
  by (induction as rule: audios.induct) auto

lemma texts_dropWhile_tool [simp]: "texts (dropWhile is_tool as) = texts as"
  by (induction as rule: texts.induct) auto

lemma audios_dropWhile_tool [simp]: "audios (dropWhile is_tool as) = audios as"
  by (induction as rule: audios.induct) auto

lemma texts_got_append [simp]: "texts_got (os @ ps) = texts_got os @ texts_got ps"
  by (induction os rule: texts_got.induct) auto

lemma audio_got_append [simp]: "audio_got (os @ ps) = audio_got os @ audio_got ps"
  by (induction os rule: audio_got.induct) auto

lemma messages_read_append [simp]: "messages_read (os @ ps) = messages_read os @ messages_read ps"
  by (induction os rule: messages_read.induct) auto

lemma handle_all_fst_Cons:
  "fst (handle_all h b (m # ms)) = fst (h b m) @ fst (handle_all h (snd (h b m)) ms)"
  "snd (handle_all h b (m # ms)) = snd (handle_all h (snd (h b m)) ms)"
  by (simp_all add: split_beta Let_def)

lemma handle_all_append:
  "fst (handle_all h b (ms @ ns)) = fst (handle_all h b ms) @ fst (handle_all h (snd (handle_all h b ms)) ns)"
  "snd (handle_all h b (ms @ ns)) = snd (handle_all h (snd (handle_all h b ms)) ns)"
  by (induction ms arbitrary: b) (simp_all add: handle_all_fst_Cons del: handle_all.simps(2))

subsection \<open>The contract of a handler, and what the channels then keep\<close>

text \<open>The shape of a reachable adapter.\<close>

definition adapter_ok :: "('t, 'b) adapter \<Rightarrow> bool" where
  "adapter_ok s =
     (length (ch_items (ad_audio s)) \<le> ch_cap (ad_audio s) \<and> length (ch_items (ad_text s)) \<le> ch_cap (ad_text s) \<and>
      length (ch_items (ad_tools s)) \<le> ch_cap (ad_tools s) \<and> length (ch_items (ad_irq s)) \<le> ch_cap (ad_irq s) \<and>
      ch_cap (ad_audio s) = 64 \<and> ch_cap (ad_text s) = 64 \<and> ch_cap (ad_tools s) = 8 \<and> ch_cap (ad_irq s) = 1 \<and>
      (ch_closed (ad_audio s) \<longleftrightarrow> ad_reader s = None \<and> \<not> ad_crashed s) \<and>
      (ch_closed (ad_text s) \<longleftrightarrow> ch_closed (ad_audio s)) \<and> (ch_closed (ad_tools s) \<longleftrightarrow> ch_closed (ad_audio s)) \<and>
      (ch_closed (ad_irq s) \<longleftrightarrow> ch_closed (ad_audio s)) \<and> (ad_crashed s \<longrightarrow> ad_reader s = None) \<and>
      ends_last (todo s))"

lemma adapter_ok_new [simp]: "adapter_ok (new_adapter b)"
  by (simp add: adapter_ok_def new_adapter_def todo_def)


locale message_handler =
  fixes handle :: "('m, 't, 'b) handler"
  assumes handle_ends_last: "ends_last (fst (handle b m))"
begin

lemma reader_step_ok: "adapter_ok s \<Longrightarrow> adapter_ok (reader_step ctx s)"
  by (auto simp: adapter_ok_def reader_step_def act_def todo_def Let_def end_reader_def signalInterrupted_def
      ch_full_def not_less_eq_eq ends_last_Cons ends_last_dropWhile split: option.splits list.splits action.splits)

lemma ch_recv_ok:
  "ch_cap (snd (ch_recv b ctx c)) = ch_cap c" "ch_closed (snd (ch_recv b ctx c)) = ch_closed c"
  "length (ch_items (snd (ch_recv b ctx c))) \<le> length (ch_items c)"
  by (auto simp: ch_recv_def split: list.splits)

lemma handle_interrupted_ok:
  "HandleInterrupted n s = Some s' \<Longrightarrow> \<not> ch_closed (ad_audio s)"
  using drain_closed by (fastforce simp: HandleInterrupted_def)

lemma call_ok:
  assumes "adapter_ok s"
  shows "adapter_ok (snd (Recv ctx s))" "adapter_ok (snd (recvTranscript ctx s))"
    "adapter_ok (snd (RecvToolCall ctx s))" "adapter_ok (snd (RecvInterrupted ctx s))"
proof -
  note [simp] = Recv_def recvTranscript_def RecvToolCall_def RecvInterrupted_def split_beta ch_recv_ok(1,2)
  show "adapter_ok (snd (Recv ctx s))" "adapter_ok (snd (recvTranscript ctx s))"
    "adapter_ok (snd (RecvToolCall ctx s))" "adapter_ok (snd (RecvInterrupted ctx s))"
    using assms ch_recv_ok(3)[of "ad_cancelled s" ctx "ad_audio s"] ch_recv_ok(3)[of "ad_cancelled s" ctx "ad_text s"]
      ch_recv_ok(3)[of "ad_cancelled s" ctx "ad_tools s"]
    by (auto simp: adapter_ok_def todo_def)
qed

lemma interrupt_cases:
  assumes "adapter_ok s"
  shows "HandleInterrupted (Suc (length (ch_items (ad_audio s)))) s =
    (if ch_closed (ad_audio s) then None else Some (s\<lparr>ad_audio := (ad_audio s)\<lparr>ch_items := []\<rparr>\<rparr>))"
  by (simp add: HandleInterrupted_def drain_closed drain_open del: drainAudioQueue.simps)

lemma step_ok:
  assumes "adapter_ok s"
  shows "adapter_ok (snd (ad_step handle s e))"
proof (cases "ad_crashed s")
  case True
  with assms show ?thesis by (simp add: ad_step_def)
next
  case False
  note ok = call_ok[OF assms] reader_step_ok[OF assms] interrupt_cases[OF assms]
  from assms False show ?thesis
  proof (cases e)
    case (Message m)
    then show ?thesis using assms handle_ends_last[of "ad_buf s" m]
      by (auto simp: ad_step_def adapter_ok_def todo_def)
  next
    case ReadError
    then show ?thesis using assms by (auto simp: ad_step_def adapter_ok_def todo_def end_reader_def)
  next
    case CallHandleInterrupted
    then show ?thesis using assms ok(6) False by (auto simp: ad_step_def adapter_ok_def todo_def)
  next
    case Cancel
    then show ?thesis using assms by (auto simp: ad_step_def adapter_ok_def todo_def)
  qed (use ok in \<open>auto simp: ad_step_def\<close>)
qed

end


context message_handler
begin

text \<open>The bounds and the flags of the channels are an invariant of the machine.\<close>

lemma collect_ok: "adapter_ok s \<Longrightarrow> adapter_ok (snd (collect (ad_step handle) s es))"
proof (induction es arbitrary: s)
  case (Cons e es)
  then show ?case using step_ok[of s e] by (simp add: split_beta Let_def)
qed simp

text \<open>One step neither loses nor duplicates a text while the context is live.\<close>

lemma reader_texts:
  assumes "adapter_ok s" and "\<not> ad_cancelled s" and "\<not> ad_crashed s"
  shows "pending_texts (reader_step ctx s) = pending_texts s" and "\<not> ad_cancelled (reader_step ctx s)"
    and "ad_buf (reader_step ctx s) = ad_buf s"
  using assms
  by (auto simp: pending_texts_def reader_step_def act_def todo_def Let_def end_reader_def signalInterrupted_def
      adapter_ok_def ends_last_Cons split: option.splits list.splits action.splits)

lemma ch_recv_live:
  "fst (ch_recv False ctx c) = Got x \<Longrightarrow> ch_items c = x # ch_items (snd (ch_recv False ctx c))"
  "fst (ch_recv False ctx c) \<in> {EOF, Blocked} \<Longrightarrow> snd (ch_recv False ctx c) = c"
  by (auto simp: ch_recv_def split: list.splits if_splits)

lemma texts_of_GotText: "texts_got [GotText g] = (case g of Got t \<Rightarrow> [t] | _ \<Rightarrow> [])"
  by (cases g) auto

lemma step_texts:
  assumes ok: "adapter_ok s" and live: "\<not> ad_cancelled s" and e: "e \<noteq> Cancel"
    and st: "ad_step handle s e = (o', s')"
  shows "texts_got [o'] @ pending_texts s' = pending_texts s @ texts (fst (handle_all handle (ad_buf s) (messages_read [o'])))
    \<and> ad_buf s' = snd (handle_all handle (ad_buf s) (messages_read [o'])) \<and> \<not> ad_cancelled s'"
proof (cases "ad_crashed s")
  case True
  with st live show ?thesis by (auto simp: ad_step_def)
next
  case False
  show ?thesis
  proof (cases e)
    case (Message m)
    with st False live show ?thesis
      by (auto simp: ad_step_def pending_texts_def todo_def split_beta Let_def split: if_splits)
  next
    case ReadError
    with st False live show ?thesis
      by (auto simp: ad_step_def pending_texts_def todo_def end_reader_def split: if_splits)
  next
    case (Reader ctx)
    with st False live reader_texts[OF ok live False, of ctx] show ?thesis by (auto simp: ad_step_def)
  next
    case (CallRecv ctx)
    with st False live show ?thesis
      by (auto simp: ad_step_def Recv_def split_beta pending_texts_def todo_def Let_def)
  next
    case (CallRecvTranscript ctx)
    then have "o' = GotText (fst (ch_recv False ctx (ad_text s)))" "s' = s\<lparr>ad_text := snd (ch_recv False ctx (ad_text s))\<rparr>"
      using st False live by (auto simp: ad_step_def recvTranscript_def split_beta)
    moreover note ch_recv_live[of ctx "ad_text s"]
    ultimately show ?thesis using live
      by (cases "fst (ch_recv False ctx (ad_text s))") (auto simp: pending_texts_def todo_def)
  next
    case (CallRecvToolCall ctx)
    with st False live show ?thesis
      by (auto simp: ad_step_def RecvToolCall_def split_beta pending_texts_def todo_def Let_def)
  next
    case (CallRecvInterrupted ctx)
    with st False live show ?thesis
      by (auto simp: ad_step_def RecvInterrupted_def pending_texts_def todo_def split: if_splits)
  next
    case CallHandleInterrupted
    with st False live interrupt_cases[OF ok] show ?thesis
      by (auto simp: ad_step_def pending_texts_def todo_def split: if_splits)
  qed (use e in simp)
qed

lemma texts_got_Cons: "texts_got (x # os) = texts_got [x] @ texts_got os"
  using texts_got_append[of "[x]" os] by simp

lemma messages_read_Cons: "messages_read (x # os) = messages_read [x] @ messages_read os"
  using messages_read_append[of "[x]" os] by simp

lemma texts_exact:
  assumes "adapter_ok s" and "\<not> ad_cancelled s" and "Cancel \<notin> set es"
    and "collect (ad_step handle) s es = (os, s')"
  shows "texts_got os @ pending_texts s' = pending_texts s @ texts (fst (handle_all handle (ad_buf s) (messages_read os)))"
  using assms
proof (induction es arbitrary: s os)
  case (Cons e es)
  obtain o1 s1 where st: "ad_step handle s e = (o1, s1)" by fastforce
  obtain os1 where r: "collect (ad_step handle) s1 es = (os1, s')" and os: "os = o1 # os1"
    using Cons.prems(4) st by (auto simp: Let_def split: prod.splits)
  from step_texts[OF Cons.prems(1,2) _ st] Cons.prems(3)
  have one: "texts_got [o1] @ pending_texts s1 = pending_texts s @ texts (fst (handle_all handle (ad_buf s) (messages_read [o1])))"
    and b: "ad_buf s1 = snd (handle_all handle (ad_buf s) (messages_read [o1]))" and l: "\<not> ad_cancelled s1" by auto
  have "adapter_ok s1" using step_ok[OF Cons.prems(1), of e] st by simp
  from Cons.IH[OF this l _ r] Cons.prems(3)
  have rest: "texts_got os1 @ pending_texts s' = pending_texts s1 @ texts (fst (handle_all handle (ad_buf s1) (messages_read os1)))"
    by simp
  have "texts_got os @ pending_texts s' = texts_got [o1] @ (texts_got os1 @ pending_texts s')"
    by (simp add: os texts_got_Cons[of o1 os1])
  also have "\<dots> = (texts_got [o1] @ pending_texts s1) @ texts (fst (handle_all handle (ad_buf s1) (messages_read os1)))"
    by (simp add: rest)
  also have "\<dots> = pending_texts s @ texts (fst (handle_all handle (ad_buf s) (messages_read [o1] @ messages_read os1)))"
    by (simp add: one b handle_all_append)
  finally show ?case by (simp add: os messages_read_Cons[of o1 os1])
qed simp

end


context message_handler
begin

text \<open>Audio may be dropped (barge-in), but what is delivered keeps its order.\<close>

lemma subseq_drop_left: "subseq ys (xs @ ys)"
  by (induction xs) auto

lemma reader_audio:
  "subseq (pending_audio (reader_step ctx s)) (pending_audio s) \<and> ad_buf (reader_step ctx s) = ad_buf s"
  by (auto simp: pending_audio_def reader_step_def act_def todo_def Let_def end_reader_def signalInterrupted_def
      intro: subseq_drop_left list_emb_append_mono split: option.splits list.splits action.splits)

lemma ch_recv_any:
  "fst (ch_recv b ctx c) = Got x \<Longrightarrow> ch_items c = x # ch_items (snd (ch_recv b ctx c))"
  "fst (ch_recv b ctx c) \<in> {EOF, Blocked} \<Longrightarrow> snd (ch_recv b ctx c) = c"
  by (auto simp: ch_recv_def split: list.splits if_splits)

lemma step_audio:
  assumes ok: "adapter_ok s" and st: "ad_step handle s e = (o', s')"
  shows "subseq (audio_got [o'] @ pending_audio s')
      (pending_audio s @ audios (fst (handle_all handle (ad_buf s) (messages_read [o']))))
    \<and> ad_buf s' = snd (handle_all handle (ad_buf s) (messages_read [o']))"
proof (cases "ad_crashed s")
  case True
  with st show ?thesis by (auto simp: ad_step_def)
next
  case False
  show ?thesis
  proof (cases e)
    case (Message m)
    with st False show ?thesis
      by (auto simp: ad_step_def pending_audio_def todo_def split_beta Let_def split: if_splits)
  next
    case ReadError
    with st False show ?thesis
      by (auto simp: ad_step_def pending_audio_def todo_def end_reader_def split: if_splits)
  next
    case (Reader ctx)
    with st False reader_audio[of ctx s] show ?thesis by (auto simp: ad_step_def)
  next
    case (CallRecv ctx)
    then have "o' = GotAudio (fst (ch_recv (ad_cancelled s) ctx (ad_audio s)))"
      "s' = s\<lparr>ad_audio := snd (ch_recv (ad_cancelled s) ctx (ad_audio s))\<rparr>"
      using st False by (auto simp: ad_step_def Recv_def split_beta)
    moreover note ch_recv_any[of "ad_cancelled s" ctx "ad_audio s"]
    ultimately show ?thesis
      by (cases "fst (ch_recv (ad_cancelled s) ctx (ad_audio s))") (auto simp: pending_audio_def todo_def)
  next
    case (CallRecvTranscript ctx)
    with st False show ?thesis
      by (auto simp: ad_step_def recvTranscript_def split_beta pending_audio_def todo_def Let_def)
  next
    case (CallRecvToolCall ctx)
    with st False show ?thesis
      by (auto simp: ad_step_def RecvToolCall_def split_beta pending_audio_def todo_def Let_def)
  next
    case (CallRecvInterrupted ctx)
    with st False show ?thesis
      by (auto simp: ad_step_def RecvInterrupted_def pending_audio_def todo_def split: if_splits)
  next
    case CallHandleInterrupted
    with st False interrupt_cases[OF ok] show ?thesis
      by (auto simp: ad_step_def pending_audio_def todo_def subseq_drop_left split: if_splits)
  next
    case Cancel
    with st False show ?thesis by (auto simp: ad_step_def pending_audio_def todo_def)
  qed
qed

lemma audio_got_Cons: "audio_got (x # os) = audio_got [x] @ audio_got os"
  using audio_got_append[of "[x]" os] by simp

lemma audio_ordered:
  assumes "adapter_ok s" and "collect (ad_step handle) s es = (os, s')"
  shows "subseq (audio_got os @ pending_audio s')
    (pending_audio s @ audios (fst (handle_all handle (ad_buf s) (messages_read os))))"
  using assms
proof (induction es arbitrary: s os)
  case (Cons e es)
  obtain o1 s1 where st: "ad_step handle s e = (o1, s1)" by fastforce
  obtain os1 where r: "collect (ad_step handle) s1 es = (os1, s')" and os: "os = o1 # os1"
    using Cons.prems(2) st by (auto simp: Let_def split: prod.splits)
  from step_audio[OF Cons.prems(1) st]
  have one: "subseq (audio_got [o1] @ pending_audio s1)
      (pending_audio s @ audios (fst (handle_all handle (ad_buf s) (messages_read [o1]))))"
    and b: "ad_buf s1 = snd (handle_all handle (ad_buf s) (messages_read [o1]))" by auto
  let ?later = "audios (fst (handle_all handle (ad_buf s1) (messages_read os1)))"
  have "adapter_ok s1" using step_ok[OF Cons.prems(1), of e] st by simp
  from Cons.IH[OF this r]
  have "subseq (audio_got [o1] @ audio_got os1 @ pending_audio s') (audio_got [o1] @ pending_audio s1 @ ?later)"
    by (auto intro: list_emb_append_mono[OF subseq_order.refl])
  also have "subseq \<dots> ((pending_audio s @ audios (fst (handle_all handle (ad_buf s) (messages_read [o1])))) @ ?later)"
    using list_emb_append_mono[OF one subseq_order.refl[of ?later]] by simp
  finally show ?case
    by (simp add: os messages_read_Cons[of o1 os1] audio_got_Cons[of o1 os1] b handle_all_append)
qed simp

text \<open>
  After the reader has carried out a barge-in, the audio queue is empty, a signal is pending, and what
  is delivered later was sent after it.
\<close>

lemma barge_in:
  assumes ok: "adapter_ok s" and "ad_reader s = Some (Barge # rest)"
    and r: "collect (ad_step handle) (snd (ad_step handle s (Reader ctx))) es = (os, s')"
  shows "subseq (audio_got os) (audios rest @ audios (fst (handle_all handle (ad_buf s) (messages_read os))))
    \<and> ch_items (ad_irq (snd (ad_step handle s (Reader ctx)))) = [()]"
proof -
  let ?s = "snd (ad_step handle s (Reader ctx))"
  have nc: "\<not> ad_crashed s" using assms(1,2) by (auto simp: adapter_ok_def)
  then have "pending_audio ?s = audios rest" "ad_buf ?s = ad_buf s"
    using assms(2) by (auto simp: ad_step_def reader_step_def act_def signalInterrupted_def pending_audio_def todo_def Let_def)
  moreover have "subseq (audio_got os) (audio_got os @ pending_audio s')"
    by (auto intro: prefix_imp_subseq)
  moreover have "adapter_ok ?s" by (rule step_ok[OF ok])
  moreover from ok have "length (ch_items (ad_irq s)) \<le> 1" "ch_cap (ad_irq s) = 1" by (auto simp: adapter_ok_def)
  then have "ch_items (ad_irq ?s) = [()]"
    using assms(2) nc by (cases "ch_items (ad_irq s)")
      (auto simp: ad_step_def reader_step_def act_def signalInterrupted_def Let_def ch_full_def)
  ultimately show ?thesis using audio_ordered[OF _ r] subseq_order.trans by metis
qed

text \<open>
  Once the context is cancelled the reader never blocks: each of its steps shortens what it has to do,
  so after them the failing read ends it, whatever the consumers do.
\<close>

lemma reader_step_cancelled:
  assumes "ad_cancelled s"
  shows "ad_cancelled (reader_step ctx s)"
    and "length (todo (reader_step ctx s)) \<le> length (todo s) - 1"
    and "ad_reader s = None \<Longrightarrow> ad_reader (reader_step ctx s) = None"
  using assms length_dropWhile_le[of is_tool]
  by (auto simp: reader_step_def act_def todo_def Let_def end_reader_def signalInterrupted_def
      split: option.splits list.splits action.splits)

lemma reader_steps_cancelled:
  assumes "ad_cancelled s" and "length (todo s) \<le> length cs"
  shows "todo (foldl (\<lambda>s ctx. reader_step ctx s) s cs) = []"
  using assms
proof (induction cs arbitrary: s)
  case (Cons c cs)
  then show ?case using reader_step_cancelled(1,2)[of s c] by fastforce
qed simp

end


fun is_reader :: "'m event \<Rightarrow> bool" where
  "is_reader (Reader ctx) = True"
| "is_reader _ = False"

fun is_message :: "'m event \<Rightarrow> bool" where
  "is_message (Message m) = True"
| "is_message _ = False"

definition adapter_Close :: "('m, 't, 'b) handler \<Rightarrow> nat \<Rightarrow> ('t, 'b) adapter \<Rightarrow> ('t, 'b) adapter option" where
  "adapter_Close h n s =
     (let s' = snd (collect (ad_step h) (s\<lparr>ad_cancelled := True\<rparr>) (replicate n (Reader True) @ [ReadError])) in
      if ad_reader s' = None then Some s' else None)"

text \<open>Each of the bridge's pumps receives once, then the reader takes a step.\<close>

definition round :: "'m event list" where
  "round = [CallRecv False, CallRecvTranscript False, CallRecvToolCall False, Reader False]"

context message_handler
begin

lemma todo_call [simp]:
  "todo (snd (Recv ctx s)) = todo s" "todo (snd (recvTranscript ctx s)) = todo s"
  "todo (snd (RecvToolCall ctx s)) = todo s" "todo (snd (RecvInterrupted ctx s)) = todo s"
  by (simp_all add: Recv_def recvTranscript_def RecvToolCall_def RecvInterrupted_def split_beta todo_def)

lemma cancelled_call [simp]:
  "ad_cancelled (snd (Recv ctx s)) = ad_cancelled s" "ad_cancelled (snd (recvTranscript ctx s)) = ad_cancelled s"
  "ad_cancelled (snd (RecvToolCall ctx s)) = ad_cancelled s" "ad_cancelled (snd (RecvInterrupted ctx s)) = ad_cancelled s"
  by (simp_all add: Recv_def recvTranscript_def RecvToolCall_def RecvInterrupted_def split_beta)

lemma step_cancelled:
  assumes "adapter_ok s" and "ad_cancelled s" and "\<not> is_message e" and "\<not> ad_crashed s"
  shows "ad_cancelled (snd (ad_step handle s e)) \<and>
    length (todo (snd (ad_step handle s e))) \<le> length (todo s) - (if is_reader e then 1 else 0)"
proof (cases e)
  case (Reader ctx)
  with assms reader_step_cancelled(1,2)[of s ctx] show ?thesis by (simp add: ad_step_def)
next
  case CallHandleInterrupted
  with assms interrupt_cases[OF assms(1)] show ?thesis by (simp add: ad_step_def todo_def)
next
  case ReadError
  with assms show ?thesis by (simp add: ad_step_def todo_def end_reader_def)
next
  case Cancel
  with assms show ?thesis by (simp add: ad_step_def todo_def)
qed (use assms in \<open>simp_all add: ad_step_def\<close>)

lemma step_crashed: "ad_crashed s \<Longrightarrow> ad_step handle s e = (Quiet, s)"
  by (simp add: ad_step_def)

lemma run_crashed: "ad_crashed s \<Longrightarrow> snd (collect (ad_step handle) s es) = s"
  by (induction es) (simp_all add: step_crashed split_beta Let_def)

lemma run_cancelled:
  assumes "adapter_ok s" and "ad_cancelled s" and "\<forall>e \<in> set es. \<not> is_message e"
  shows "length (todo (snd (collect (ad_step handle) s es))) \<le> length (todo s) - length (filter is_reader es)"
  using assms
proof (induction es arbitrary: s)
  case (Cons e es)
  show ?case
  proof (cases "ad_crashed s")
    case True
    with Cons.prems(1) have "todo s = []" by (simp add: adapter_ok_def todo_def)
    with True show ?thesis using run_crashed[OF True, of "e # es"] by simp
  next
    case False
    let ?s = "snd (ad_step handle s e)"
    have "\<not> is_message e" using Cons.prems(3) by simp
    note st = step_cancelled[OF Cons.prems(1,2) this False]
    have "length (todo (snd (collect (ad_step handle) ?s es))) \<le> length (todo ?s) - length (filter is_reader es)"
      using Cons.IH[OF step_ok[OF Cons.prems(1)] conjunct1[OF st]] Cons.prems(3) by simp
    with conjunct2[OF st] show ?thesis by (cases "is_reader e") (simp_all add: split_beta Let_def)
  qed
qed simp

lemma collect_cancelled:
  assumes "adapter_ok s" and "ad_cancelled s" and "\<forall>e \<in> set es. \<not> is_message e"
  shows "ad_cancelled (snd (collect (ad_step handle) s es))"
  using assms
proof (induction es arbitrary: s)
  case (Cons e es)
  have "ad_cancelled (snd (ad_step handle s e))"
    using step_cancelled[OF Cons.prems(1,2)] Cons.prems(2,3) by (cases "ad_crashed s") (simp_all add: step_crashed)
  then show ?case using Cons.IH[OF step_ok[OF Cons.prems(1)]] Cons.prems(3) by (simp add: split_beta Let_def)
qed simp

text \<open>So \<open>Close\<close>, which cancels, closes the connection and waits for the reader, returns.\<close>

lemma close_returns:
  assumes "adapter_ok s" and "ad_cancelled s" and "\<forall>e \<in> set es. \<not> is_message e"
    and "length (todo s) \<le> length (filter is_reader es)"
  shows "ad_reader (snd (collect (ad_step handle) s (es @ [ReadError]))) = None"
proof -
  let ?s = "snd (collect (ad_step handle) s es)"
  have "todo ?s = []" using run_cancelled[OF assms(1-3)] assms(4) by simp
  moreover have "ad_crashed ?s \<longrightarrow> ad_reader ?s = None"
    using collect_ok[OF assms(1), of es] by (simp add: adapter_ok_def)
  ultimately have "ad_reader (snd (ad_step handle ?s ReadError)) = None"
    by (auto simp: ad_step_def end_reader_def todo_def split: option.splits)
  then show ?thesis by (simp add: collect_append split_beta Let_def)
qed

text \<open>
  \<open>Close\<close> when nobody else calls meanwhile: the cancel, the sends the reader still has, which take the
  cancelled context, and the read error of the closed connection; \<^const>\<open>None\<close> while the reader runs.
\<close>

lemma adapter_close:
  assumes "adapter_ok s" and "length (todo s) \<le> n"
  shows "\<exists>s'. adapter_Close handle n s = Some s' \<and> ad_cancelled s' \<and> ad_reader s' = None"
proof -
  let ?es = "replicate n (Reader True) :: 'm event list"
  have ok: "adapter_ok (s\<lparr>ad_cancelled := True\<rparr>)" using assms(1) by (auto simp: adapter_ok_def todo_def)
  have es: "\<forall>e \<in> set ?es. \<not> is_message e" "length (todo (s\<lparr>ad_cancelled := True\<rparr>)) \<le> length (filter is_reader ?es)"
    using assms(2) by (simp_all add: todo_def)
  let ?s = "snd (collect (ad_step handle) (s\<lparr>ad_cancelled := True\<rparr>) ?es)"
  have "ad_cancelled ?s" by (rule collect_cancelled[OF ok _ es(1)]) simp
  then have "ad_cancelled (snd (ad_step handle ?s ReadError))" by (simp add: ad_step_def end_reader_def)
  then have "ad_cancelled (snd (collect (ad_step handle) (s\<lparr>ad_cancelled := True\<rparr>) (?es @ [ReadError])))"
    by (simp add: collect_append split_beta Let_def)
  then show ?thesis using close_returns[OF ok _ es] by (simp add: adapter_Close_def)
qed

text \<open>While the pumps receive, the reader makes progress: a round of the bridge shortens its work.\<close>

lemma recv_not_full:
  assumes "length (ch_items c) \<le> ch_cap c" and "0 < ch_cap c"
  shows "\<not> ch_full (snd (ch_recv False False c))"
  using assms by (cases "ch_items c") (auto simp: ch_recv_def ch_full_def)

lemma round_progress:
  assumes ok: "adapter_ok s" and "\<not> ad_cancelled s" and "\<not> ad_crashed s"
  shows "length (todo (snd (collect (ad_step handle) s round))) \<le> length (todo s) - 1"
proof -
  let ?a = "snd (ch_recv False False (ad_audio s))" and ?t = "snd (ch_recv False False (ad_text s))"
    and ?c = "snd (ch_recv False False (ad_tools s))"
  let ?s = "s\<lparr>ad_audio := ?a, ad_text := ?t, ad_tools := ?c\<rparr>"
  have "\<not> ch_full ?a" "\<not> ch_full ?t" "\<not> ch_full ?c"
    using ok by (simp_all add: recv_not_full adapter_ok_def)
  then have "length (todo (reader_step False ?s)) \<le> length (todo s) - 1"
    using assms(2) by (auto simp: reader_step_def act_def todo_def Let_def end_reader_def signalInterrupted_def
        split: option.splits list.splits action.splits)
  moreover have "snd (collect (ad_step handle) s round) = reader_step False ?s"
    using assms(2,3) by (simp add: round_def ad_step_def Recv_def recvTranscript_def RecvToolCall_def split_beta Let_def)
  ultimately show ?thesis by simp
qed

end

end
