(* ===== verification/Doubao.thy ===== *)
theory Doubao
  imports Audio Model
begin

text \<open>
  The Doubao adapter, \<open>internal/model/doubao\<close>: the binary frames of the speech WebSocket
  (\<open>protocol.go\<close>), and the session (\<open>doubao.go\<close>): its start payload, the conversion of the downstream
  audio, the read loop with its queues, barge-in and keep-alive.

  JSON and gzip are libraries: their encoders and decoders are parameters.  A slice access out of
  range panics; the slices of the parser are written with \<open>byte_slice\<close>, whose \<^const>\<open>None\<close> is that panic.
\<close>

subsection \<open>Frames\<close>

definition dbProtoVersion :: u8 where "dbProtoVersion = 1"
definition dbHeaderSize :: u8 where "dbHeaderSize = 1"
definition dbMsgFullClient :: u8 where "dbMsgFullClient = 1"
definition dbMsgAudioClient :: u8 where "dbMsgAudioClient = 2"
definition dbMsgError :: u8 where "dbMsgError = 15"
definition dbFlagPosSeq :: u8 where "dbFlagPosSeq = 1"
definition dbFlagNegSeq :: u8 where "dbFlagNegSeq = 3"
definition dbFlagWithEvent :: u8 where "dbFlagWithEvent = 4"
definition dbSerialRaw :: u8 where "dbSerialRaw = 0"
definition dbSerialJSON :: u8 where "dbSerialJSON = 1"
definition dbCompressGzip :: u8 where "dbCompressGzip = 1"

lemmas db_consts =
  dbProtoVersion_def dbHeaderSize_def dbMsgFullClient_def dbMsgAudioClient_def dbMsgError_def
  dbFlagPosSeq_def dbFlagNegSeq_def dbFlagWithEvent_def dbSerialRaw_def dbSerialJSON_def
  dbCompressGzip_def

text \<open>Events are \<open>int32\<close> values; their comparison and their bytes are those of the 32-bit word.\<close>

definition dbEvStartConnection :: u32 where "dbEvStartConnection = 1"
definition dbEvFinishConnection :: u32 where "dbEvFinishConnection = 2"
definition dbEvConnectionStarted :: u32 where "dbEvConnectionStarted = 50"
definition dbEvConnectionFailed :: u32 where "dbEvConnectionFailed = 51"
definition dbEvConnectionFinished :: u32 where "dbEvConnectionFinished = 52"
definition dbEvStartSession :: u32 where "dbEvStartSession = 100"
definition dbEvSessionFinished :: u32 where "dbEvSessionFinished = 152"
definition dbEvSessionFailed :: u32 where "dbEvSessionFailed = 153"
definition dbEvTaskRequest :: u32 where "dbEvTaskRequest = 200"
definition dbEvTTSResponse :: u32 where "dbEvTTSResponse = 352"
definition dbEvASRInfo :: u32 where "dbEvASRInfo = 450"
definition dbEvASRResponse :: u32 where "dbEvASRResponse = 451"
definition dbEvChatResponse :: u32 where "dbEvChatResponse = 550"
definition dbEvChatEnded :: u32 where "dbEvChatEnded = 559"

lemmas db_events =
  dbEvStartConnection_def dbEvFinishConnection_def dbEvConnectionStarted_def dbEvConnectionFailed_def
  dbEvConnectionFinished_def dbEvStartSession_def dbEvSessionFinished_def dbEvSessionFailed_def
  dbEvTaskRequest_def dbEvTTSResponse_def dbEvASRInfo_def dbEvASRResponse_def dbEvChatResponse_def
  dbEvChatEnded_def

definition dbIsConnectionEvent :: "u32 \<Rightarrow> bool" where
  "dbIsConnectionEvent ev =
     (ev \<in> {dbEvStartConnection, dbEvFinishConnection, dbEvConnectionStarted, dbEvConnectionFailed,
             dbEvConnectionFinished})"

definition u8_of_char :: "char \<Rightarrow> u8" where
  "u8_of_char c = of_char c"

definition char_of_u8 :: "u8 \<Rightarrow> char" where
  "char_of_u8 w = char_of (unat w)"

definition dbBuildFrame :: "u8 \<Rightarrow> u8 \<Rightarrow> u8 \<Rightarrow> u32 \<Rightarrow> string \<Rightarrow> bytes \<Rightarrow> bytes" where
  "dbBuildFrame msgType serial compress event sessionID payload =
     [push_bit 4 dbProtoVersion OR dbHeaderSize, push_bit 4 msgType OR dbFlagWithEvent,
      push_bit 4 serial OR compress, 0]
     @ be32 event
     @ (if \<not> dbIsConnectionEvent event \<and> sessionID \<noteq> ''''
        then be32 (word_of_nat (length sessionID)) @ map u8_of_char sessionID else [])
     @ be32 (word_of_nat (length payload)) @ payload"

record db_frame =
  fr_msgType :: u8
  fr_flags :: u8
  fr_serial :: u8
  fr_compress :: u8
  fr_event :: u32
  fr_sessionID :: string
  fr_errorCode :: u32
  fr_payload :: bytes

datatype 'a parse = Panic | ShortFrame | Parsed 'a

definition byte_slice :: "bytes \<Rightarrow> nat \<Rightarrow> nat \<Rightarrow> bytes option" where
  "byte_slice raw i j = (if i \<le> j \<and> j \<le> length raw then Some (take (j - i) (drop i raw)) else None)"

text \<open>The closure \<open>read32\<close>: \<^const>\<open>ShortFrame\<close> is its false result.\<close>

definition read32 :: "bytes \<Rightarrow> nat \<Rightarrow> (u32 \<times> nat) parse" where
  "read32 raw off =
     (if length raw < off + 4 then ShortFrame
      else (case byte_slice raw off (off + 4) of None \<Rightarrow> Panic | Some bs \<Rightarrow> Parsed (from_be32 bs, off + 4)))"

definition then_parse :: "'a parse \<Rightarrow> ('a \<Rightarrow> 'b parse) \<Rightarrow> 'b parse" where
  "then_parse p f = (case p of Panic \<Rightarrow> Panic | ShortFrame \<Rightarrow> ShortFrame | Parsed x \<Rightarrow> f x)"

definition parse_session :: "bytes \<Rightarrow> nat \<Rightarrow> (string \<times> nat) parse" where
  "parse_session raw off =
     then_parse (read32 raw off) (\<lambda>(sl, off).
       if 0 < unat sl then
         (if length raw < off + unat sl then ShortFrame
          else (case byte_slice raw off (off + unat sl) of
                  None \<Rightarrow> Panic | Some bs \<Rightarrow> Parsed (map char_of_u8 bs, off + unat sl)))
       else Parsed ('''', off))"

definition parse_event :: "bytes \<Rightarrow> u8 \<Rightarrow> nat \<Rightarrow> (u32 \<times> string \<times> nat) parse" where
  "parse_event raw flags off =
     (if flags AND dbFlagWithEvent \<noteq> 0 then
        then_parse (read32 raw off) (\<lambda>(ev, off).
          if \<not> dbIsConnectionEvent ev
          then then_parse (parse_session raw off) (\<lambda>(sid, off). Parsed (ev, sid, off))
          else Parsed (ev, '''', off))
      else Parsed (0, '''', off))"

definition dbParseFrame :: "bytes \<Rightarrow> db_frame parse" where
  "dbParseFrame raw =
     (if length raw < 4 then ShortFrame
      else
        (let msgType = drop_bit 4 (raw ! 1);
             flags = raw ! 1 AND 15;
             serial = drop_bit 4 (raw ! 2);
             compress = raw ! 2 AND 15;
             off = unat (raw ! 0 AND 15) * 4 in
         then_parse (parse_event raw flags off) (\<lambda>(ev, sid, off).
         then_parse (if flags AND (dbFlagPosSeq OR dbFlagNegSeq) \<noteq> 0
                     then then_parse (read32 raw off) (\<lambda>(_, off). Parsed off) else Parsed off) (\<lambda>off.
         then_parse (if msgType = dbMsgError then read32 raw off else Parsed (0, off)) (\<lambda>(ec, off).
         then_parse (read32 raw off) (\<lambda>(size, off).
           if length raw < off + unat size then ShortFrame
           else (case byte_slice raw off (off + unat size) of
                   None \<Rightarrow> Panic
                 | Some payload \<Rightarrow>
                     Parsed \<lparr>fr_msgType = msgType, fr_flags = flags, fr_serial = serial,
                             fr_compress = compress, fr_event = ev, fr_sessionID = sid,
                             fr_errorCode = ec, fr_payload = payload\<rparr>)))))))"

subsection \<open>The parser is safe and inverts the builder\<close>

lemma then_parse_simps [simp]:
  "then_parse (Parsed x) f = f x" "then_parse ShortFrame f = ShortFrame" "then_parse Panic f = Panic"
  by (simp_all add: then_parse_def)

lemma then_parse_Panic: "then_parse p f = Panic \<longleftrightarrow> p = Panic \<or> (\<exists>x. p = Parsed x \<and> f x = Panic)"
  by (cases p) auto

lemma then_parse_Parsed: "then_parse p f = Parsed y \<longleftrightarrow> (\<exists>x. p = Parsed x \<and> f x = Parsed y)"
  by (cases p) auto

lemma read32_no_panic: "read32 raw off \<noteq> Panic"
  by (auto simp: read32_def byte_slice_def)

lemma parse_session_no_panic: "parse_session raw off \<noteq> Panic"
  by (auto simp: parse_session_def then_parse_Panic read32_no_panic byte_slice_def split: if_splits)

lemma parse_event_no_panic: "parse_event raw flags off \<noteq> Panic"
  by (auto simp: parse_event_def then_parse_Panic read32_no_panic parse_session_no_panic split: if_splits)

lemma byte_slice_sublist: "byte_slice raw i j = Some bs \<Longrightarrow> \<exists>a b. raw = a @ bs @ b \<and> length a = i \<and> length bs = j - i"
proof -
  assume "byte_slice raw i j = Some bs"
  then have b: "i \<le> j" "j \<le> length raw" "bs = take (j - i) (drop i raw)"
    by (auto simp: byte_slice_def split: if_splits)
  have "raw = take i raw @ drop i raw" by simp
  also have "drop i raw = take (j - i) (drop i raw) @ drop (j - i) (drop i raw)" by (rule append_take_drop_id[symmetric])
  also have "drop (j - i) (drop i raw) = drop j raw" using b(1) by simp
  finally have "raw = take i raw @ bs @ drop j raw \<and> length (take i raw) = i \<and> length bs = j - i"
    using b by simp
  then show ?thesis by blast
qed

lemma dbParseFrame_no_panic: "dbParseFrame raw \<noteq> Panic"
  unfolding dbParseFrame_def Let_def
  by (auto simp: then_parse_Panic read32_no_panic parse_event_no_panic byte_slice_def split: if_splits)

text \<open>
  C28: No frame the server sends can crash the parser: on any bytes it returns a frame or the error for
  a short frame, never an access outside the buffer; and the payload of a frame it returns is a part
  of the bytes received.
\<close>

theorem parse_frame_safe:
  "case dbParseFrame raw of
     Panic \<Rightarrow> False
   | ShortFrame \<Rightarrow> True
   | Parsed f \<Rightarrow> \<exists>a b. raw = a @ fr_payload f @ b"
proof -
  have "dbParseFrame raw \<noteq> Panic" by (rule dbParseFrame_no_panic)
  moreover have "\<exists>i j. byte_slice raw i j = Some (fr_payload f)" if "dbParseFrame raw = Parsed f" for f
    using that unfolding dbParseFrame_def Let_def
    by (auto simp: then_parse_Parsed split: if_splits option.splits) blast+
  ultimately show ?thesis
    by (cases "dbParseFrame raw") (simp_all, blast dest: byte_slice_sublist)
qed

lemma unat_word_length: "length xs < 2 ^ 32 \<Longrightarrow> unat (word_of_nat (length xs) :: u32) = length xs"
  by (simp add: unat_of_nat)

lemma read32_at: "read32 (a @ be32 w @ b) (length a) = Parsed (w, length a + 4)"
  by (simp add: read32_def byte_slice_def be32.enc_length from_be32_be32)

lemma byte_slice_at: "byte_slice (a @ bs @ b) (length a) (length a + length bs) = Some bs"
  by (simp add: byte_slice_def)

lemma char_back: "char_of_u8 (u8_of_char c) = c"
proof -
  have "unat (of_char c :: u8) = of_char c"
    by (cases c) simp
  then show ?thesis by (simp add: char_of_u8_def u8_of_char_def)
qed

lemma nibbles:
  assumes "x < 16" and "y < 16"
  shows "drop_bit 4 (push_bit 4 x OR y :: u8) = x" and "(push_bit 4 x OR y :: u8) AND 15 = y"
proof -
  have self: "z < 16 \<Longrightarrow> take_bit 4 z = z" for z :: u8
    by (simp add: word_unat_eq_iff unsigned_take_bit_eq take_bit_nat_eq_self word_less_nat_alt)
  have x: "take_bit 4 x = x" and y: "take_bit 4 y = y" using assms self by blast+
  have "\<not> bit x i" "\<not> bit y i" if "4 \<le> i" for i
    using that x y by (metis bit_take_bit_iff not_le)+
  then have lo: "bit x i \<Longrightarrow> i < 4" "bit y i \<Longrightarrow> i < 4" for i by (metis not_le)+
  show "drop_bit 4 (push_bit 4 x OR y) = x"
    by (rule bit_word_eqI) (use lo in \<open>auto simp: bit_simps dest: bit_imp_le_length\<close>)
  have "(15::u8) = mask 4" by (simp add: mask_eq_exp_minus_1)
  then have "(push_bit 4 x OR y) AND 15 = take_bit 4 (push_bit 4 x OR y)" by (simp add: take_bit_eq_mask)
  also have "\<dots> = y" by (rule bit_word_eqI) (use lo in \<open>auto simp: bit_simps not_less dest: lo\<close>)
  finally show "(push_bit 4 x OR y) AND 15 = y" .
qed

lemma parse_build:
  assumes "msgType < 16" and "msgType \<noteq> dbMsgError" and "serial < 16" and "compress < 16"
    and "length sid < 2 ^ 32" and "length payload < 2 ^ 32"
    and "dbIsConnectionEvent ev \<or> sid \<noteq> ''''"
  shows "dbParseFrame (dbBuildFrame msgType serial compress ev sid payload) =
    Parsed \<lparr>fr_msgType = msgType, fr_flags = dbFlagWithEvent, fr_serial = serial, fr_compress = compress,
            fr_event = ev, fr_sessionID = (if dbIsConnectionEvent ev then '''' else sid),
            fr_errorCode = 0, fr_payload = payload\<rparr>"
proof -
  define head where "head = [push_bit 4 dbProtoVersion OR dbHeaderSize, push_bit 4 msgType OR dbFlagWithEvent,
      push_bit 4 serial OR compress, 0 :: u8]"
  define sess where "sess = (if \<not> dbIsConnectionEvent ev \<and> sid \<noteq> ''''
        then be32 (word_of_nat (length sid)) @ map u8_of_char sid else [])"
  let ?pl = "be32 (word_of_nat (length payload)) @ payload"
  let ?raw = "dbBuildFrame msgType serial compress ev sid payload"
  have raw: "?raw = head @ be32 ev @ sess @ ?pl" by (simp add: dbBuildFrame_def head_def sess_def)
  have len: "length head = 4" by (simp add: head_def)
  have bytes: "?raw ! 0 = push_bit 4 dbProtoVersion OR dbHeaderSize" "?raw ! 1 = push_bit 4 msgType OR dbFlagWithEvent"
    "?raw ! 2 = push_bit 4 serial OR compress" by (simp_all add: raw head_def)
  have ev: "read32 ?raw 4 = Parsed (ev, 8)"
    using read32_at[of head ev "sess @ ?pl"] len by (simp add: raw)
  have se: "parse_event ?raw dbFlagWithEvent 4 =
      Parsed (ev, if dbIsConnectionEvent ev then '''' else sid, 8 + length sess)"
  proof (cases "dbIsConnectionEvent ev")
    case True
    then show ?thesis by (simp add: parse_event_def ev sess_def) (simp add: db_consts)
  next
    case False
    with assms(7) have sid: "sid \<noteq> ''''" by simp
    let ?sb = "map u8_of_char sid"
    have s: "sess = be32 (word_of_nat (length sid)) @ ?sb" using False sid by (simp add: sess_def)
    have "read32 ?raw 8 = Parsed (word_of_nat (length sid), 12)"
      using read32_at[of "head @ be32 ev" "word_of_nat (length sid)" "?sb @ ?pl"]
      by (simp add: raw s len be32.enc_length)
    moreover have "byte_slice ?raw 12 (12 + length sid) = Some ?sb"
      using byte_slice_at[of "head @ be32 ev @ be32 (word_of_nat (length sid))" ?sb ?pl]
      by (simp add: raw s len be32.enc_length)
    moreover have "12 + length sid \<le> length ?raw" by (simp add: raw s len be32.enc_length)
    ultimately have "parse_session ?raw 8 = Parsed (sid, 12 + length sid)"
      using sid assms(5) by (simp add: parse_session_def unat_word_length char_back comp_def)
    then show ?thesis using False by (simp add: parse_event_def ev s be32.enc_length) (simp add: db_consts)
  qed
  have sz: "read32 ?raw (8 + length sess) = Parsed (word_of_nat (length payload), 12 + length sess)"
    using read32_at[of "head @ be32 ev @ sess" "word_of_nat (length payload)" payload]
    by (simp add: raw len be32.enc_length)
  have pl: "byte_slice ?raw (12 + length sess) (12 + length sess + length payload) = Some payload"
    using byte_slice_at[of "head @ be32 ev @ sess @ be32 (word_of_nat (length payload))" payload "[]"]
    by (simp add: raw len be32.enc_length)
  have ln: "length ?raw = 12 + length sess + length payload" by (simp add: raw len be32.enc_length)
  have "dbFlagWithEvent < 16" by (simp add: db_consts)
  note nm = nibbles[OF assms(1) this] and ns = nibbles[OF assms(3,4)]
  have h: "unat ((push_bit 4 dbProtoVersion OR dbHeaderSize) AND 15) * 4 = 4"
    "dbFlagWithEvent AND (dbFlagPosSeq OR dbFlagNegSeq) = 0" by (simp_all add: db_consts)
  show ?thesis
    unfolding dbParseFrame_def Let_def bytes nm ns h
    using assms(2,6) ln by (simp add: se sz pl unat_word_length)
qed

text \<open>
  C29: What the builder writes the parser reads: for every message type other than the error type,
  serialization and compression code that fit their nibble, every event with a session id where the
  event needs one, and every payload, parsing the built frame gives exactly the fields it was built
  from, with the event flag, no sequence number and no error code.
\<close>

theorem frame_roundtrip:
  assumes "msgType < 16" and "msgType \<noteq> dbMsgError" and "serial < 16" and "compress < 16"
    and "length sid < 2 ^ 32" and "length payload < 2 ^ 32"
    and "dbIsConnectionEvent ev \<or> sid \<noteq> ''''"
  shows "dbParseFrame (dbBuildFrame msgType serial compress ev sid payload) =
    Parsed \<lparr>fr_msgType = msgType, fr_flags = dbFlagWithEvent, fr_serial = serial, fr_compress = compress,
            fr_event = ev, fr_sessionID = (if dbIsConnectionEvent ev then '''' else sid),
            fr_errorCode = 0, fr_payload = payload\<rparr>"
  by (rule parse_build[OF assms])

theorem frame_roundtrip_witness:
  "\<exists>f. dbParseFrame (dbBuildFrame dbMsgFullClient dbSerialJSON dbCompressGzip dbEvStartSession ''ab'' [7, 8]) = Parsed f
     \<and> fr_sessionID f = ''ab'' \<and> fr_payload f = [7, 8] \<and> fr_event f = 100"
proof -
  have "dbParseFrame (dbBuildFrame dbMsgFullClient dbSerialJSON dbCompressGzip dbEvStartSession ''ab'' [7, 8]) =
    Parsed \<lparr>fr_msgType = dbMsgFullClient, fr_flags = dbFlagWithEvent, fr_serial = dbSerialJSON, fr_compress = dbCompressGzip,
            fr_event = dbEvStartSession, fr_sessionID = (if dbIsConnectionEvent dbEvStartSession then '''' else ''ab''),
            fr_errorCode = 0, fr_payload = [7, 8]\<rparr>"
    by (rule frame_roundtrip) (simp_all add: db_consts)
  then show ?thesis by (simp add: dbIsConnectionEvent_def db_events)
qed

subsection \<open>Downstream audio\<close>

text \<open>\<open>math.Float32frombits\<close>: the value of a 32-bit float.\<close>

datatype f32 = Finite rat | PosInf | NegInf | NaN32

definition f32_of_bits :: "u32 \<Rightarrow> f32" where
  "f32_of_bits w =
     (let neg = bit w 31;
          e = unat (take_bit 8 (drop_bit 23 w));
          m = int (unat (take_bit 23 w));
          sg = (if neg then - 1 else 1) in
      if e = 255 then (if m = 0 then (if neg then NegInf else PosInf) else NaN32)
      else if e = 0 then Finite (of_int (sg * m) * 2 powi (- 149))
      else Finite (of_int (sg * (2 ^ 23 + m)) * 2 powi (int e - 150)))"

text \<open>
  One sample: the product with 32767 is exact in a double (24 and 15 bits), then it is clamped and
  truncated.  The conversion of NaN to an integer depends on the machine: \<open>nan\<close>.
\<close>

definition f32_sample :: "i16 \<Rightarrow> f32 \<Rightarrow> i16" where
  "f32_sample nan x =
     (case x of
        NaN32 \<Rightarrow> nan
      | PosInf \<Rightarrow> word_of_int 32767
      | NegInf \<Rightarrow> word_of_int (- 32768)
      | Finite q \<Rightarrow>
          (let v = q * 32767;
               v' = (if 32767 < v then 32767 else if v < - 32768 then - 32768 else v) in
           word_of_int (trunc v')))"

definition f32leToPCM :: "i16 \<Rightarrow> bytes \<Rightarrow> i16 list" where
  "f32leToPCM nan b = map (f32_sample nan \<circ> f32_of_bits) (dec_all from_le32 4 b)"

definition doubaoInRate :: int where "doubaoInRate = 16000"
definition doubaoOutRate :: int where "doubaoOutRate = 24000"
definition OpusRate :: int where "OpusRate = 48000"

definition ttsToModelPCM :: "i16 \<Rightarrow> bytes \<Rightarrow> i16 list option" where
  "ttsToModelPCM nan payload = ResampleLinear (f32leToPCM nan payload) doubaoOutRate OpusRate"

text \<open>
  Converting the downstream floats saturates and never wraps: a finite sample \<open>q\<close> becomes
  \<open>32767 q\<close> rounded toward zero, or the nearest bound of the 16-bit range when that is outside it; and a
  payload of \<open>n\<close> bytes gives \<open>n div 4\<close> samples.
\<close>

theorem f32_conversion:
  "sint (f32_sample nan (Finite q)) =
     (if 32767 < q * 32767 then 32767 else if q * 32767 < - 32768 then - 32768 else trunc (q * 32767)) \<and>
   length (f32leToPCM nan b) = length b div 4"
proof
  let ?v = "if 32767 < q * 32767 then 32767 else if q * 32767 < - 32768 then - 32768 else q * 32767"
  have "- 32768 \<le> trunc ?v \<and> trunc ?v \<le> 32767" by (rule trunc_between) auto
  then have "sint (word_of_int (trunc ?v) :: i16) = trunc ?v" by (intro sint16_of_int) auto
  then show "sint (f32_sample nan (Finite q)) =
     (if 32767 < q * 32767 then 32767 else if q * 32767 < - 32768 then - 32768 else trunc (q * 32767))"
    using trunc_of_int[of 32767] trunc_of_int[of "- 32768"]
    by (auto simp: f32_sample_def Let_def split: if_splits)
  show "length (f32leToPCM nan b) = length b div 4" by (simp add: f32leToPCM_def length_dec_all)
qed

subsection \<open>The start payload\<close>

record doubao_config =
  dc_ModelVersion :: string
  dc_BotName :: string
  dc_SystemRole :: string
  dc_SpeakingStyle :: string
  dc_Voice :: string
  dc_ASRTwopass :: bool
  dc_ASREndSmoothMs :: int
  dc_Hotwords :: "string list"

definition dialogContext :: "restored_turn list \<Rightarrow> json list" where
  "dialogContext history =
     map (\<lambda>t. JObj [(''role'', JStr (if rt_Role t = ''model'' then ''assistant'' else ''user'')),
                   (''text'', JStr (rt_Text t))]) history"

definition buildASRExtra :: "doubao_config \<Rightarrow> json option" where
  "buildASRExtra cfg =
     (let extra =
        (if dc_ASRTwopass cfg then [(''enable_asr_twopass'', JBool True)] else [])
        @ (if 0 < dc_ASREndSmoothMs cfg then [(''end_smooth_window_ms'', JNum (dc_ASREndSmoothMs cfg))] else [])
        @ (if 0 < length (dc_Hotwords cfg)
           then [(''context'', JObj [(''hotwords'', JArr (map (\<lambda>w. JObj [(''word'', JStr w)]) (dc_Hotwords cfg)))])]
           else []) in
      if length extra = 0 then None else Some (JObj [(''extra'', JObj extra)]))"

definition buildStartSession :: "doubao_config \<Rightarrow> restored_turn list \<Rightarrow> json" where
  "buildStartSession cfg history =
     (let dialog =
        [(''bot_name'', JStr (dc_BotName cfg)), (''extra'', JObj [(''model'', JStr (dc_ModelVersion cfg))])]
        @ (if dc_SystemRole cfg \<noteq> '''' then [(''system_role'', JStr (dc_SystemRole cfg))] else [])
        @ (if dc_SpeakingStyle cfg \<noteq> '''' then [(''speaking_style'', JStr (dc_SpeakingStyle cfg))] else [])
        @ (if 0 < length (dialogContext history) then [(''dialog_context'', JArr (dialogContext history))] else []);
          tts = [(''audio_config'', JObj [(''channel'', JNum 1), (''format'', JStr ''pcm''),
                                         (''sample_rate'', JNum doubaoOutRate)])]
        @ (if dc_Voice cfg \<noteq> '''' then [(''speaker'', JStr (dc_Voice cfg))] else []) in
      JObj ([(''dialog'', JObj dialog), (''tts'', JObj tts)]
        @ (case buildASRExtra cfg of None \<Rightarrow> [] | Some asr \<Rightarrow> [(''asr'', asr)])))"

text \<open>\<open>newUUID\<close> from its 16 random bytes.\<close>

definition hex_digit :: "u8 \<Rightarrow> char" where
  "hex_digit w = ''0123456789abcdef'' ! unat (w AND 15)"

definition hex :: "bytes \<Rightarrow> string" where
  "hex bs = concat (map (\<lambda>w. [hex_digit (drop_bit 4 w), hex_digit w]) bs)"

definition newUUID :: "bytes \<Rightarrow> string" where
  "newUUID rnd =
     (let b = rnd[6 := (rnd ! 6 AND 15) OR 64];
          b = b[8 := (b ! 8 AND 63) OR 128] in
      hex (take 4 b) @ ''-'' @ hex (take 2 (drop 4 b)) @ ''-'' @ hex (take 2 (drop 6 b)) @ ''-''
      @ hex (take 2 (drop 8 b)) @ ''-'' @ hex (take 6 (drop 10 b)))"

text \<open>The configuration with its defaults; the argument is the environment variable.\<close>

definition resolve_config :: "string \<Rightarrow> doubao_config \<Rightarrow> doubao_config" where
  "resolve_config env_bot_name cfg =
     (let bot = (if dc_BotName cfg = '''' then env_bot_name else dc_BotName cfg);
          bot' = (if bot = '''' then [CHR 0xE8, CHR 0xB1, CHR 0x86, CHR 0xE5, CHR 0x8C, CHR 0x85] else bot) in
      cfg\<lparr>dc_BotName := bot',
          dc_ModelVersion := (if dc_ModelVersion cfg = '''' then ''1.2.1.1'' else dc_ModelVersion cfg)\<rparr>)"

end
