(* ===== verification/Gemini.thy ===== *)
theory Gemini
  imports Adapter Encoding Doubao
begin

text \<open>
  The Gemini Live adapter, \<open>internal/model/gemini/gemini.go\<close>: the messages it builds, the read loop's handler
  for the server's messages with its transcription buffers, and the audio it decodes.  The channels and
  the interleaving are those of \<open>Adapter\<close>.

  JSON decoding is a parameter: the handler works on the decoded message.
\<close>

subsection \<open>The messages sent\<close>

record vad_config =
  vc_Enabled :: bool

record function_declaration =
  fd_Name :: string
  fd_Description :: string
  fd_Parameters :: "(string \<times> json) list"

record gemini_config =
  gc_SystemPrompt :: string
  gc_VAD :: vad_config
  gc_Tools :: "function_declaration list"

text \<open>\<open>EnvVAD\<close> from the environment variable; the two sensitivities are never read.\<close>

definition EnvVAD :: "string \<Rightarrow> vad_config" where
  "EnvVAD env = \<lparr>vc_Enabled = (env \<noteq> ''false'')\<rparr>"

text \<open>Fields marked \<open>omitempty\<close> are left out when they are empty.\<close>

definition json_declaration :: "function_declaration \<Rightarrow> json" where
  "json_declaration f =
     JObj ([(''name'', JStr (fd_Name f))]
       @ (if fd_Description f = '''' then [] else [(''description'', JStr (fd_Description f))])
       @ (if fd_Parameters f = [] then [] else [(''parameters'', JObj (fd_Parameters f))]))"

definition text_part :: "string \<Rightarrow> json" where
  "text_part t = JObj [(''text'', JStr t)]"

text \<open>
  \<open>geminiSetup\<close>: the activity detection and the instruction are pointers, \<^const>\<open>None\<close> when nil.  A struct
  that is not a pointer is written even when it is empty.
\<close>

record gemini_setup =
  gp_Model :: string
  gp_ResponseModalities :: "string list"
  gp_Disabled :: "bool option"
  gp_SystemInstruction :: "string list option"
  gp_Tools :: "function_declaration list list"

definition json_tool :: "function_declaration list \<Rightarrow> json" where
  "json_tool fds =
     JObj (if fds = [] then [] else [(''functionDeclarations'', JArr (map json_declaration fds))])"

definition json_setup :: "gemini_setup \<Rightarrow> json" where
  "json_setup s =
     JObj [(''setup'', JObj (
       [(''model'', JStr (gp_Model s)),
        (''generationConfig'', JObj [(''responseModalities'', JArr (map JStr (gp_ResponseModalities s)))]),
        (''realtimeInputConfig'',
           JObj (case gp_Disabled s of None \<Rightarrow> []
                 | Some d \<Rightarrow> [(''automaticActivityDetection'', JObj (if d then [(''disabled'', JBool True)] else []))])),
        (''inputAudioTranscription'', JObj []), (''outputAudioTranscription'', JObj [])]
       @ (case gp_SystemInstruction s of None \<Rightarrow> []
          | Some parts \<Rightarrow> [(''systemInstruction'', JObj [(''parts'', JArr (map text_part parts))])])
       @ (if gp_Tools s = [] then [] else [(''tools'', JArr (map json_tool (gp_Tools s)))])))]"

definition buildSetup :: "string \<Rightarrow> gemini_config \<Rightarrow> gemini_setup" where
  "buildSetup modelName cfg =
     \<lparr>gp_Model = modelName, gp_ResponseModalities = [''AUDIO''],
      gp_Disabled = (if \<not> vc_Enabled (gc_VAD cfg) then Some True else None),
      gp_SystemInstruction = (if gc_SystemPrompt cfg \<noteq> '''' then Some [gc_SystemPrompt cfg] else None),
      gp_Tools = (if 0 < length (gc_Tools cfg) then [gc_Tools cfg] else [])\<rparr>"

definition client_turn :: "string \<Rightarrow> string \<Rightarrow> json" where
  "client_turn role t = JObj [(''role'', JStr role), (''parts'', JArr [text_part t])]"

definition client_content :: "json list \<Rightarrow> bool \<Rightarrow> json" where
  "client_content turns turnComplete =
     JObj [(''clientContent'', JObj [(''turns'', JArr turns), (''turnComplete'', JBool turnComplete)])]"

definition gemini_SendText :: "string \<Rightarrow> json" where
  "gemini_SendText t = client_content [client_turn ''user'' t] True"

definition restoreClientContent :: "restored_turn list \<Rightarrow> json" where
  "restoreClientContent turns =
     client_content
       (map (\<lambda>t. client_turn (if rt_Role t = ''model'' then ''model'' else ''user'') (rt_Text t)) turns) False"

text \<open>\<^const>\<open>None\<close>: nothing is written.\<close>

definition gemini_RestoreContext :: "restored_turn list \<Rightarrow> json option" where
  "gemini_RestoreContext turns = (if length turns = 0 then None else Some (restoreClientContent turns))"

definition function_response :: "string \<Rightarrow> string \<Rightarrow> string \<Rightarrow> json" where
  "function_response fid name response =
     JObj [(''id'', JStr fid), (''name'', JStr name), (''response'', JRaw response)]"

definition tool_response :: "json list \<Rightarrow> json" where
  "tool_response rs = JObj [(''toolResponse'', JObj [(''functionResponses'', JArr rs)])]"

definition gemini_SendToolResult :: "tool_result \<Rightarrow> json" where
  "gemini_SendToolResult res =
     (let resp = (if length (tl_Response res) = 0 then ''{}'' else tl_Response res) in
      tool_response [function_response (tl_ID res) (tl_Name res) resp])"

definition geminiInRate :: int where "geminiInRate = 16000"
definition geminiOutRate :: int where "geminiOutRate = 24000"

definition gemini_blob :: "string \<Rightarrow> string \<Rightarrow> json" where
  "gemini_blob mimeType data = JObj [(''mimeType'', JStr mimeType), (''data'', JStr data)]"

definition realtime_input :: "json \<Rightarrow> json" where
  "realtime_input audio = JObj [(''realtimeInput'', JObj [(''audio'', audio)])]"

text \<open>\<^const>\<open>None\<close>: the resampler panics, which it does not at these rates (\<open>resample_bounded\<close>).\<close>

definition gemini_SendAudio :: "i16 list \<Rightarrow> json option" where
  "gemini_SendAudio samples =
     map_option (\<lambda>i. realtime_input (gemini_blob (''audio/pcm;rate='' @ format_int geminiInRate)
         (b64_encode (map char_of_u8 (ToBytes i)))))
       (ResampleLinear samples OpusRate geminiInRate)"

text \<open>The constructor: which key, which model, and what is written after the dial.\<close>

record gemini_env =
  ge_GEMINI_API_KEY :: string
  ge_GOOGLE_API_KEY :: string
  ge_GEMINI_MODEL :: string
  ge_dial :: "string \<Rightarrow> bool"
  ge_setup :: bool

datatype gemini_new =
  NewError go_error bool
| NewSession bool json

definition geminiWSURL :: string where
  "geminiWSURL = ''wss://generativelanguage.googleapis.com/ws/google.ai.generativelanguage.v1beta.GenerativeService.BidiGenerateContent''"

definition gemini_key :: "gemini_env \<Rightarrow> string" where
  "gemini_key e = (if ge_GEMINI_API_KEY e = '''' then ge_GOOGLE_API_KEY e else ge_GEMINI_API_KEY e)"

definition gemini_model :: "gemini_env \<Rightarrow> string" where
  "gemini_model e =
     (if ge_GEMINI_MODEL e = '''' then ''models/gemini-3.1-flash-live-preview'' else ge_GEMINI_MODEL e)"

text \<open>A refused session says whether its connection was closed again; a new one whether it supports interruption.\<close>

definition gemini_NewWithConfig :: "gemini_env \<Rightarrow> gemini_config \<Rightarrow> gemini_new" where
  "gemini_NewWithConfig e cfg =
     (let key = gemini_key e in
      if key = '''' then NewError ''gemini: set GEMINI_API_KEY or GOOGLE_API_KEY'' False
      else if \<not> ge_dial e (geminiWSURL @ ''?key='' @ key) then NewError ''gemini: dial'' False
      else if \<not> ge_setup e then NewError ''gemini: setup'' True
      else NewSession (vc_Enabled (gc_VAD cfg)) (json_setup (buildSetup (gemini_model e) cfg)))"

text \<open>The two short constructors; \<open>env\<close> is the value of \<open>VAD_ENABLED\<close>.\<close>

definition gemini_NewWithVAD :: "gemini_env \<Rightarrow> vad_config \<Rightarrow> gemini_new" where
  "gemini_NewWithVAD e vad = gemini_NewWithConfig e \<lparr>gc_SystemPrompt = '''', gc_VAD = vad, gc_Tools = []\<rparr>"

definition gemini_New :: "gemini_env \<Rightarrow> string \<Rightarrow> gemini_new" where
  "gemini_New e env = gemini_NewWithConfig e \<lparr>gc_SystemPrompt = '''', gc_VAD = EnvVAD env, gc_Tools = []\<rparr>"

text \<open>Whether the bridge polls for interruptions, and whether the server detects speech at all, is one setting.\<close>

definition gemini_SupportsInterruption :: "gemini_config \<Rightarrow> bool" where
  "gemini_SupportsInterruption cfg = vc_Enabled (gc_VAD cfg)"

lemma gemini_new_supports:
  "gemini_NewWithConfig e cfg = NewSession b setup \<Longrightarrow> b = gemini_SupportsInterruption cfg"
  "gemini_New e env = gemini_NewWithVAD e (EnvVAD env)"
  by (auto simp: gemini_NewWithConfig_def gemini_SupportsInterruption_def gemini_New_def gemini_NewWithVAD_def Let_def
      split: if_splits)

subsection \<open>Transcription deltas\<close>

text \<open>The ranges of \<open>unicode.Han\<close> (Unicode 15.0).\<close>

definition han_ranges :: "(nat \<times> nat) list" where
  "han_ranges =
     [(0x2E80, 0x2E99), (0x2E9B, 0x2EF3), (0x2F00, 0x2FD5), (0x3005, 0x3005), (0x3007, 0x3007), (0x3021, 0x3029),
      (0x3038, 0x303B), (0x3400, 0x4DBF), (0x4E00, 0x9FFF), (0xF900, 0xFA6D), (0xFA70, 0xFAD9), (0x16FE2, 0x16FE3),
      (0x16FF0, 0x16FF1), (0x20000, 0x2A6DF), (0x2A700, 0x2B739), (0x2B740, 0x2B81D), (0x2B820, 0x2CEA1),
      (0x2CEB0, 0x2EBE0), (0x2F800, 0x2FA1D), (0x30000, 0x3134A), (0x31350, 0x323AF)]"

text \<open>The case of the CJK symbols and punctuation has an empty body: it falls through to false.\<close>

definition isCJKTranscriptionRune :: "nat \<Rightarrow> bool" where
  "isCJKTranscriptionRune r =
     (if \<exists>(lo, hi) \<in> set han_ranges. lo \<le> r \<and> r \<le> hi then True
      else if 0x3000 \<le> r \<and> r \<le> 0x303F then False
      else if 0xFF00 \<le> r \<and> r \<le> 0xFFEF then True
      else False)"

definition normalizeModelTranscriptionDelta :: "nat \<Rightarrow> string \<Rightarrow> string" where
  "normalizeModelTranscriptionDelta bufLen frag =
     (if bufLen = 0 \<or> \<not> has_prefix frag '' '' then frag
      else (let rest = drop 1 frag in
            if rest = '''' then frag
            else if isCJKTranscriptionRune (decode_rune rest) then rest
            else frag))"


subsection \<open>The read loop\<close>

record gemini_transcription =
  gt_Text :: string
  gt_Finished :: bool

text \<open>A blob is its MIME type and its base64 data.\<close>

record gemini_content =
  gs_TurnComplete :: bool
  gs_Interrupted :: bool
  gs_InputTranscription :: "gemini_transcription option"
  gs_OutputTranscription :: "gemini_transcription option"
  gs_ModelTurn :: "(string \<times> string) option list option"

record gemini_msg =
  gm_InputTranscription :: "gemini_transcription option"
  gm_OutputTranscription :: "gemini_transcription option"
  gm_ToolCall :: "tool_call list option"
  gm_ServerContent :: "gemini_content option"

text \<open>\<open>rateFromMime\<close>: the number after \<open>rate=\<close>.\<close>

definition rateFromMime :: "string \<Rightarrow> int \<Rightarrow> int" where
  "rateFromMime mime def =
     (case index_of mime ''rate='' of
        None \<Rightarrow> def
      | Some i \<Rightarrow>
          (case atoi (trim_space (drop (i + 5) mime)) of
             None \<Rightarrow> def
           | Some r \<Rightarrow> r))"

text \<open>\<^const>\<open>None\<close>: the resampler panics.\<close>

definition inlineAudioToModelPCM :: "string \<Rightarrow> string \<Rightarrow> i16 list option" where
  "inlineAudioToModelPCM raw mime =
     ResampleLinear (FromBytes (map u8_of_char raw)) (rateFromMime mime geminiOutRate) OpusRate"

definition emitText :: "string \<Rightarrow> string \<Rightarrow> model_transcript action list" where
  "emitText role t = (if t = '''' then [] else [PushText \<lparr>tr_Role = role, tr_Text = t\<rparr>])"

text \<open>The buffers \<open>userBuf\<close> and \<open>modelBuf\<close>.\<close>

type_synonym gemini_bufs = "string \<times> string"

definition handleTranscription ::
  "string \<Rightarrow> gemini_transcription option \<Rightarrow> gemini_bufs \<Rightarrow> model_transcript action list \<times> gemini_bufs" where
  "handleTranscription role tr bufs =
     (case tr of
        None \<Rightarrow> ([], bufs)
      | Some t \<Rightarrow>
          (if gt_Text t = '''' then ([], bufs)
           else
             (let (userBuf, modelBuf) = bufs in
              if role = ''model''
              then (let buf = modelBuf @ normalizeModelTranscriptionDelta (length modelBuf) (gt_Text t) in
                    (emitText role buf, (userBuf, if gt_Finished t then '''' else buf)))
              else (let buf = userBuf @ gt_Text t in
                    (emitText role buf, (if gt_Finished t then '''' else buf, modelBuf))))))"

definition handleToolCall :: "tool_call list option \<Rightarrow> 't action list" where
  "handleToolCall tc = (case tc of None \<Rightarrow> [] | Some calls \<Rightarrow> map PushTool calls)"

text \<open>The parts of a model turn; a panic of the resampler ends the process.\<close>

fun audio_parts :: "(string \<times> string) option list \<Rightarrow> 't action list" where
  "audio_parts [] = []"
| "audio_parts (None # ps) = audio_parts ps"
| "audio_parts (Some (mime, data) # ps) =
     (if data = '''' then audio_parts ps
      else (case b64_decode data of
              None \<Rightarrow> audio_parts ps
            | Some raw \<Rightarrow>
                (case inlineAudioToModelPCM raw mime of
                   None \<Rightarrow> [Crash]
                 | Some samples \<Rightarrow> PushAudio samples # audio_parts ps)))"

definition handle_content ::
  "gemini_content \<Rightarrow> gemini_bufs \<Rightarrow> model_transcript action list \<times> gemini_bufs" where
  "handle_content sc bufs =
     (let (a1, b1) = handleTranscription ''user'' (gs_InputTranscription sc) bufs;
          (a2, b2) = handleTranscription ''model'' (gs_OutputTranscription sc) b1;
          a3 = (if gs_Interrupted sc then [Barge] else []);
          b3 = (if gs_TurnComplete sc then ('''', '''') else b2);
          a4 = (case gs_ModelTurn sc of None \<Rightarrow> [] | Some parts \<Rightarrow> audio_parts parts) in
      (a1 @ a2 @ a3 @ a4, b3))"

text \<open>One message: \<open>decode\<close> is \<open>json.Unmarshal\<close>, which may fail.\<close>

definition gm_handle ::
  "('m \<Rightarrow> gemini_msg option) \<Rightarrow> ('m, model_transcript, gemini_bufs) handler" where
  "gm_handle decode bufs data =
     (case decode data of
        None \<Rightarrow> ([], bufs)
      | Some msg \<Rightarrow>
          (let (a1, b1) = handleTranscription ''user'' (gm_InputTranscription msg) bufs;
               (a2, b2) = handleTranscription ''model'' (gm_OutputTranscription msg) b1;
               a3 = handleToolCall (gm_ToolCall msg) in
           case gm_ServerContent msg of
             None \<Rightarrow> (a1 @ a2 @ a3, b2)
           | Some sc \<Rightarrow> (let (a4, b4) = handle_content sc b2 in (a1 @ a2 @ a3 @ a4, b4))))"

lemma no_end_append [simp]: "no_end (as @ bs) \<longleftrightarrow> no_end as \<and> no_end bs"
  by (auto simp: no_end_def)

lemma no_end_text [simp]: "no_end (fst (handleTranscription r t b))"
  by (auto simp: handleTranscription_def emitText_def no_end_def Let_def split_beta split: option.splits)

lemma no_end_tool [simp]: "no_end (handleToolCall tc)"
  by (auto simp: handleToolCall_def no_end_def split: option.splits)

lemma ends_last_append: "no_end as \<Longrightarrow> ends_last bs \<Longrightarrow> ends_last (as @ bs)"
  by (induction as) (auto simp: ends_last_Cons no_end_def)

lemma ends_last_parts [simp]: "ends_last (audio_parts ps)"
  by (induction ps rule: audio_parts.induct) (auto simp: ends_last_Cons split: option.splits)

lemma ends_last_content: "ends_last (fst (handle_content sc b))"
  unfolding handle_content_def
  by (auto simp: split_beta Let_def ends_last_Cons no_end_ends_last split: option.splits intro!: ends_last_append)

interpretation gm: message_handler "gm_handle decode" for decode
proof
  fix b m
  show "ends_last (fst (gm_handle decode b m))"
    unfolding gm_handle_def
    by (auto simp: split_beta Let_def no_end_ends_last ends_last_content split: option.splits intro!: ends_last_append)
qed

text \<open>The bridge's calls are those of the shared adapter.\<close>

definition gemini_Recv :: "bool \<Rightarrow> (model_transcript, gemini_bufs) adapter \<Rightarrow> i16 list got \<times> (model_transcript, gemini_bufs) adapter" where
  "gemini_Recv = Recv"

definition gemini_RecvTranscript ::
  "bool \<Rightarrow> (model_transcript, gemini_bufs) adapter \<Rightarrow> model_transcript got \<times> (model_transcript, gemini_bufs) adapter" where
  "gemini_RecvTranscript = recvTranscript"

definition gemini_RecvInterrupted ::
  "bool \<Rightarrow> (model_transcript, gemini_bufs) adapter \<Rightarrow> bool option \<times> (model_transcript, gemini_bufs) adapter" where
  "gemini_RecvInterrupted = RecvInterrupted"

definition gemini_HandleInterrupted ::
  "nat \<Rightarrow> (model_transcript, gemini_bufs) adapter \<Rightarrow> (model_transcript, gemini_bufs) adapter option" where
  "gemini_HandleInterrupted = HandleInterrupted"

definition gemini_drainAudioQueue :: "nat \<Rightarrow> i16 list chan \<Rightarrow> i16 list chan option" where
  "gemini_drainAudioQueue = drainAudioQueue"

definition gemini_signalInterrupted ::
  "(model_transcript, gemini_bufs) adapter \<Rightarrow> (model_transcript, gemini_bufs) adapter" where
  "gemini_signalInterrupted = signalInterrupted"

definition gemini_Close ::
  "('m \<Rightarrow> gemini_msg option) \<Rightarrow> nat \<Rightarrow> (model_transcript, gemini_bufs) adapter
     \<Rightarrow> (model_transcript, gemini_bufs) adapter option" where
  "gemini_Close decode = adapter_Close (gm_handle decode)"

text \<open>\<open>Close\<close> returns once the reader has made the sends it still had, each of which takes the cancelled context.\<close>

lemma gemini_Close_ok:
  assumes "adapter_ok s" and "length (todo s) \<le> n"
  shows "\<exists>s'. gemini_Close decode n s = Some s' \<and> ad_cancelled s' \<and> ad_reader s' = None"
  unfolding gemini_Close_def by (rule gm.adapter_close[OF assms])


subsection \<open>What the transcripts say\<close>

text \<open>
  The contract: a message says pieces of the user's or of the model's utterance, in order, and may end
  the turn.  An utterance is open from its first piece to a finished piece or the end of the turn.
\<close>

datatype piece = Said bool string bool | TurnEnd

definition piece_of :: "bool \<Rightarrow> gemini_transcription option \<Rightarrow> piece list" where
  "piece_of model tr =
     (case tr of None \<Rightarrow> [] | Some t \<Rightarrow> if gt_Text t = '''' then [] else [Said model (gt_Text t) (gt_Finished t)])"

definition pieces :: "gemini_msg \<Rightarrow> piece list" where
  "pieces m =
     piece_of False (gm_InputTranscription m) @ piece_of True (gm_OutputTranscription m) @
     (case gm_ServerContent m of
        None \<Rightarrow> []
      | Some sc \<Rightarrow> piece_of False (gs_InputTranscription sc) @ piece_of True (gs_OutputTranscription sc) @
          (if gs_TurnComplete sc then [TurnEnd] else []))"

fun concerns :: "bool \<Rightarrow> piece \<Rightarrow> bool" where
  "concerns model TurnEnd = True"
| "concerns model (Said m t fin) = (m = model)"

fun closes :: "piece \<Rightarrow> bool" where
  "closes TurnEnd = True"
| "closes (Said m t fin) = fin"

fun piece_text :: "piece \<Rightarrow> string" where
  "piece_text TurnEnd = ''''"
| "piece_text (Said m t fin) = t"

definition utterance :: "bool \<Rightarrow> piece list \<Rightarrow> string list" where
  "utterance model ps = map piece_text (rev (takeWhile (\<lambda>p. \<not> closes p) (rev (filter (concerns model) ps))))"

definition joined :: "bool \<Rightarrow> string list \<Rightarrow> string" where
  "joined model ts =
     (if model then foldl (\<lambda>b t. b @ normalizeModelTranscriptionDelta (length b) t) '''' ts else concat ts)"

fun told_pieces :: "piece list \<Rightarrow> piece list \<Rightarrow> model_transcript list" where
  "told_pieces before [] = []"
| "told_pieces before (TurnEnd # ps) = told_pieces (before @ [TurnEnd]) ps"
| "told_pieces before (Said m t fin # ps) =
     \<lparr>tr_Role = (if m then ''model'' else ''user''), tr_Text = joined m (utterance m before @ [t])\<rparr>
     # told_pieces (before @ [Said m t fin]) ps"

definition bufs_after :: "piece list \<Rightarrow> gemini_bufs" where
  "bufs_after ps = (joined False (utterance False ps), joined True (utterance True ps))"

lemma utterance_snoc:
  "utterance m (ps @ [p]) =
     (if \<not> concerns m p then utterance m ps else if closes p then [] else utterance m ps @ [piece_text p])"
  by (simp add: utterance_def)

lemma joined_simps:
  "joined m [] = ''''"
  "joined False (ts @ [t]) = joined False ts @ t"
  "joined True (ts @ [t]) = joined True ts @ normalizeModelTranscriptionDelta (length (joined True ts)) t"
  by (simp_all add: joined_def)

lemma normalize_nonempty: "t \<noteq> '''' \<Longrightarrow> normalizeModelTranscriptionDelta n t \<noteq> ''''"
  by (simp add: normalizeModelTranscriptionDelta_def Let_def)

lemma told_pieces_append:
  "told_pieces before (ps @ qs) = told_pieces before ps @ told_pieces (before @ ps) qs"
  by (induction before ps rule: told_pieces.induct) auto

lemma handleTranscription_told:
  "texts (fst (handleTranscription (if m then ''model'' else ''user'') tr (bufs_after before))) =
     told_pieces before (piece_of m tr) \<and>
   snd (handleTranscription (if m then ''model'' else ''user'') tr (bufs_after before)) =
     bufs_after (before @ piece_of m tr)"
proof (cases tr)
  case (Some t)
  show ?thesis
  proof (cases "gt_Text t = ''''")
    case False
    with Some normalize_nonempty[OF False] show ?thesis
      by (cases m) (auto simp: handleTranscription_def piece_of_def bufs_after_def utterance_snoc joined_simps
          emitText_def Let_def)
  qed (simp add: Some handleTranscription_def piece_of_def)
qed (simp add: handleTranscription_def piece_of_def)

lemmas heard_user = handleTranscription_told[of False, simplified]
lemmas heard_model = handleTranscription_told[of True, simplified]

lemma bufs_after_TurnEnd: "bufs_after (ps @ [TurnEnd]) = ('''', '''')"
  by (simp add: bufs_after_def utterance_snoc joined_simps)

lemma texts_no [simp]: "texts (audio_parts ps :: 'a action list) = []" "texts (handleToolCall tc :: 'b action list) = []"
proof -
  show "texts (audio_parts ps :: 'a action list) = []" by (induction ps rule: audio_parts.induct) (auto split: option.splits)
  have "texts (map PushTool cs :: 'b action list) = []" for cs by (induction cs) auto
  then show "texts (handleToolCall tc :: 'b action list) = []" by (simp add: handleToolCall_def split: option.split)
qed

lemma handle_content_told:
  "texts (fst (handle_content sc (bufs_after before))) =
     told_pieces before (piece_of False (gs_InputTranscription sc) @ piece_of True (gs_OutputTranscription sc)) \<and>
   snd (handle_content sc (bufs_after before)) =
     bufs_after (before @ piece_of False (gs_InputTranscription sc) @ piece_of True (gs_OutputTranscription sc)
       @ (if gs_TurnComplete sc then [TurnEnd] else []))"
  unfolding handle_content_def
  using bufs_after_TurnEnd[of "before @ piece_of False (gs_InputTranscription sc) @ piece_of True (gs_OutputTranscription sc)"]
  by (simp add: split_beta Let_def heard_user heard_model told_pieces_append split: option.split)

definition pieces_in :: "('m \<Rightarrow> gemini_msg option) \<Rightarrow> 'm \<Rightarrow> piece list" where
  "pieces_in decode data = (case decode data of None \<Rightarrow> [] | Some m \<Rightarrow> pieces m)"

lemma gm_handle_told:
  "texts (fst (gm_handle decode (bufs_after before) data)) = told_pieces before (pieces_in decode data) \<and>
   snd (gm_handle decode (bufs_after before) data) = bufs_after (before @ pieces_in decode data)"
proof (cases "decode data")
  case (Some m)
  show ?thesis
  proof (cases "gm_ServerContent m")
    case None
    with Some show ?thesis
      by (simp add: gm_handle_def pieces_in_def pieces_def split_beta Let_def heard_user heard_model told_pieces_append)
  next
    case sc: (Some sc)
    have "told_pieces ps (if gs_TurnComplete sc then [TurnEnd] else []) = []" for ps by simp
    then show ?thesis using Some sc
        handle_content_told[of sc "before @ piece_of False (gm_InputTranscription m) @ piece_of True (gm_OutputTranscription m)"]
      by (simp add: gm_handle_def pieces_in_def pieces_def split_beta Let_def heard_user heard_model told_pieces_append)
  qed
qed (simp add: gm_handle_def pieces_in_def)

lemma gm_all_told:
  "texts (fst (handle_all (gm_handle decode) (bufs_after before) ms)) = told_pieces before (concat (map (pieces_in decode) ms))"
proof (induction ms arbitrary: before)
  case (Cons m ms)
  then show ?case using gm_handle_told[of decode before m]
    by (simp add: handle_all_fst_Cons told_pieces_append del: handle_all.simps(2))
qed simp

text \<open>
  C32: While a Gemini session is live, the transcripts the bridge receives are, in order and without loss
  or duplication, one for every piece of speech the server transcribes, each carrying the whole
  utterance so far of its speaker: from the piece after the last finished one, or after the end of
  the turn, up to this piece; what has not been received yet waits in the channel or in the reader.
\<close>

theorem gemini_transcripts:
  assumes "Cancel \<notin> set es" and "collect (ad_step (gm_handle decode)) (new_adapter ('''', '''')) es = (os, s)"
  shows "texts_got os @ pending_texts s = told_pieces [] (concat (map (pieces_in decode) (messages_read os)))"
proof -
  have b: "('''', '''') = bufs_after []" by (simp add: bufs_after_def utterance_def joined_simps)
  have "pending_texts (new_adapter (bufs_after []) :: (model_transcript, gemini_bufs) adapter) = []"
    by (simp add: pending_texts_def new_adapter_def todo_def)
  then show ?thesis
    using gm.texts_exact[OF adapter_ok_new _ assms] gm_all_told[of decode "[]" "messages_read os"]
    by (simp add: b new_adapter_def)
qed


text \<open>Two words of the model, the second with its space, and a Chinese character after a space, which is dropped.\<close>

definition demo_said :: "string \<Rightarrow> bool \<Rightarrow> gemini_msg" where
  "demo_said t fin =
     \<lparr>gm_InputTranscription = None, gm_OutputTranscription = Some \<lparr>gt_Text = t, gt_Finished = fin\<rparr>,
      gm_ToolCall = None, gm_ServerContent = None\<rparr>"

lemma normalize_word: "normalizeModelTranscriptionDelta (Suc 0) '' b'' = '' b''"
proof -
  have "decode_rune ''b'' = 98" by (simp add: utf8_width.simps utf8_ranges_def byte_in_def)
  then show ?thesis by (simp add: normalizeModelTranscriptionDelta_def isCJKTranscriptionRune_def han_ranges_def)
qed

theorem gemini_transcripts_witness:
  "told_pieces [] (concat (map (pieces_in Some) [demo_said ''a'' False, demo_said '' b'' True])) =
    [\<lparr>tr_Role = ''model'', tr_Text = ''a''\<rparr>, \<lparr>tr_Role = ''model'', tr_Text = ''a b''\<rparr>]"
proof -
  let ?f = "demo_said ''a'' False" and ?g = "demo_said '' b'' True"
  let ?es = "[Message ?f, Reader False, Message ?g, Reader False, CallRecvTranscript False, CallRecvTranscript False]"
  let ?st = "ad_step (gm_handle Some)"
  obtain os s where r: "collect ?st (new_adapter ('''', '''')) ?es = (os, s)" by fastforce
  have h: "gm_handle Some ('''', '''') ?f = ([PushText \<lparr>tr_Role = ''model'', tr_Text = ''a''\<rparr>], ('''', ''a''))"
    "gm_handle Some ('''', ''a'') ?g = ([PushText \<lparr>tr_Role = ''model'', tr_Text = ''a b''\<rparr>], ('''', ''''))"
    by (simp_all add: gm_handle_def demo_said_def handleTranscription_def emitText_def handleToolCall_def normalize_word)
      (simp add: normalizeModelTranscriptionDelta_def Let_def)
  have "os = fst (collect ?st (new_adapter ('''', '''')) ?es)" "s = snd (collect ?st (new_adapter ('''', '''')) ?es)"
    using r by simp_all
  then have "messages_read os = [?f, ?g]" "texts_got os =
      [\<lparr>tr_Role = ''model'', tr_Text = ''a''\<rparr>, \<lparr>tr_Role = ''model'', tr_Text = ''a b''\<rparr>]" "pending_texts s = []"
    by (simp_all add: new_adapter_def ad_step_def h reader_step_def act_def recvTranscript_def ch_recv_def ch_full_def
        ch_ready_def pending_texts_def todo_def Let_def)
  with gemini_transcripts[OF _ r] show ?thesis by simp
qed

subsection \<open>Deltas, rates and the end\<close>

text \<open>The normalisation drops at most one leading space, and only before a character it takes for Chinese.\<close>

lemma normalize_cases:
  "normalizeModelTranscriptionDelta n t = t \<or>
   (n \<noteq> 0 \<and> t = CHR '' '' # normalizeModelTranscriptionDelta n t \<and>
    isCJKTranscriptionRune (decode_rune (normalizeModelTranscriptionDelta n t)))"
  by (auto simp: normalizeModelTranscriptionDelta_def has_prefix_iff Let_def)

text \<open>
  The full stop U+3002 is in the range the code names, but its case has no body: the space before it
  stays, so a streamed Chinese sentence keeps a space before its punctuation.
\<close>

lemma cjk_punctuation_keeps_space:
  "\<not> isCJKTranscriptionRune 0x3002"
  "normalizeModelTranscriptionDelta 1 (CHR '' '' # [CHR 0xE3, CHR 0x80, CHR 0x82]) = CHR '' '' # [CHR 0xE3, CHR 0x80, CHR 0x82]"
proof -
  show "\<not> isCJKTranscriptionRune 0x3002" by (simp add: isCJKTranscriptionRune_def han_ranges_def)
  moreover have "decode_rune [CHR 0xE3, CHR 0x80, CHR 0x82] = 0x3002"
    by (simp add: utf8_width.simps utf8_ranges_def byte_in_def Let_def)
  ultimately show "normalizeModelTranscriptionDelta 1 (CHR '' '' # [CHR 0xE3, CHR 0x80, CHR 0x82]) =
      CHR '' '' # [CHR 0xE3, CHR 0x80, CHR 0x82]"
    by (simp add: normalizeModelTranscriptionDelta_def)
qed

lemma index_of_rate: "index_of (''audio/pcm;rate='' @ s) ''rate='' = Some 10"
  by simp

lemma rate_roundtrip:
  assumes "0 \<le> r" and "r < 2 ^ 63"
  shows "rateFromMime (''audio/pcm;rate='' @ format_int r) def = r"
proof -
  have "drop (10 + 5) (''audio/pcm;rate='' @ format_int r) = format_int r" by (simp add: numeral_eq_Suc)
  moreover have "trim_space (format_int r) = format_int r"
    using assms(1) by (simp add: format_int_def trim_space_digits format_nat_digits)
  moreover have "atoi (format_int r) = Some r" using assms by (intro atoi_format_int) auto
  ultimately show ?thesis unfolding rateFromMime_def index_of_rate by simp
qed

lemma audio_parts_no_crash:
  assumes "\<forall>p \<in> set ps. case p of None \<Rightarrow> True | Some (mime, data) \<Rightarrow>
      1 \<le> rateFromMime mime geminiOutRate \<and> rateFromMime mime geminiOutRate \<le> 2 ^ 20 \<and> length data \<le> 2 ^ 30"
  shows "Crash \<notin> set (audio_parts ps)"
  using assms
proof (induction ps rule: audio_parts.induct)
  case (3 mime data ps)
  show ?case
  proof (cases "b64_decode data")
    case (Some raw)
    have d: "1 \<le> rateFromMime mime geminiOutRate" "rateFromMime mime geminiOutRate \<le> 2 ^ 20" "length data \<le> 2 ^ 30"
      using 3(4) by auto
    have "length raw \<le> length data" by (rule b64_decode_length[OF Some])
    with d(3) have l: "length (FromBytes (map u8_of_char raw)) \<le> 2 ^ 30" by (simp add: length_FromBytes)
    have "\<exists>ys. inlineAudioToModelPCM raw mime = Some ys"
      unfolding inlineAudioToModelPCM_def OpusRate_def
      using resample_bounded[OF d(1,2) _ _ l, of 48000] by fastforce
    with 3 Some show ?thesis by auto
  qed (use 3 in auto)
qed auto

text \<open>
  C34: No message of the server ends the process as long as the rates it names are between 1 Hz and
  \<open>2\<^sup>20\<close> Hz and its chunks have at most \<open>2\<^sup>30\<close> characters: the reader then never panics, whatever else the
  message holds.
\<close>

theorem gemini_no_panic:
  assumes "\<And>m sc ps. decode data = Some m \<Longrightarrow> gm_ServerContent m = Some sc \<Longrightarrow> gs_ModelTurn sc = Some ps \<Longrightarrow>
      \<forall>p \<in> set ps. case p of None \<Rightarrow> True | Some (mime, b64) \<Rightarrow>
        1 \<le> rateFromMime mime geminiOutRate \<and> rateFromMime mime geminiOutRate \<le> 2 ^ 20 \<and> length b64 \<le> 2 ^ 30"
  shows "Crash \<notin> set (fst (gm_handle decode bufs data))"
proof (cases "decode data")
  case (Some m)
  have t: "Crash \<notin> set (fst (handleTranscription r tr b))" for r tr b using no_end_text by (simp add: no_end_def)
  have tl: "Crash \<notin> set (handleToolCall tc)" for tc by (rule no_end_tool[unfolded no_end_def, THEN conjunct2])
  have "Crash \<notin> set (fst (handle_content sc b))" if "gm_ServerContent m = Some sc" for sc b
  proof (cases "gs_ModelTurn sc")
    case None
    then show ?thesis by (simp add: handle_content_def split_beta Let_def t)
  next
    case ps: (Some ps)
    have "Crash \<notin> set (audio_parts ps :: model_transcript action list)"
      by (rule audio_parts_no_crash[OF assms[OF Some that ps]])
    with ps show ?thesis by (simp add: handle_content_def split_beta Let_def t)
  qed
  then show ?thesis
    by (simp add: gm_handle_def Some split_beta Let_def t tl split: option.split)
qed (simp add: gm_handle_def)

text \<open>A rate of 0 does: the resampler divides by it.\<close>

lemma gemini_rate_zero_panics:
  "inlineAudioToModelPCM ''ab'' ''audio/pcm;rate=0'' = None"
proof -
  have "rateFromMime (''audio/pcm;rate='' @ format_int 0) geminiOutRate = 0" by (rule rate_roundtrip) simp_all
  moreover have "format_int 0 = ''0''" by (simp add: format_int_def format_nat.simps digit_char_def)
  ultimately have "rateFromMime ''audio/pcm;rate=0'' geminiOutRate = 0" by simp
  moreover have "FromBytes (map u8_of_char ''ab'') \<noteq> []" using length_FromBytes[of "map u8_of_char ''ab''"] by force
  ultimately show ?thesis by (simp add: inlineAudioToModelPCM_def ResampleLinear_def OpusRate_def)
qed


definition demo_audio :: gemini_msg where
  "demo_audio =
     \<lparr>gm_InputTranscription = None, gm_OutputTranscription = None, gm_ToolCall = None,
      gm_ServerContent = Some \<lparr>gs_TurnComplete = False, gs_Interrupted = True, gs_InputTranscription = None,
        gs_OutputTranscription = None, gs_ModelTurn = Some [None, Some (''audio/pcm;rate=24000'', ''AQI='')]\<rparr>\<rparr>"

theorem gemini_no_panic_witness:
  "Crash \<notin> set (fst (gm_handle Some ('''', '''') demo_audio))"
proof (rule gemini_no_panic)
  fix m sc ps
  assume "Some demo_audio = Some m" "gm_ServerContent m = Some sc" "gs_ModelTurn sc = Some ps"
  then have ps: "ps = [None, Some (''audio/pcm;rate=24000'', ''AQI='')]" by (auto simp: demo_audio_def)
  have "rateFromMime (''audio/pcm;rate='' @ format_int 24000) geminiOutRate = 24000" by (rule rate_roundtrip) simp_all
  moreover have "format_int 24000 = ''24000''" by (simp add: format_int_def format_nat.simps digit_char_def)
  ultimately show "\<forall>p \<in> set ps. case p of None \<Rightarrow> True | Some (mime, b64) \<Rightarrow>
      1 \<le> rateFromMime mime geminiOutRate \<and> rateFromMime mime geminiOutRate \<le> 2 ^ 20 \<and> length b64 \<le> 2 ^ 30"
    by (simp add: ps)
qed

text \<open>\<open>Close\<close> and a barge-in behave as in the shared adapter.\<close>

lemma gemini_close_returns:
  assumes "adapter_ok s" and "ad_cancelled s" and "\<forall>e \<in> set es. \<not> is_message e"
    and "length (todo s) \<le> length (filter is_reader es)"
  shows "ad_reader (snd (collect (ad_step (gm_handle decode)) s (es @ [ReadError]))) = None"
  by (rule gm.close_returns[OF assms])

text \<open>The audio a message brings together with an interruption follows the interruption.\<close>

lemma gemini_interrupted_first:
  assumes "gm_ServerContent m = Some sc" and "gs_Interrupted sc" and "gs_ModelTurn sc = Some ps"
  shows "\<exists>as. fst (gm_handle Some bufs m) = as @ Barge # audio_parts ps \<and> audios as = []"
proof -
  have n: "audios (fst (handleTranscription r tr b)) = []" for r tr b
    by (auto simp: handleTranscription_def emitText_def Let_def split_beta split: option.split)
  have "audios (map PushTool cs :: model_transcript action list) = []" for cs by (induction cs) auto
  then have tl: "audios (handleToolCall tc :: model_transcript action list) = []" for tc
    by (simp add: handleToolCall_def split: option.split)
  let ?b1 = "snd (handleTranscription ''user'' (gm_InputTranscription m) bufs)"
  let ?b2 = "snd (handleTranscription ''model'' (gm_OutputTranscription m) ?b1)"
  let ?b3 = "snd (handleTranscription ''user'' (gs_InputTranscription sc) ?b2)"
  let ?as = "fst (handleTranscription ''user'' (gm_InputTranscription m) bufs)
    @ fst (handleTranscription ''model'' (gm_OutputTranscription m) ?b1) @ handleToolCall (gm_ToolCall m)
    @ fst (handleTranscription ''user'' (gs_InputTranscription sc) ?b2)
    @ fst (handleTranscription ''model'' (gs_OutputTranscription sc) ?b3)"
  have "fst (gm_handle Some bufs m) = ?as @ Barge # audio_parts ps"
    by (simp add: gm_handle_def handle_content_def assms split_beta Let_def)
  moreover have "audios ?as = []" by (simp add: n tl)
  ultimately show ?thesis by blast
qed

end
