(* ===== verification/Adaptive.thy ===== *)
theory Adaptive
  imports Metrics Float64
begin

text \<open>
  The two controllers of the encoder complexity (\<open>internal/adaptive/adaptive.go\<close>): one follows the
  number of sessions with hysteresis, the other the share of late frames, damped by a dwell.  A call
  of \<open>set\<close> is recorded in the state; an index out of range is a panic and gives \<open>None\<close>.
\<close>

definition entry :: "'a list \<Rightarrow> int \<Rightarrow> 'a option" where
  "entry xs i = (if 0 \<le> i \<and> i < int (length xs) then Some (xs ! nat i) else None)"

lemma entry_nat [simp]: "entry xs (int n) = (if n < length xs then Some (xs ! n) else None)"
  by (simp add: entry_def)

subsection \<open>The session controller\<close>

record session_controller =
  sn_comps :: "int list"
  sn_downAt :: "int list"
  sn_upAt :: "int list"
  sn_idx :: int
  sn_sets :: "int list"

definition NewSession :: "int list \<Rightarrow> int list \<Rightarrow> int list \<Rightarrow> session_controller option" where
  "NewSession comps downAt upAt =
     (case entry comps 0 of
        None \<Rightarrow> None
      | Some c \<Rightarrow> Some \<lparr>sn_comps = comps, sn_downAt = downAt, sn_upAt = upAt, sn_idx = 0, sn_sets = [c]\<rparr>)"

definition session_set :: "int \<Rightarrow> session_controller \<Rightarrow> session_controller option" where
  "session_set i c =
     (case entry (sn_comps c) i of
        None \<Rightarrow> None
      | Some x \<Rightarrow> Some (c\<lparr>sn_idx := i, sn_sets := sn_sets c @ [x]\<rparr>))"

definition session_Step :: "int \<Rightarrow> session_controller \<Rightarrow> session_controller option" where
  "session_Step n c =
     (let idx = sn_idx c;
          try_up = (if 0 < idx
                    then (case entry (sn_upAt c) (idx - 1) of
                            None \<Rightarrow> None
                          | Some u \<Rightarrow> if n < u then session_set (idx - 1) c else Some c)
                    else Some c) in
      if idx < int (length (sn_comps c)) - 1 then
        (case entry (sn_downAt c) idx of
           None \<Rightarrow> None
         | Some d \<Rightarrow> if d \<le> n then session_set (idx + 1) c else try_up)
      else try_up)"

definition session_Level :: "session_controller \<Rightarrow> int option" where
  "session_Level c = entry (sn_comps c) (sn_idx c)"

fun session_run :: "session_controller \<Rightarrow> int list \<Rightarrow> session_controller option" where
  "session_run c [] = Some c"
| "session_run c (n # ns) = Option.bind (session_Step n c) (\<lambda>c'. session_run c' ns)"

text \<open>The parameters fit together, the level is one of them, and the encoder has the level's complexity.\<close>

definition session_ok :: "session_controller \<Rightarrow> bool" where
  "session_ok c \<longleftrightarrow>
     sn_comps c \<noteq> [] \<and> length (sn_downAt c) = length (sn_comps c) - 1 \<and> length (sn_upAt c) = length (sn_comps c) - 1 \<and>
     0 \<le> sn_idx c \<and> sn_idx c < int (length (sn_comps c)) \<and>
     sn_sets c \<noteq> [] \<and> session_Level c = Some (last (sn_sets c))"

text \<open>What one step does, for well-formed parameters: one level down, one up, or nothing.\<close>

definition wants_down :: "int \<Rightarrow> session_controller \<Rightarrow> bool" where
  "wants_down n c \<longleftrightarrow> sn_idx c < int (length (sn_comps c)) - 1 \<and> sn_downAt c ! nat (sn_idx c) \<le> n"

definition wants_up :: "int \<Rightarrow> session_controller \<Rightarrow> bool" where
  "wants_up n c \<longleftrightarrow> 0 < sn_idx c \<and> n < sn_upAt c ! nat (sn_idx c - 1)"

definition moved :: "int \<Rightarrow> session_controller \<Rightarrow> session_controller" where
  "moved d c = c\<lparr>sn_idx := sn_idx c + d, sn_sets := sn_sets c @ [sn_comps c ! nat (sn_idx c + d)]\<rparr>"

lemma session_Step_cases:
  assumes "session_ok c"
  shows "session_Step n c = Some (if wants_down n c then moved 1 c else if wants_up n c then moved (- 1) c else c)"
proof -
  have i: "0 \<le> sn_idx c" "sn_idx c < int (length (sn_comps c))" "sn_comps c \<noteq> []"
    "length (sn_downAt c) = length (sn_comps c) - 1" "length (sn_upAt c) = length (sn_comps c) - 1"
    using assms by (simp_all add: session_ok_def)
  have down: "entry (sn_downAt c) (sn_idx c) = Some (sn_downAt c ! nat (sn_idx c))" if "sn_idx c < int (length (sn_comps c)) - 1"
    using that i by (simp add: entry_def)
  have up: "entry (sn_upAt c) (sn_idx c - 1) = Some (sn_upAt c ! nat (sn_idx c - 1))" if "0 < sn_idx c"
    using that i by (simp add: entry_def)
  have setd: "session_set (sn_idx c + 1) c = Some (moved 1 c)" if "sn_idx c < int (length (sn_comps c)) - 1"
    using that i by (simp add: session_set_def entry_def moved_def)
  have setu: "session_set (sn_idx c - 1) c = Some (moved (- 1) c)" if "0 < sn_idx c"
    using that i by (simp add: session_set_def entry_def moved_def)
  show ?thesis
    by (simp add: session_Step_def wants_down_def wants_up_def down up setd setu Let_def)
qed

lemma session_Step_ok: "session_ok c \<Longrightarrow> \<exists>c'. session_Step n c = Some c' \<and> session_ok c'"
proof -
  assume ok: "session_ok c"
  then have "wants_down n c \<Longrightarrow> session_ok (moved 1 c)" "wants_up n c \<Longrightarrow> session_ok (moved (- 1) c)"
    by (auto simp: session_ok_def moved_def wants_down_def wants_up_def session_Level_def entry_def)
  then show ?thesis using ok by (simp add: session_Step_cases)
qed

subsection \<open>Hysteresis\<close>

definition hysteresis :: "session_controller \<Rightarrow> bool" where
  "hysteresis c \<longleftrightarrow> (\<forall>i < length (sn_downAt c). sn_upAt c ! i < sn_downAt c ! i)"

text \<open>What a step keeps: the parameters, and with hysteresis the direction under a constant load.\<close>

lemma moved_params [simp]:
  "sn_comps (moved d c) = sn_comps c" "sn_downAt (moved d c) = sn_downAt c" "sn_upAt (moved d c) = sn_upAt c"
  "sn_idx (moved d c) = sn_idx c + d" "length (sn_sets (moved d c)) = Suc (length (sn_sets c))"
  by (simp_all add: moved_def)

lemma moved_ok:
  assumes "session_ok c"
  shows "wants_down n c \<Longrightarrow> session_ok (moved 1 c)" and "wants_up n c \<Longrightarrow> session_ok (moved (- 1) c)"
  using assms by (auto simp: session_ok_def moved_def wants_down_def wants_up_def session_Level_def entry_def)

lemma down_not_up:
  assumes "session_ok c" and "hysteresis c" and "wants_down n c"
  shows "\<not> wants_up n (moved 1 c)"
proof -
  have "nat (sn_idx c) < length (sn_downAt c)" using assms(1,3) by (auto simp: session_ok_def wants_down_def)
  then have "sn_upAt c ! nat (sn_idx c) < sn_downAt c ! nat (sn_idx c)" using assms(2) by (simp add: hysteresis_def)
  then show ?thesis using assms(3) by (simp add: wants_up_def wants_down_def)
qed

lemma up_not_down:
  assumes "session_ok c" and "hysteresis c" and "wants_up n c"
  shows "\<not> wants_down n (moved (- 1) c)"
proof -
  have "nat (sn_idx c - 1) < length (sn_downAt c)" using assms(1,3) by (auto simp: session_ok_def wants_up_def)
  then have "sn_upAt c ! nat (sn_idx c - 1) < sn_downAt c ! nat (sn_idx c - 1)" using assms(2) by (simp add: hysteresis_def)
  then show ?thesis using assms(3) by (simp add: wants_up_def wants_down_def)
qed

definition at_rest :: "int \<Rightarrow> session_controller \<Rightarrow> bool" where
  "at_rest n c \<longleftrightarrow> \<not> wants_down n c \<and> \<not> wants_up n c"

lemma rest_run: "session_ok c \<Longrightarrow> at_rest n c \<Longrightarrow> session_run c (replicate k n) = Some c"
  by (induction k) (simp_all add: session_Step_cases at_rest_def)

lemma settle_down:
  "session_ok c \<Longrightarrow> hysteresis c \<Longrightarrow> \<not> wants_up n c \<Longrightarrow> int (length (sn_comps c)) - 1 - sn_idx c \<le> int k \<Longrightarrow>
    \<exists>c'. session_run c (replicate k n) = Some c' \<and> session_ok c' \<and> at_rest n c' \<and>
      int (length (sn_sets c')) - int (length (sn_sets c)) = sn_idx c' - sn_idx c \<and> sn_idx c \<le> sn_idx c'"
proof (induction k arbitrary: c)
  case 0
  then have "at_rest n c" by (simp add: at_rest_def wants_down_def)
  then show ?case using 0 by simp
next
  case (Suc k)
  show ?case
  proof (cases "wants_down n c")
    case True
    have "\<exists>c'. session_run (moved 1 c) (replicate k n) = Some c' \<and> session_ok c' \<and> at_rest n c' \<and>
        int (length (sn_sets c')) - int (length (sn_sets (moved 1 c))) = sn_idx c' - sn_idx (moved 1 c) \<and>
        sn_idx (moved 1 c) \<le> sn_idx c'"
      using Suc.prems True by (intro Suc.IH moved_ok down_not_up) (auto simp: hysteresis_def)
    then show ?thesis using Suc.prems True by (auto simp: session_Step_cases)
  next
    case False
    then have "at_rest n c" using Suc.prems by (simp add: at_rest_def)
    then show ?thesis using rest_run[of c n "Suc k"] Suc.prems by simp
  qed
qed

lemma settle_up:
  "session_ok c \<Longrightarrow> hysteresis c \<Longrightarrow> \<not> wants_down n c \<Longrightarrow> sn_idx c \<le> int k \<Longrightarrow>
    \<exists>c'. session_run c (replicate k n) = Some c' \<and> session_ok c' \<and> at_rest n c' \<and>
      int (length (sn_sets c')) - int (length (sn_sets c)) = sn_idx c - sn_idx c' \<and> sn_idx c' \<le> sn_idx c"
proof (induction k arbitrary: c)
  case 0
  then have "at_rest n c" by (auto simp: at_rest_def wants_up_def)
  then show ?case using 0 by simp
next
  case (Suc k)
  show ?case
  proof (cases "wants_up n c")
    case True
    have "\<exists>c'. session_run (moved (- 1) c) (replicate k n) = Some c' \<and> session_ok c' \<and> at_rest n c' \<and>
        int (length (sn_sets c')) - int (length (sn_sets (moved (- 1) c))) = sn_idx (moved (- 1) c) - sn_idx c' \<and>
        sn_idx c' \<le> sn_idx (moved (- 1) c)"
      using Suc.prems True by (intro Suc.IH moved_ok up_not_down) (auto simp: hysteresis_def)
    then show ?thesis using Suc.prems True by (auto simp: session_Step_cases)
  next
    case False
    then have "at_rest n c" using Suc.prems by (simp add: at_rest_def)
    then show ?thesis using rest_run[of c n "Suc k"] Suc.prems by simp
  qed
qed

text \<open>
  C38: The session controller cannot oscillate.  With thresholds that fit the levels and each upper
  one above its lower one, under a constant load it moves in one direction only, by as many calls
  of \<open>set\<close> as levels passed, and after at most as many ticks as there are levels it rests: the next
  decision for that load changes nothing.  No index is ever out of range.
\<close>

theorem session_settles:
  assumes "session_ok c" and "hysteresis c" and "length (sn_comps c) \<le> k"
  shows "\<exists>c'. session_run c (replicate k n) = Some c' \<and> session_ok c' \<and> session_Step n c' = Some c' \<and>
    int (length (sn_sets c')) - int (length (sn_sets c)) = \<bar>sn_idx c' - sn_idx c\<bar>"
proof -
  have "\<exists>c'. session_run c (replicate k n) = Some c' \<and> session_ok c' \<and> at_rest n c' \<and>
      int (length (sn_sets c')) - int (length (sn_sets c)) = \<bar>sn_idx c' - sn_idx c\<bar>"
  proof (cases "wants_down n c")
    case True
    obtain k' where k: "k = Suc k'" using assms(1,3) by (cases k) (auto simp: session_ok_def)
    have "int (length (sn_comps (moved 1 c))) - 1 - sn_idx (moved 1 c) \<le> int k'"
      using assms(1,3) k by (simp add: session_ok_def)
    then obtain c' where c': "session_run (moved 1 c) (replicate k' n) = Some c'" "session_ok c'" "at_rest n c'"
        "int (length (sn_sets c')) - int (length (sn_sets (moved 1 c))) = sn_idx c' - sn_idx (moved 1 c)" "sn_idx (moved 1 c) \<le> sn_idx c'"
      using settle_down[of "moved 1 c" n k'] assms True moved_ok(1) down_not_up by (auto simp: hysteresis_def)
    moreover have "session_run c (replicate k n) = Some c'" using c'(1) assms(1) True by (simp add: k session_Step_cases)
    ultimately show ?thesis by auto
  next
    case False
    have "sn_idx c \<le> int k" using assms(1,3) by (simp add: session_ok_def)
    then obtain c' where "session_run c (replicate k n) = Some c'" "session_ok c'" "at_rest n c'"
        "int (length (sn_sets c')) - int (length (sn_sets c)) = sn_idx c - sn_idx c'" "sn_idx c' \<le> sn_idx c"
      using settle_up[OF assms(1,2) False] by blast
    then show ?thesis by auto
  qed
  then show ?thesis by (auto simp: session_Step_cases at_rest_def)
qed

text \<open>The parameters of \<open>newAdaptive\<close> in \<open>cmd/proxy/root.go\<close>.\<close>

definition adaptive_comps :: "int list" where "adaptive_comps = [10, 5, 3]"
definition adaptive_downAt :: "int list" where "adaptive_downAt = [40, 90]"
definition adaptive_upAt :: "int list" where "adaptive_upAt = [30, 75]"

definition demo_session :: session_controller where
  "demo_session = the (NewSession adaptive_comps adaptive_downAt adaptive_upAt)"

lemma demo_session_ok: "session_ok demo_session" "hysteresis demo_session" "length (sn_comps demo_session) = 3"
  by (simp_all add: demo_session_def NewSession_def adaptive_comps_def adaptive_downAt_def adaptive_upAt_def
      session_ok_def session_Level_def entry_def hysteresis_def less_Suc_eq numeral_2_eq_2)

theorem session_settles_witness:
  "\<exists>c'. session_run demo_session (replicate 3 100) = Some c' \<and> session_ok c' \<and> session_Step 100 c' = Some c'"
  using session_settles[OF demo_session_ok(1,2), of 3 100] by (auto simp: demo_session_ok(3))

subsection \<open>The drift controller\<close>

text \<open>Two snapshots of the histogram are association lists; a label not in the map counts as 0.\<close>

definition count_of :: "(string \<times> u64) list \<Rightarrow> string \<Rightarrow> u64" where
  "count_of m k = (case map_of m k of None \<Rightarrow> 0 | Some v \<Rightarrow> v)"

definition late_label :: string where
  "late_label = ''>=30ms''"

definition recentDrift :: "(string \<times> u64) list \<Rightarrow> (string \<times> u64) list \<Rightarrow> rat" where
  "recentDrift last' cur =
     (let total = sum_list (map (\<lambda>(k, v). v - count_of last' k) cur) in
      if total = 0 then 0
      else fl (fl (of_nat (unat (count_of cur late_label - count_of last' late_label))) / fl (of_nat (unat total))))"

record drift_controller =
  dc_comps :: "int list"
  dc_highWM :: rat
  dc_lowWM :: rat
  dc_dwell :: int
  dc_idx :: int
  dc_since :: int
  dc_last :: "(string \<times> u64) list"
  dc_sets :: "int list"

definition NewDrift :: "(string \<times> u64) list \<Rightarrow> int list \<Rightarrow> rat \<Rightarrow> rat \<Rightarrow> int \<Rightarrow> drift_controller option" where
  "NewDrift buckets comps highWM lowWM dwell =
     (case entry comps 0 of
        None \<Rightarrow> None
      | Some c \<Rightarrow> Some \<lparr>dc_comps = comps, dc_highWM = highWM, dc_lowWM = lowWM, dc_dwell = dwell, dc_idx = 0,
                        dc_since = 0, dc_last = buckets, dc_sets = [c]\<rparr>)"

definition drift_Step :: "rat \<Rightarrow> drift_controller \<Rightarrow> drift_controller option" where
  "drift_Step drift c0 =
     (let c = c0\<lparr>dc_since := dc_since c0 + 1\<rparr> in
      if dc_since c < dc_dwell c then Some c
      else
        (let move = (if dc_highWM c < drift \<and> dc_idx c < int (length (dc_comps c)) - 1 then Some (dc_idx c + 1)
                     else if drift < dc_lowWM c \<and> 0 < dc_idx c then Some (dc_idx c - 1)
                     else None) in
         case move of
           None \<Rightarrow> Some c
         | Some i \<Rightarrow>
             (case entry (dc_comps c) i of
                None \<Rightarrow> None
              | Some x \<Rightarrow> Some (c\<lparr>dc_idx := i, dc_sets := dc_sets c @ [x], dc_since := 0\<rparr>))))"

text \<open>One tick of the loop, which keeps the snapshot for the next one.\<close>

definition drift_tick :: "(string \<times> u64) list \<Rightarrow> drift_controller \<Rightarrow> drift_controller option" where
  "drift_tick cur c = map_option (\<lambda>c'. c'\<lparr>dc_last := cur\<rparr>) (drift_Step (recentDrift (dc_last c) cur) c)"

fun drift_run :: "drift_controller \<Rightarrow> (string \<times> u64) list list \<Rightarrow> drift_controller option" where
  "drift_run c [] = Some c"
| "drift_run c (cur # curs) = Option.bind (drift_tick cur c) (\<lambda>c'. drift_run c' curs)"

text \<open>
  The level is in range and the encoder has its complexity; the changes so far, each paid for by
  \<open>dwell\<close> ticks, and the ticks since the last one fit into the \<open>n\<close> ticks there were.
\<close>

definition drift_ok :: "int \<Rightarrow> drift_controller \<Rightarrow> bool" where
  "drift_ok n c \<longleftrightarrow>
     0 \<le> dc_idx c \<and> dc_idx c < int (length (dc_comps c)) \<and> dc_sets c \<noteq> [] \<and>
     last (dc_sets c) = dc_comps c ! nat (dc_idx c) \<and> 0 \<le> dc_since c \<and>
     dc_dwell c * (int (length (dc_sets c)) - 1) + dc_since c \<le> n"

lemma drift_Step_ok:
  assumes "drift_ok n c"
  shows "\<exists>c'. drift_Step d c = Some c' \<and> drift_ok (n + 1) c' \<and> dc_dwell c' = dc_dwell c \<and> dc_comps c' = dc_comps c"
  using assms by (auto simp: drift_Step_def drift_ok_def entry_def Let_def algebra_simps split: option.splits)

lemma drift_run_ok:
  "drift_ok n c \<Longrightarrow> \<exists>c'. drift_run c curs = Some c' \<and> drift_ok (n + int (length curs)) c' \<and> dc_dwell c' = dc_dwell c"
proof (induction curs arbitrary: n c)
  case (Cons cur curs)
  from drift_Step_ok[OF Cons.prems, of "recentDrift (dc_last c) cur"] obtain c' where
    c': "drift_Step (recentDrift (dc_last c) cur) c = Some c'" "drift_ok (n + 1) c'" "dc_dwell c' = dc_dwell c" by blast
  have "drift_ok (n + 1) (c'\<lparr>dc_last := cur\<rparr>)" using c'(2) by (simp add: drift_ok_def)
  from Cons.IH[OF this] show ?case using c' by (auto simp: drift_tick_def algebra_simps)
qed simp

text \<open>
  The drift controller is damped.  Whatever the histograms say, in any number of ticks it changes
  the level at most once per \<open>dwell\<close> ticks, never runs out of its levels, and the encoder always has
  the complexity of the current level.
\<close>

theorem drift_damped:
  assumes "NewDrift buckets comps highWM lowWM dwell = Some c" and "0 \<le> dwell"
  shows "\<exists>c'. drift_run c curs = Some c' \<and> dwell * (int (length (dc_sets c')) - 1) \<le> int (length curs) \<and>
    0 \<le> dc_idx c' \<and> dc_idx c' < int (length (dc_comps c')) \<and> last (dc_sets c') = dc_comps c' ! nat (dc_idx c')"
proof -
  have "drift_ok 0 c" "dc_dwell c = dwell" using assms(1)
    by (auto simp: NewDrift_def drift_ok_def entry_def split: if_splits option.splits)
  then show ?thesis using drift_run_ok[of 0 c curs] by (auto simp: drift_ok_def)
qed

theorem drift_damped_witness:
  "\<exists>c c'. NewDrift [] adaptive_comps (1 / 10) (3 / 100) 4 = Some c \<and>
    drift_run c [[(''>=30ms'', 9)], [(''>=30ms'', 12)]] = Some c' \<and> 4 * (int (length (dc_sets c')) - 1) \<le> 2"
proof -
  have "\<exists>c. NewDrift [] adaptive_comps (1 / 10) (3 / 100) 4 = Some c" by (simp add: NewDrift_def entry_def adaptive_comps_def)
  then show ?thesis using drift_damped[of "[]" adaptive_comps "1 / 10" "3 / 100" 4 _ "[[(''>=30ms'', 9)], [(''>=30ms'', 12)]]"]
    by fastforce
qed

text \<open>With counters that only grow, the drift is a fraction: between 0 and 1 after rounding.\<close>

lemma unat_sum_list:
  "sum_list (map unat ws) < 2 ^ 64 \<Longrightarrow> unat (sum_list ws :: u64) = sum_list (map unat ws)"
proof (induction ws)
  case (Cons w ws)
  then have "unat (sum_list ws) = sum_list (map unat ws)" by simp
  then show ?case using Cons.prems by (simp add: unat_word_ariths)
qed simp

lemma drift_fraction:
  assumes "distinct (map fst cur)" and "late_label \<in> fst ` set cur"
    and "sum_list (map (\<lambda>(k, v). unat (v - count_of last' k)) cur) < 2 ^ 64"
  shows "0 \<le> recentDrift last' cur \<and> recentDrift last' cur \<le> 1"
proof -
  let ?ws = "map (\<lambda>(k, v). v - count_of last' k) cur"
  let ?l = "count_of cur late_label - count_of last' late_label"
  have maps: "map unat ?ws = map (\<lambda>(k, v). unat (v - count_of last' k)) cur" by (simp add: case_prod_beta comp_def)
  have total: "unat (sum_list ?ws) = sum_list (map unat ?ws)" using assms(3) by (intro unat_sum_list) (simp only: maps)
  obtain v where v: "(late_label, v) \<in> set cur" using assms(2) by auto
  then have "map_of cur late_label = Some v" using assms(1) by simp
  then have "?l \<in> set ?ws" using v by (force simp: count_of_def)
  then have "unat ?l \<in> set (map unat ?ws)" unfolding list.set_map(1)[of unat] by (rule imageI)
  then have "unat ?l \<le> unat (sum_list ?ws)" unfolding total by (rule member_le_sum_list) simp
  then have le: "fl (of_nat (unat ?l)) \<le> fl (of_nat (unat (sum_list ?ws)))" by (intro fl_mono) (simp only: of_nat_le_iff)
  have pos: "sum_list ?ws \<noteq> 0 \<Longrightarrow> 1 \<le> fl (of_nat (unat (sum_list ?ws)))"
  proof -
    assume "sum_list ?ws \<noteq> 0"
    then have "1 \<le> unat (sum_list ?ws)" by (simp add: unat_gt_0 Suc_leI)
    then have "(1 :: rat) \<le> of_nat (unat (sum_list ?ws))" using of_nat_mono by fastforce
    from fl_mono[OF this] show ?thesis using fl_int[of 1] by simp
  qed
  have nn: "0 \<le> fl (of_nat (unat ?l))" by (intro fl_nonneg of_nat_0_le_iff)
  show ?thesis
  proof (cases "sum_list ?ws = 0")
    case False
    have "fl (of_nat (unat ?l)) / fl (of_nat (unat (sum_list ?ws))) \<le> 1" using pos[OF False] le by (simp add: divide_le_eq)
    from fl_mono[OF this] have "recentDrift last' cur \<le> 1" using False fl_int[of 1] by (simp add: recentDrift_def Let_def)
    moreover have "0 \<le> fl (fl (of_nat (unat ?l)) / fl (of_nat (unat (sum_list ?ws))))"
      using pos[OF False] nn by (intro fl_nonneg divide_nonneg_nonneg) linarith+
    then have "0 \<le> recentDrift last' cur" using False by (simp add: recentDrift_def Let_def)
    ultimately show ?thesis by simp
  qed (simp add: recentDrift_def)
qed

definition drift_Level :: "drift_controller \<Rightarrow> int option" where
  "drift_Level c = entry (dc_comps c) (dc_idx c)"

subsection \<open>The goroutine of a controller\<close>

text \<open>
  \<open>loop\<close>, which both controllers run: the stop channel, the done channel, and the controller, \<^const>\<open>None\<close>
  after a panic.  A tick brings its input; when the ticker and the stop channel are both ready either may
  be taken.  \<open>Close\<close> closes the stop channel once and returns when \<open>cl_done\<close> is set.
\<close>

record 'c control_loop =
  cl_stop :: bool
  cl_done :: bool
  cl_ctl :: "'c option"

datatype 'i loop_event = Ticked 'i | StopTaken | CloseCalled

definition loop_step :: "('i \<Rightarrow> 'c \<Rightarrow> 'c option) \<Rightarrow> 'c control_loop \<Rightarrow> 'i loop_event \<Rightarrow> 'c control_loop" where
  "loop_step tick s e =
     (case e of
        Ticked i \<Rightarrow> if cl_done s then s else s\<lparr>cl_ctl := Option.bind (cl_ctl s) (tick i)\<rparr>
      | StopTaken \<Rightarrow> if cl_stop s then s\<lparr>cl_done := True\<rparr> else s
      | CloseCalled \<Rightarrow> s\<lparr>cl_stop := True\<rparr>)"

definition loop_start :: "'c option \<Rightarrow> 'c control_loop" where
  "loop_start c = \<lparr>cl_stop = False, cl_done = False, cl_ctl = c\<rparr>"

definition controller_ok :: "('c \<Rightarrow> bool) \<Rightarrow> 'c control_loop \<Rightarrow> bool" where
  "controller_ok ok s \<longleftrightarrow> (cl_done s \<longrightarrow> cl_stop s) \<and> (\<exists>c. cl_ctl s = Some c \<and> ok c)"

locale ticking =
  fixes tick :: "'i \<Rightarrow> 'c \<Rightarrow> 'c option" and ok :: "'c \<Rightarrow> bool"
  assumes tick_ok: "ok c \<Longrightarrow> \<exists>c'. tick i c = Some c' \<and> ok c'"
begin

lemma loop_step_ok: "controller_ok ok s \<Longrightarrow> controller_ok ok (loop_step tick s e)"
  using tick_ok by (cases e) (fastforce simp: controller_ok_def loop_step_def)+

lemma loop_run_ok: "controller_ok ok s \<Longrightarrow> controller_ok ok (run (loop_step tick) s es)"
  by (induction es arbitrary: s) (auto intro: loop_step_ok)

lemma loop_never_panics: "ok c \<Longrightarrow> \<exists>c'. cl_ctl (run (loop_step tick) (loop_start (Some c)) es) = Some c' \<and> ok c'"
  using loop_run_ok[of "loop_start (Some c)" es] by (auto simp: controller_ok_def loop_start_def)

end

text \<open>Once \<open>Close\<close> has returned, the controller does not touch the encoder again; and it can return.\<close>

lemma loop_done_frozen: "cl_done s \<Longrightarrow> cl_ctl (run (loop_step tick) s es) = cl_ctl s"
proof (induction es arbitrary: s)
  case (Cons e es)
  then have "cl_done (loop_step tick s e) \<and> cl_ctl (loop_step tick s e) = cl_ctl s"
    by (cases e) (auto simp: loop_step_def)
  then show ?case using Cons.IH[of "loop_step tick s e"] by simp
qed simp

text \<open>\<open>Close\<close> of either controller: the stop channel is closed, once however often it is called, and \<open>loop\<close> takes it.\<close>

definition session_Close :: "session_controller control_loop \<Rightarrow> session_controller control_loop" where
  "session_Close s = run (loop_step session_Step) s [CloseCalled, StopTaken]"

definition drift_Close :: "drift_controller control_loop \<Rightarrow> drift_controller control_loop" where
  "drift_Close s = run (loop_step drift_tick) s [CloseCalled, StopTaken]"

lemma controller_close:
  "cl_done (run (loop_step tick) s [CloseCalled, StopTaken]) \<and> cl_ctl (run (loop_step tick) s [CloseCalled, StopTaken]) = cl_ctl s"
  by (simp add: loop_step_def)

lemma controller_close_twice:
  "session_Close (session_Close s) = session_Close s" "drift_Close (drift_Close d) = drift_Close d"
  by (simp_all add: session_Close_def drift_Close_def loop_step_def)

definition drift_state_ok :: "drift_controller \<Rightarrow> bool" where
  "drift_state_ok c \<longleftrightarrow> (\<exists>n. drift_ok n c)"

interpretation session_loop: ticking session_Step session_ok
  using session_Step_ok by unfold_locales blast

interpretation drift_loop: ticking drift_tick drift_state_ok
proof
  fix cur c
  assume "drift_state_ok c"
  then obtain n where "drift_ok n c" by (auto simp: drift_state_ok_def)
  from drift_Step_ok[OF this, of "recentDrift (dc_last c) cur"] obtain c' where
    "drift_Step (recentDrift (dc_last c) cur) c = Some c'" "drift_ok (n + 1) c'" by blast
  then show "\<exists>c'. drift_tick cur c = Some c' \<and> drift_state_ok c'"
    by (auto simp: drift_tick_def drift_state_ok_def drift_ok_def)
qed

text \<open>Under any interleaving of ticks and closing the level of each controller is one of its complexities.\<close>

lemma session_loop_level:
  assumes "session_ok c"
  shows "\<exists>c' l. cl_ctl (run (loop_step session_Step) (loop_start (Some c)) es) = Some c' \<and>
    session_Level c' = Some l \<and> l \<in> set (sn_comps c')"
proof -
  from session_loop.loop_never_panics[OF assms, of es] obtain c' where
    c': "cl_ctl (run (loop_step session_Step) (loop_start (Some c)) es) = Some c'" "session_ok c'" by blast
  then have "0 \<le> sn_idx c'" "nat (sn_idx c') < length (sn_comps c')" by (auto simp: session_ok_def)
  then show ?thesis using c'(1) by (auto simp: session_Level_def entry_def intro: nth_mem)
qed

lemma drift_loop_level:
  assumes "drift_state_ok c"
  shows "\<exists>c' l. cl_ctl (run (loop_step drift_tick) (loop_start (Some c)) es) = Some c' \<and>
    drift_Level c' = Some l \<and> l \<in> set (dc_comps c')"
proof -
  from drift_loop.loop_never_panics[OF assms, of es] obtain c' where
    c': "cl_ctl (run (loop_step drift_tick) (loop_start (Some c)) es) = Some c'" "drift_state_ok c'" by blast
  then have "0 \<le> dc_idx c'" "nat (dc_idx c') < length (dc_comps c')" by (auto simp: drift_state_ok_def drift_ok_def)
  then show ?thesis using c'(1) by (auto simp: drift_Level_def entry_def intro: nth_mem)
qed

end
