(* ===== verification/Cascadetext.thy ===== *)
theory Cascadetext
  imports Encoding Float64
begin

text \<open>
  The text functions of the cascade (\<open>internal/model/cascade/text.go\<close>): the sentence boundary that
  splits a reply for speech synthesis, and the similarity of two utterances that decides whether a
  turn repeats the last one.  The two tables of Unicode 15.0 they rest on are written out.
\<close>

subsection \<open>Code points\<close>

text \<open>The code points of a string; a byte that begins no valid sequence counts as U+FFFD.\<close>

fun runes :: "string \<Rightarrow> nat list" where
  "runes [] = []"
| "runes (c # cs) =
     (case utf8_width (c # cs) of
        0 \<Rightarrow> 0xFFFD # runes cs
      | Suc n \<Rightarrow> decode_rune (c # cs) # runes (drop n cs))"

definition encode_rune :: "nat \<Rightarrow> string" where
  "encode_rune r =
     (if r < 0x80 then [byte r]
      else if r < 0x800 then [byte (0xC0 + r div 64), byte (0x80 + r mod 64)]
      else if 0xD800 \<le> r \<and> r \<le> 0xDFFF \<or> 0x10FFFF < r then [CHR 0xEF, CHR 0xBF, CHR 0xBD]
      else if r < 0x10000 then [byte (0xE0 + r div 4096), byte (0x80 + r div 64 mod 64), byte (0x80 + r mod 64)]
      else [byte (0xF0 + r div 262144), byte (0x80 + r div 4096 mod 64), byte (0x80 + r div 64 mod 64),
            byte (0x80 + r mod 64)])"

text \<open>\<open>unicode.ToLower\<close>: ranges of code points with their stride and the distance to the lower-case letter.\<close>

definition lower_ranges :: "(nat \<times> nat \<times> nat \<times> int) list" where
  "lower_ranges =
     [(0x41, 0x5A, 1, 32), (0xC0, 0xD6, 1, 32), (0xD8, 0xDE, 1, 32), (0x100, 0x12E, 2, 1),
      (0x130, 0x130, 1, - 199), (0x132, 0x136, 2, 1), (0x139, 0x147, 2, 1), (0x14A, 0x176, 2, 1),
      (0x178, 0x178, 1, - 121), (0x179, 0x17D, 2, 1), (0x181, 0x181, 1, 210), (0x182, 0x184, 2, 1),
      (0x186, 0x186, 1, 206), (0x187, 0x187, 1, 1), (0x189, 0x18A, 1, 205), (0x18B, 0x18B, 1, 1),
      (0x18E, 0x18E, 1, 79), (0x18F, 0x18F, 1, 202), (0x190, 0x190, 1, 203), (0x191, 0x191, 1, 1),
      (0x193, 0x193, 1, 205), (0x194, 0x194, 1, 207), (0x196, 0x196, 1, 211), (0x197, 0x197, 1, 209),
      (0x198, 0x198, 1, 1), (0x19C, 0x19C, 1, 211), (0x19D, 0x19D, 1, 213), (0x19F, 0x19F, 1, 214),
      (0x1A0, 0x1A4, 2, 1), (0x1A6, 0x1A6, 1, 218), (0x1A7, 0x1A7, 1, 1), (0x1A9, 0x1A9, 1, 218),
      (0x1AC, 0x1AC, 1, 1), (0x1AE, 0x1AE, 1, 218), (0x1AF, 0x1AF, 1, 1), (0x1B1, 0x1B2, 1, 217),
      (0x1B3, 0x1B5, 2, 1), (0x1B7, 0x1B7, 1, 219), (0x1B8, 0x1B8, 1, 1), (0x1BC, 0x1BC, 1, 1),
      (0x1C4, 0x1C4, 1, 2), (0x1C5, 0x1C5, 1, 1), (0x1C7, 0x1C7, 1, 2), (0x1C8, 0x1C8, 1, 1),
      (0x1CA, 0x1CA, 1, 2), (0x1CB, 0x1DB, 2, 1), (0x1DE, 0x1EE, 2, 1), (0x1F1, 0x1F1, 1, 2),
      (0x1F2, 0x1F4, 2, 1), (0x1F6, 0x1F6, 1, - 97), (0x1F7, 0x1F7, 1, - 56), (0x1F8, 0x21E, 2, 1),
      (0x220, 0x220, 1, - 130), (0x222, 0x232, 2, 1), (0x23A, 0x23A, 1, 10795), (0x23B, 0x23B, 1, 1),
      (0x23D, 0x23D, 1, - 163), (0x23E, 0x23E, 1, 10792), (0x241, 0x241, 1, 1), (0x243, 0x243, 1, - 195),
      (0x244, 0x244, 1, 69), (0x245, 0x245, 1, 71), (0x246, 0x24E, 2, 1), (0x370, 0x372, 2, 1),
      (0x376, 0x376, 1, 1), (0x37F, 0x37F, 1, 116), (0x386, 0x386, 1, 38), (0x388, 0x38A, 1, 37),
      (0x38C, 0x38C, 1, 64), (0x38E, 0x38F, 1, 63), (0x391, 0x3A1, 1, 32), (0x3A3, 0x3AB, 1, 32),
      (0x3CF, 0x3CF, 1, 8), (0x3D8, 0x3EE, 2, 1), (0x3F4, 0x3F4, 1, - 60), (0x3F7, 0x3F7, 1, 1),
      (0x3F9, 0x3F9, 1, - 7), (0x3FA, 0x3FA, 1, 1), (0x3FD, 0x3FF, 1, - 130), (0x400, 0x40F, 1, 80),
      (0x410, 0x42F, 1, 32), (0x460, 0x480, 2, 1), (0x48A, 0x4BE, 2, 1), (0x4C0, 0x4C0, 1, 15),
      (0x4C1, 0x4CD, 2, 1), (0x4D0, 0x52E, 2, 1), (0x531, 0x556, 1, 48), (0x10A0, 0x10C5, 1, 7264),
      (0x10C7, 0x10C7, 1, 7264), (0x10CD, 0x10CD, 1, 7264), (0x13A0, 0x13EF, 1, 38864), (0x13F0, 0x13F5, 1, 8),
      (0x1C90, 0x1CBA, 1, - 3008), (0x1CBD, 0x1CBF, 1, - 3008), (0x1E00, 0x1E94, 2, 1),
      (0x1E9E, 0x1E9E, 1, - 7615), (0x1EA0, 0x1EFE, 2, 1), (0x1F08, 0x1F0F, 1, - 8), (0x1F18, 0x1F1D, 1, - 8),
      (0x1F28, 0x1F2F, 1, - 8), (0x1F38, 0x1F3F, 1, - 8), (0x1F48, 0x1F4D, 1, - 8), (0x1F59, 0x1F5F, 2, - 8),
      (0x1F68, 0x1F6F, 1, - 8), (0x1F88, 0x1F8F, 1, - 8), (0x1F98, 0x1F9F, 1, - 8), (0x1FA8, 0x1FAF, 1, - 8),
      (0x1FB8, 0x1FB9, 1, - 8), (0x1FBA, 0x1FBB, 1, - 74), (0x1FBC, 0x1FBC, 1, - 9), (0x1FC8, 0x1FCB, 1, - 86),
      (0x1FCC, 0x1FCC, 1, - 9), (0x1FD8, 0x1FD9, 1, - 8), (0x1FDA, 0x1FDB, 1, - 100), (0x1FE8, 0x1FE9, 1, - 8),
      (0x1FEA, 0x1FEB, 1, - 112), (0x1FEC, 0x1FEC, 1, - 7), (0x1FF8, 0x1FF9, 1, - 128),
      (0x1FFA, 0x1FFB, 1, - 126), (0x1FFC, 0x1FFC, 1, - 9), (0x2126, 0x2126, 1, - 7517),
      (0x212A, 0x212A, 1, - 8383), (0x212B, 0x212B, 1, - 8262), (0x2132, 0x2132, 1, 28),
      (0x2160, 0x216F, 1, 16), (0x2183, 0x2183, 1, 1), (0x24B6, 0x24CF, 1, 26), (0x2C00, 0x2C2F, 1, 48),
      (0x2C60, 0x2C60, 1, 1), (0x2C62, 0x2C62, 1, - 10743), (0x2C63, 0x2C63, 1, - 3814),
      (0x2C64, 0x2C64, 1, - 10727), (0x2C67, 0x2C6B, 2, 1), (0x2C6D, 0x2C6D, 1, - 10780),
      (0x2C6E, 0x2C6E, 1, - 10749), (0x2C6F, 0x2C6F, 1, - 10783), (0x2C70, 0x2C70, 1, - 10782),
      (0x2C72, 0x2C72, 1, 1), (0x2C75, 0x2C75, 1, 1), (0x2C7E, 0x2C7F, 1, - 10815), (0x2C80, 0x2CE2, 2, 1),
      (0x2CEB, 0x2CED, 2, 1), (0x2CF2, 0x2CF2, 1, 1), (0xA640, 0xA66C, 2, 1), (0xA680, 0xA69A, 2, 1),
      (0xA722, 0xA72E, 2, 1), (0xA732, 0xA76E, 2, 1), (0xA779, 0xA77B, 2, 1), (0xA77D, 0xA77D, 1, - 35332),
      (0xA77E, 0xA786, 2, 1), (0xA78B, 0xA78B, 1, 1), (0xA78D, 0xA78D, 1, - 42280), (0xA790, 0xA792, 2, 1),
      (0xA796, 0xA7A8, 2, 1), (0xA7AA, 0xA7AA, 1, - 42308), (0xA7AB, 0xA7AB, 1, - 42319),
      (0xA7AC, 0xA7AC, 1, - 42315), (0xA7AD, 0xA7AD, 1, - 42305), (0xA7AE, 0xA7AE, 1, - 42308),
      (0xA7B0, 0xA7B0, 1, - 42258), (0xA7B1, 0xA7B1, 1, - 42282), (0xA7B2, 0xA7B2, 1, - 42261),
      (0xA7B3, 0xA7B3, 1, 928), (0xA7B4, 0xA7C2, 2, 1), (0xA7C4, 0xA7C4, 1, - 48),
      (0xA7C5, 0xA7C5, 1, - 42307), (0xA7C6, 0xA7C6, 1, - 35384), (0xA7C7, 0xA7C9, 2, 1),
      (0xA7D0, 0xA7D0, 1, 1), (0xA7D6, 0xA7D8, 2, 1), (0xA7F5, 0xA7F5, 1, 1), (0xFF21, 0xFF3A, 1, 32),
      (0x10400, 0x10427, 1, 40), (0x104B0, 0x104D3, 1, 40), (0x10570, 0x1057A, 1, 39),
      (0x1057C, 0x1058A, 1, 39), (0x1058C, 0x10592, 1, 39), (0x10594, 0x10595, 1, 39),
      (0x10C80, 0x10CB2, 1, 64), (0x118A0, 0x118BF, 1, 32), (0x16E40, 0x16E5F, 1, 32), (0x1E900, 0x1E921, 1, 34)]"

definition lower_rune :: "nat \<Rightarrow> nat" where
  "lower_rune r =
     (case find (\<lambda>(lo, hi, stride, d). lo \<le> r \<and> r \<le> hi \<and> (r - lo) mod stride = 0) lower_ranges of
        None \<Rightarrow> r
      | Some (lo, hi, stride, d) \<Rightarrow> nat (int r + d))"

text \<open>\<open>strings.ToLower\<close>; an invalid byte becomes U+FFFD.\<close>

definition ToLower :: "string \<Rightarrow> string" where
  "ToLower s = concat (map (\<lambda>r. encode_rune (lower_rune r)) (runes s))"

text \<open>The table \<open>unicode.Po\<close>, the category other punctuation.\<close>

definition po_ranges :: "(nat \<times> nat) list" where
  "po_ranges =
     [(0x21, 0x23), (0x25, 0x27), (0x2A, 0x2A), (0x2C, 0x2C), (0x2E, 0x2F), (0x3A, 0x3B), (0x3F, 0x40),
      (0x5C, 0x5C), (0xA1, 0xA1), (0xA7, 0xA7), (0xB6, 0xB7), (0xBF, 0xBF), (0x37E, 0x37E), (0x387, 0x387),
      (0x55A, 0x55F), (0x589, 0x589), (0x5C0, 0x5C0), (0x5C3, 0x5C3), (0x5C6, 0x5C6), (0x5F3, 0x5F4),
      (0x609, 0x60A), (0x60C, 0x60D), (0x61B, 0x61B), (0x61D, 0x61F), (0x66A, 0x66D), (0x6D4, 0x6D4),
      (0x700, 0x70D), (0x7F7, 0x7F9), (0x830, 0x83E), (0x85E, 0x85E), (0x964, 0x965), (0x970, 0x970),
      (0x9FD, 0x9FD), (0xA76, 0xA76), (0xAF0, 0xAF0), (0xC77, 0xC77), (0xC84, 0xC84), (0xDF4, 0xDF4),
      (0xE4F, 0xE4F), (0xE5A, 0xE5B), (0xF04, 0xF12), (0xF14, 0xF14), (0xF85, 0xF85), (0xFD0, 0xFD4),
      (0xFD9, 0xFDA), (0x104A, 0x104F), (0x10FB, 0x10FB), (0x1360, 0x1368), (0x166E, 0x166E), (0x16EB, 0x16ED),
      (0x1735, 0x1736), (0x17D4, 0x17D6), (0x17D8, 0x17DA), (0x1800, 0x1805), (0x1807, 0x180A),
      (0x1944, 0x1945), (0x1A1E, 0x1A1F), (0x1AA0, 0x1AA6), (0x1AA8, 0x1AAD), (0x1B5A, 0x1B60),
      (0x1B7D, 0x1B7E), (0x1BFC, 0x1BFF), (0x1C3B, 0x1C3F), (0x1C7E, 0x1C7F), (0x1CC0, 0x1CC7),
      (0x1CD3, 0x1CD3), (0x2016, 0x2017), (0x2020, 0x2027), (0x2030, 0x2038), (0x203B, 0x203E),
      (0x2041, 0x2043), (0x2047, 0x2051), (0x2053, 0x2053), (0x2055, 0x205E), (0x2CF9, 0x2CFC),
      (0x2CFE, 0x2CFF), (0x2D70, 0x2D70), (0x2E00, 0x2E01), (0x2E06, 0x2E08), (0x2E0B, 0x2E0B),
      (0x2E0E, 0x2E16), (0x2E18, 0x2E19), (0x2E1B, 0x2E1B), (0x2E1E, 0x2E1F), (0x2E2A, 0x2E2E),
      (0x2E30, 0x2E39), (0x2E3C, 0x2E3F), (0x2E41, 0x2E41), (0x2E43, 0x2E4F), (0x2E52, 0x2E54),
      (0x3001, 0x3003), (0x303D, 0x303D), (0x30FB, 0x30FB), (0xA4FE, 0xA4FF), (0xA60D, 0xA60F),
      (0xA673, 0xA673), (0xA67E, 0xA67E), (0xA6F2, 0xA6F7), (0xA874, 0xA877), (0xA8CE, 0xA8CF),
      (0xA8F8, 0xA8FA), (0xA8FC, 0xA8FC), (0xA92E, 0xA92F), (0xA95F, 0xA95F), (0xA9C1, 0xA9CD),
      (0xA9DE, 0xA9DF), (0xAA5C, 0xAA5F), (0xAADE, 0xAADF), (0xAAF0, 0xAAF1), (0xABEB, 0xABEB),
      (0xFE10, 0xFE16), (0xFE19, 0xFE19), (0xFE30, 0xFE30), (0xFE45, 0xFE46), (0xFE49, 0xFE4C),
      (0xFE50, 0xFE52), (0xFE54, 0xFE57), (0xFE5F, 0xFE61), (0xFE68, 0xFE68), (0xFE6A, 0xFE6B),
      (0xFF01, 0xFF03), (0xFF05, 0xFF07), (0xFF0A, 0xFF0A), (0xFF0C, 0xFF0C), (0xFF0E, 0xFF0F),
      (0xFF1A, 0xFF1B), (0xFF1F, 0xFF20), (0xFF3C, 0xFF3C), (0xFF61, 0xFF61), (0xFF64, 0xFF65),
      (0x10100, 0x10102), (0x1039F, 0x1039F), (0x103D0, 0x103D0), (0x1056F, 0x1056F), (0x10857, 0x10857),
      (0x1091F, 0x1091F), (0x1093F, 0x1093F), (0x10A50, 0x10A58), (0x10A7F, 0x10A7F), (0x10AF0, 0x10AF6),
      (0x10B39, 0x10B3F), (0x10B99, 0x10B9C), (0x10F55, 0x10F59), (0x10F86, 0x10F89), (0x11047, 0x1104D),
      (0x110BB, 0x110BC), (0x110BE, 0x110C1), (0x11140, 0x11143), (0x11174, 0x11175), (0x111C5, 0x111C8),
      (0x111CD, 0x111CD), (0x111DB, 0x111DB), (0x111DD, 0x111DF), (0x11238, 0x1123D), (0x112A9, 0x112A9),
      (0x1144B, 0x1144F), (0x1145A, 0x1145B), (0x1145D, 0x1145D), (0x114C6, 0x114C6), (0x115C1, 0x115D7),
      (0x11641, 0x11643), (0x11660, 0x1166C), (0x116B9, 0x116B9), (0x1173C, 0x1173E), (0x1183B, 0x1183B),
      (0x11944, 0x11946), (0x119E2, 0x119E2), (0x11A3F, 0x11A46), (0x11A9A, 0x11A9C), (0x11A9E, 0x11AA2),
      (0x11B00, 0x11B09), (0x11C41, 0x11C45), (0x11C70, 0x11C71), (0x11EF7, 0x11EF8), (0x11F43, 0x11F4F),
      (0x11FFF, 0x11FFF), (0x12470, 0x12474), (0x12FF1, 0x12FF2), (0x16A6E, 0x16A6F), (0x16AF5, 0x16AF5),
      (0x16B37, 0x16B3B), (0x16B44, 0x16B44), (0x16E97, 0x16E9A), (0x16FE2, 0x16FE2), (0x1BC9F, 0x1BC9F),
      (0x1DA87, 0x1DA8B), (0x1E95E, 0x1E95F)]"

definition is_po :: "nat \<Rightarrow> bool" where
  "is_po r = (\<exists>(lo, hi) \<in> set po_ranges. lo \<le> r \<and> r \<le> hi)"

subsection \<open>Sentence boundaries\<close>

definition sentenceEnders :: "char list" where
  "sentenceEnders = [CHR ''.'', CHR ''?'', CHR ''!'', CHR 0x0A]"

definition containsSentenceEnd :: "string \<Rightarrow> bool" where
  "containsSentenceEnd s = (contains_any s sentenceEnders \<or> (\<exists>r \<in> set (runes s). is_po r))"

subsection \<open>Similarity of utterances\<close>

definition tokenSet :: "string \<Rightarrow> string set" where
  "tokenSet s = set (fields (ToLower s))"

definition jaccard :: "string \<Rightarrow> string \<Rightarrow> rat" where
  "jaccard a b =
     (let sa = tokenSet a; sb = tokenSet b in
      if card sa = 0 \<and> card sb = 0 then 1
      else
        (let inter = card (sa \<inter> sb); union = int (card sa) + int (card sb) - int inter in
         if union = 0 then 1 else fl (of_int (int inter) / of_int union)))"

definition similarityThreshold :: rat where
  "similarityThreshold = fl (9 / 10)"

definition duplicate :: "string \<Rightarrow> string \<Rightarrow> bool" where
  "duplicate a b = (similarityThreshold \<le> jaccard a b)"



text \<open>The number of tokens is bounded by the length of the text.\<close>

lemma length_fields_acc: "length (fields_acc acc s) \<le> length s + (if acc = [] then 0 else 1)"
proof (induction acc s rule: fields_acc.induct)
  case (2 acc c cs)
  then show ?case
  proof (cases "find (\<lambda>w. has_prefix (c # cs) w) white_space")
    case (Some w)
    from 2(2)[OF this] show ?thesis by (auto simp: Some)
  qed auto
qed simp

lemma length_encode_rune: "length (encode_rune r) \<le> 4"
  by (simp add: encode_rune_def)

lemma length_runes: "length (runes s) \<le> length s"
proof (induction s rule: runes.induct)
  case (2 c cs)
  then show ?case
  proof (cases "utf8_width (c # cs)")
    case (Suc n)
    from 2(2)[OF Suc] show ?thesis by (simp add: Suc)
  qed auto
qed simp

lemma length_ToLower: "length (ToLower s) \<le> 4 * length s"
proof -
  have "length (concat (map f rs)) \<le> 4 * length rs" if "\<And>r. length (f r) \<le> 4" for f :: "nat \<Rightarrow> string" and rs
    using that by (induction rs) (auto intro: add_mono)
  then have "length (ToLower s) \<le> 4 * length (runes s)" by (simp add: ToLower_def length_encode_rune)
  then show ?thesis using length_runes[of s] by linarith
qed

lemma card_tokenSet: "card (tokenSet s) \<le> 4 * length s"
proof -
  have "card (tokenSet s) \<le> length (fields (ToLower s))" by (simp add: tokenSet_def card_length)
  also have "\<dots> \<le> length (ToLower s)" using length_fields_acc[of "[]" "ToLower s"] by (simp add: fields_def)
  finally show ?thesis using length_ToLower[of s] by linarith
qed

lemma finite_tokenSet [simp]: "finite (tokenSet s)"
  by (simp add: tokenSet_def)

text \<open>The score is the rounded quotient of the intersection and the union.\<close>

lemma jaccard_alt:
  "jaccard a b =
     (if tokenSet a \<union> tokenSet b = {} then 1
      else fl (of_nat (card (tokenSet a \<inter> tokenSet b)) / of_nat (card (tokenSet a \<union> tokenSet b))))"
proof -
  let ?a = "tokenSet a" and ?b = "tokenSet b"
  have u: "int (card ?a) + int (card ?b) - int (card (?a \<inter> ?b)) = int (card (?a \<union> ?b))"
    using card_Un_Int[of ?a ?b] by simp
  show ?thesis
  proof (cases "?a \<union> ?b = {}")
    case False
    then have nz: "(int (card (?a \<union> ?b)) = 0) = False" "(card ?a = 0 \<and> card ?b = 0) = False" "(?a \<union> ?b = {}) = False"
      by auto
    show ?thesis unfolding jaccard_def Let_def u nz if_False of_int_of_nat_eq ..
  qed (auto simp: jaccard_def)
qed

lemma jaccard_commute: "jaccard a b = jaccard b a"
  by (simp add: jaccard_alt Un_commute Int_commute)

lemma jaccard_same [simp]: "jaccard a a = 1"
  using fl_int[of 1] by (simp add: jaccard_alt)

lemma quotient_le_one: "card (A \<inter> B) \<le> card (A \<union> B)" if "finite A" "finite B" for A B :: "'a set"
  using that by (intro card_mono) auto

lemma jaccard_range: "0 \<le> jaccard a b \<and> jaccard a b \<le> 1"
proof (cases "tokenSet a \<union> tokenSet b = {}")
  case False
  let ?i = "card (tokenSet a \<inter> tokenSet b)" and ?u = "card (tokenSet a \<union> tokenSet b)"
  have "(of_nat ?i :: rat) \<le> of_nat ?u" using quotient_le_one[of "tokenSet a" "tokenSet b"] by simp
  then have "of_nat ?i / of_nat ?u \<le> (1 :: rat)" by (simp add: divide_le_eq)
  then show ?thesis using False fl_mono[of "of_nat ?i / of_nat ?u" 1] fl_int[of 1] fl_nonneg by (simp add: jaccard_alt)
qed (simp add: jaccard_alt)

lemma fl_strict:
  assumes "0 \<le> x" and "x + 1 / 2 ^ 50 \<le> y" and "y \<le> 1"
  shows "fl x < fl y"
proof -
  have "min_normal \<le> 2 powi (- 52)" by (simp add: min_normal_def powi_mono_iff)
  then have mn: "min_normal \<le> 1 / 2 ^ 52" by (simp add: power_int_def field_simps)
  also have "\<dots> \<le> 1 / 2 ^ 50" by (intro divide_left_mono) simp_all
  finally have y: "min_normal \<le> y" using assms(1,2) by linarith
  have upper: "fl x \<le> x + 1 / 2 ^ 52"
  proof (cases "min_normal \<le> x")
    case True
    then have "fl x \<le> x + x / 2 ^ 53" using fl.relative[of x] by linarith
    then show ?thesis using assms by simp
  next
    case False
    then have "fl x \<le> fl min_normal" by (intro fl_mono) simp
    also have "\<dots> = min_normal" using fl_exact[of 1 "- 1022"] by (simp add: min_normal_def)
    also have "\<dots> \<le> 1 / 2 ^ 52" by (rule mn)
    finally show ?thesis using assms(1) by simp
  qed
  have "y - y / 2 ^ 53 \<le> fl y" using fl.relative[OF y] by linarith
  then have "y - 1 / 2 ^ 53 \<le> fl y" using assms(3) by simp
  then show ?thesis using upper assms(2) by simp
qed

text \<open>
  C37: A turn counts as a repetition exactly when at least nine tenths of the tokens of the two
  utterances together occur in both, for utterances of any length below 2^35 bytes of which at least
  one holds a token: rounding the quotient and the threshold to doubles never changes the decision.
  (On two blank utterances code and comment disagree: lemma \<open>blank_similarity\<close>.)
\<close>

theorem duplicate_exact:
  assumes "length a + length b < 2 ^ 35" and "tokenSet a \<noteq> {} \<or> tokenSet b \<noteq> {}"
  shows "duplicate a b \<longleftrightarrow>
    9 * card (tokenSet a \<union> tokenSet b) \<le> 10 * card (tokenSet a \<inter> tokenSet b)"
proof -
  have False: "tokenSet a \<union> tokenSet b \<noteq> {}" using assms(2) by blast
  define i u where "i = card (tokenSet a \<inter> tokenSet b)" and "u = card (tokenSet a \<union> tokenSet b)"
  have u0: "0 < u" using False by (simp add: u_def card_gt_0_iff)
  have "u \<le> card (tokenSet a) + card (tokenSet b)" unfolding u_def by (rule card_Un_le)
  then have u1: "u \<le> 2 ^ 37" using card_tokenSet[of a] card_tokenSet[of b] assms(1) by simp
  have dup: "duplicate a b \<longleftrightarrow> fl (9 / 10) \<le> fl (of_nat i / of_nat u)"
    unfolding duplicate_def similarityThreshold_def jaccard_alt i_def u_def if_not_P[OF False] ..
  have "fl (9 / 10) \<le> fl (of_nat i / of_nat u) \<longleftrightarrow> 9 * u \<le> 10 * i"
  proof
    assume le: "9 * u \<le> 10 * i"
    then have "(of_nat (9 * u) :: rat) \<le> of_nat (10 * i)" by (simp only: of_nat_le_iff)
    then show "fl (9 / 10) \<le> fl (of_nat i / of_nat u)" using u0 by (intro fl_mono) (simp add: field_simps)
  next
    assume le: "fl (9 / 10) \<le> fl (of_nat i / of_nat u)"
    show "9 * u \<le> 10 * i"
    proof (rule ccontr)
      assume "\<not> 9 * u \<le> 10 * i"
      then have "(of_nat (10 * i + 1) :: rat) \<le> of_nat (9 * u)" by (simp only: of_nat_le_iff)
      then have below: "of_nat i / of_nat u + 1 / (10 * of_nat u) \<le> (9 / 10 :: rat)"
        using u0 by (simp add: field_simps)
      moreover have "(1 :: rat) / 2 ^ 50 \<le> 1 / (10 * of_nat u)"
      proof -
        have "(of_nat (10 * u) :: rat) \<le> of_nat (2 ^ 50)" using u1 by (simp only: of_nat_le_iff) simp
        then show ?thesis using u0 by (intro divide_left_mono) simp_all
      qed
      ultimately have "of_nat i / of_nat u + 1 / 2 ^ 50 \<le> (9 / 10 :: rat)"
        by (intro order_trans[OF add_left_mono below])
      then have "fl (of_nat i / of_nat u) < fl (9 / 10)" by (intro fl_strict) simp_all
      with le show False by simp
    qed
  qed
  then show ?thesis by (simp add: dup i_def u_def)
qed

lemma lower_ranges_start: "\<forall>(lo, hi, rest) \<in> set lower_ranges. 0xC0 \<le> lo \<or> lo = 0x41 \<and> hi = 0x5A"
  by (simp add: lower_ranges_def)

lemma lower_rune_ascii:
  assumes "c < 0x41 \<or> 0x5A < c \<and> c < 0xC0"
  shows "lower_rune c = c"
proof -
  have "\<not> (\<exists>x. x \<in> set lower_ranges \<and> (case x of (lo, hi, stride, d) \<Rightarrow> lo \<le> c \<and> c \<le> hi \<and> (c - lo) mod stride = 0))"
    using lower_ranges_start assms by fastforce
  then show ?thesis by (simp add: lower_rune_def find_None_iff[THEN iffD2])
qed

lemma encode_byte: "r < 0x80 \<Longrightarrow> encode_rune r = [byte r]"
  by (simp add: encode_rune_def)

lemma runes_ascii: "of_char c < (128::nat) \<Longrightarrow> runes (c # cs) = of_char c # runes cs"
  by (simp add: utf8_width.simps utf8_ranges_def byte_in_def)

lemma lower_ascii:
  "of_char c < (128::nat) \<Longrightarrow> of_char c < (0x41::nat) \<or> 0x5A < (of_char c :: nat) \<Longrightarrow> ToLower (c # cs) = c # ToLower cs"
  by (simp add: ToLower_def runes_ascii lower_rune_ascii encode_byte byte_def del: runes.simps(2))

lemma fields_plain:
  assumes "c \<notin> hd ` set white_space"
  shows "fields_acc acc (c # cs) = fields_acc (c # acc) cs"
proof -
  have "\<not> (\<exists>w. w \<in> set white_space \<and> has_prefix (c # cs) w)"
  proof clarify
    fix w assume w: "w \<in> set white_space" and p: "has_prefix (c # cs) w"
    have "w \<noteq> []" using w by (auto simp: white_space_def)
    with p have "hd w = c" by (cases w) auto
    with w assms show False by blast
  qed
  then show ?thesis by (simp add: find_None_iff[THEN iffD2])
qed

lemma demo_lower: "ToLower ''yes no'' = ''yes no''" "ToLower ''yes'' = ''yes''"
  by (simp_all add: lower_ascii) (simp_all add: ToLower_def)

lemma demo_tokens: "tokenSet ''yes no'' = {''yes'', ''no''}" "tokenSet ''yes'' = {''yes''}"
  by (simp_all add: tokenSet_def demo_lower fields_def fields_plain white_space_def del: fields_acc.simps(2))
    (simp_all add: white_space_def fields_plain)

theorem duplicate_exact_witness:
  "\<not> duplicate ''yes no'' ''yes'' \<and> duplicate ''yes'' ''yes''"
  using duplicate_exact[of "''yes no''" "''yes''"] duplicate_exact[of "''yes''" "''yes''"] by (simp add: demo_tokens)

text \<open>Every mark of the category Po counts as a sentence end, the comma and the apostrophe included.\<close>

lemma comma_ends_sentence: "containsSentenceEnd '','' \<and> containsSentenceEnd [CHR 0x27]"
  by (simp add: containsSentenceEnd_def runes_ascii is_po_def po_ranges_def del: runes.simps(2))

text \<open>Two blank utterances have similarity 1, where the comment on \<open>jaccard\<close> announces 0.\<close>

lemma blank_similarity: "jaccard '''' '''' = 1"
  by simp

text \<open>A turn with a word in it never repeats the blank \<open>lastUserText\<close> of the start.\<close>

lemma not_duplicate_blank: "tokenSet t \<noteq> {} \<Longrightarrow> \<not> duplicate t ''''"
proof -
  assume t: "tokenSet t \<noteq> {}"
  have b: "tokenSet '''' = {}" by (simp add: tokenSet_def ToLower_def fields_def)
  have "jaccard t '''' = fl 0" using t by (simp add: jaccard_alt b)
  moreover have "fl 0 < fl (9 / 10)" by (rule fl_strict) simp_all
  ultimately show ?thesis by (simp add: duplicate_def similarityThreshold_def)
qed

lemma duplicate_refl [simp]: "duplicate t t"
proof -
  have "fl (9 / 10) \<le> fl 1" by (rule fl_mono) simp
  then show ?thesis using fl_int[of 1] by (simp add: duplicate_def similarityThreshold_def)
qed

end
