(* ===== verification/Cascade.thy ===== *)
theory Cascade
  imports Cascadetext Model Audio "HOL-Library.Multiset"
begin

text \<open>
  The cascade (\<open>internal/model/cascade\<close>): a chain of recogniser, language model and speech synthesis
  behind the model seam.  The single orchestration goroutine \<open>run\<close> owns the history and the state of
  the turn; one goroutine \<open>respond\<close> per generation streams the reply through the synthesis.  The state
  below holds what they share; one event is one case of the loop of \<open>run\<close>, or one step of a
  generation, of a turn-end timer, or of a caller.

  The three stages, the turn detector and the clock are parameters: their results are arguments of
  the events.  \<open>transcriptCh\<close> is the sequence of lines emitted, without its capacity.
\<close>

subsection \<open>Messages and recognition events\<close>

record message =
  ms_Role :: string
  ms_Text :: string

datatype asr_kind = ASRPartial | ASRFinal | ASRSpeechStarted

record asr_event =
  ev_Kind :: asr_kind
  ev_Text :: string

abbreviation user_turn :: "string \<Rightarrow> message" where
  "user_turn t \<equiv> \<lparr>ms_Role = ''user'', ms_Text = t\<rparr>"

abbreviation model_turn :: "string \<Rightarrow> message" where
  "model_turn t \<equiv> \<lparr>ms_Role = ''model'', ms_Text = t\<rparr>"

subsection \<open>Turning a reply into speech\<close>

text \<open>
  The \<open>OnLLMToken\<close> seam: \<open>None\<close> is the answer \<open>("", false)\<close>, \<open>Some r\<close> a replacement, the empty one
  included.
\<close>

type_synonym token_hook = "(string \<Rightarrow> string \<Rightarrow> string option) option"

definition spoken_token :: "token_hook \<Rightarrow> string \<Rightarrow> string \<Rightarrow> string" where
  "spoken_token hook delta accumulated =
     (case hook of
        None \<Rightarrow> delta
      | Some f \<Rightarrow> (case f delta accumulated of None \<Rightarrow> delta | Some replacement \<Rightarrow> replacement))"

text \<open>The segmenter of \<open>respond\<close>: the segments for the synthesis, and the complete reply for the history.\<close>

fun segmenter :: "token_hook \<Rightarrow> string \<Rightarrow> string \<Rightarrow> string list \<Rightarrow> string list \<times> string" where
  "segmenter hook full seg [] = (if seg \<noteq> '''' then [seg] else [], full)"
| "segmenter hook full seg (delta # deltas) =
     (let tts = spoken_token hook delta full; full' = full @ delta in
      if tts = '''' then segmenter hook full' seg deltas
      else if containsSentenceEnd tts then
        (let (segs, t) = segmenter hook full' '''' deltas in ((seg @ tts) # segs, t))
      else segmenter hook full' (seg @ tts) deltas)"

text \<open>
  A synthesis stage: \<open>Synthesize\<close>, and \<open>SynthesizeQuick\<close> when the stage implements it; \<open>None\<close> is an
  error, after which the segment is skipped.
\<close>

record tts_stage =
  ts_Synthesize :: "string \<Rightarrow> i16 list list option"
  ts_SynthesizeQuick :: "(string \<Rightarrow> i16 list list option) option"

definition synthesize :: "tts_stage \<Rightarrow> string \<Rightarrow> bool \<Rightarrow> i16 list list" where
  "synthesize tts text quick =
     (let pcmCh = (case ts_SynthesizeQuick tts of
                     Some qs \<Rightarrow> if quick then qs text else ts_Synthesize tts text
                   | None \<Rightarrow> ts_Synthesize tts text) in
      case pcmCh of None \<Rightarrow> [] | Some pcms \<Rightarrow> pcms)"

text \<open>The worker of \<open>respond\<close>: the segments in order, the first one quick.\<close>

fun tts_worker :: "tts_stage \<Rightarrow> bool \<Rightarrow> string list \<Rightarrow> i16 list list" where
  "tts_worker tts quick [] = []"
| "tts_worker tts quick (seg # segs) = synthesize tts seg quick @ tts_worker tts False segs"

definition respond :: "token_hook \<Rightarrow> tts_stage \<Rightarrow> string list \<Rightarrow> i16 list list \<times> string" where
  "respond hook tts deltas =
     (let (segs, full) = segmenter hook '''' '''' deltas in (tts_worker tts True segs, full))"

subsection \<open>The state\<close>

text \<open>
  A generation: the snapshot of the history it answers, the chunks of audio it has still to send
  (\<open>None\<close> before the language model has answered), the deltas of the reply, whether its context
  (\<open>genCtx\<close>) is cancelled and whether \<open>genDone\<close> is closed.
\<close>

record generation =
  gn_history :: "message list"
  gn_registered :: bool
  gn_audio :: "i16 list list option"
  gn_deltas :: "string list"
  gn_cancelled :: bool
  gn_done :: bool

record partial_stab =
  ps_text :: string
  ps_count :: int
  ps_firstSeen :: time

text \<open>
  Where \<open>run\<close> is: in its select, in \<open>bargeIn\<close> waiting for the end of a generation, blocked for ever on
  the send of \<open>scheduleSpeculative\<close>, or returned.
\<close>

datatype run_state = Looping | Barging nat | Blocked | Returned

text \<open>
  \<open>cs_waiting\<close>: the timer of \<open>pendingCancel\<close> is waiting; \<open>cs_fired\<close>: the timers whose pause is over
  and that have not yet signalled; \<open>cs_pending\<close>: \<open>pendingCh\<close>, of capacity 1, holds a signal.
\<close>

record cascade =
  cs_run :: run_state
  cs_closing :: bool
  cs_stagesClosed :: bool
  cs_history :: "message list"
  cs_lastUserText :: string
  cs_speculativeActive :: bool
  cs_partialStab :: partial_stab
  cs_pending :: bool
  cs_waiting :: bool
  cs_fired :: nat
  cs_gens :: "generation list"
  cs_genCancel :: "nat option"
  cs_recvCh :: "i16 list list"
  cs_textIn :: "string list"
  cs_modelTurnCh :: "string list"
  cs_restoreCh :: "message list list"
  cs_transcripts :: "model_transcript list"

definition stab_zero :: partial_stab where
  "stab_zero = \<lparr>ps_text = '''', ps_count = 0, ps_firstSeen = zero_time\<rparr>"

definition cascade_New :: "bool \<Rightarrow> bool \<Rightarrow> bool \<Rightarrow> string \<Rightarrow> go_error + cascade" where
  "cascade_New asr llm tts system =
     (if \<not> asr \<or> \<not> llm \<or> \<not> tts then Inl ''cascade: ASR, LLM and TTS stages are all required''
      else Inr
        \<lparr>cs_run = Looping, cs_closing = False, cs_stagesClosed = False,
         cs_history = (if system \<noteq> '''' then [\<lparr>ms_Role = ''system'', ms_Text = system\<rparr>] else []),
         cs_lastUserText = '''', cs_speculativeActive = False, cs_partialStab = stab_zero,
         cs_pending = False, cs_waiting = False, cs_fired = 0, cs_gens = [], cs_genCancel = None,
         cs_recvCh = [], cs_textIn = [], cs_modelTurnCh = [], cs_restoreCh = [], cs_transcripts = []\<rparr>)"

subsection \<open>The operations of the orchestration goroutine\<close>

definition cascade_emitTranscript :: "string \<Rightarrow> string \<Rightarrow> cascade \<Rightarrow> cascade" where
  "cascade_emitTranscript role t s = s\<lparr>cs_transcripts := cs_transcripts s @ [\<lparr>tr_Role = role, tr_Text = t\<rparr>]\<rparr>"

definition add_turn :: "message \<Rightarrow> cascade \<Rightarrow> cascade" where
  "add_turn m s = s\<lparr>cs_history := cs_history s @ [m]\<rparr>"

text \<open>\<open>startRespond\<close>: the new goroutine has a snapshot of the history and is not registered yet.\<close>

definition startRespond :: "cascade \<Rightarrow> cascade" where
  "startRespond s =
     s\<lparr>cs_gens := cs_gens s @
        [\<lparr>gn_history = cs_history s, gn_registered = False, gn_audio = None, gn_deltas = [],
          gn_cancelled = False, gn_done = False\<rparr>]\<rparr>"

definition cancelPending :: "cascade \<Rightarrow> cascade" where
  "cancelPending s = s\<lparr>cs_waiting := False, cs_pending := False\<rparr>"

definition schedulePending :: "cascade \<Rightarrow> cascade" where
  "schedulePending s = (cancelPending s)\<lparr>cs_waiting := True\<rparr>"

text \<open>
  \<open>scheduleSpeculative\<close> drains the channel and sends to it.  When a timer whose pause is over signals
  between the two (\<open>race\<close>), the send blocks: only \<open>run\<close> itself receives from the channel.
\<close>

definition scheduleSpeculative :: "bool \<Rightarrow> cascade \<Rightarrow> cascade" where
  "scheduleSpeculative race s =
     (let s' = s\<lparr>cs_pending := False\<rparr> in
      if race \<and> 0 < cs_fired s' then s'\<lparr>cs_fired := cs_fired s' - 1, cs_pending := True, cs_run := Blocked\<rparr>
      else s'\<lparr>cs_pending := True\<rparr>)"

definition removeSpeculative :: "cascade \<Rightarrow> cascade" where
  "removeSpeculative s =
     (let s' = (if cs_speculativeActive s \<and> 0 < length (cs_history s)
                then s\<lparr>cs_history := butlast (cs_history s)\<rparr> else s) in
      s'\<lparr>cs_speculativeActive := False\<rparr>)"

definition stabWindow :: duration where
  "stabWindow = 200 * millisecond"

definition stabTrigger :: int where
  "stabTrigger = 3"

definition isPotentialSentence :: "time \<Rightarrow> string \<Rightarrow> cascade \<Rightarrow> bool \<times> cascade" where
  "isPotentialSentence now t s =
     (if \<not> contains_any t sentenceEnders then (False, s\<lparr>cs_partialStab := stab_zero\<rparr>)
      else
        (let p = cs_partialStab s;
             p' = (if t = ps_text p \<and> now - ps_firstSeen p \<le> stabWindow then p\<lparr>ps_count := ps_count p + 1\<rparr>
                   else \<lparr>ps_text = t, ps_count = 1, ps_firstSeen = now\<rparr>) in
         (stabTrigger \<le> ps_count p', s\<lparr>cs_partialStab := p'\<rparr>)))"

definition upd_gen :: "nat \<Rightarrow> (generation \<Rightarrow> generation) \<Rightarrow> cascade \<Rightarrow> cascade" where
  "upd_gen i f s = s\<lparr>cs_gens := (cs_gens s)[i := f (cs_gens s ! i)]\<rparr>"

text \<open>\<open>bargeIn\<close> cancels the registered generation and waits for it; \<open>barge_drain\<close> empties \<open>recvCh\<close>.\<close>

definition barge_drain :: "cascade \<Rightarrow> cascade" where
  "barge_drain s = s\<lparr>cs_recvCh := [], cs_run := Looping\<rparr>"

definition bargeIn :: "cascade \<Rightarrow> cascade" where
  "bargeIn s =
     (case cs_genCancel s of
        None \<Rightarrow> barge_drain s
      | Some i \<Rightarrow> (upd_gen i (\<lambda>g. g\<lparr>gn_cancelled := True\<rparr>) s)\<lparr>cs_run := Barging i\<rparr>)"

definition cascade_handleASR :: "time \<Rightarrow> bool \<Rightarrow> asr_event \<Rightarrow> string \<Rightarrow> cascade \<Rightarrow> string \<times> cascade" where
  "cascade_handleASR now race ev lastUserText s =
     (case ev_Kind ev of
        ASRPartial \<Rightarrow>
          (let s1 = removeSpeculative (cancelPending (cascade_emitTranscript ''user'' (ev_Text ev) s));
               (complete, s2) = isPotentialSentence now (ev_Text ev) s1 in
           if complete
           then (lastUserText,
                 scheduleSpeculative race ((add_turn (user_turn (ev_Text ev)) s2)\<lparr>cs_speculativeActive := True\<rparr>))
           else (lastUserText, s2))
      | ASRSpeechStarted \<Rightarrow> (lastUserText, bargeIn (removeSpeculative (cancelPending s)))
      | ASRFinal \<Rightarrow>
          (if duplicate (ev_Text ev) lastUserText then (lastUserText, removeSpeculative s)
           else
             (let s1 = cancelPending s in
              if cs_speculativeActive s1 \<and> duplicate (ev_Text ev) (ms_Text (last (cs_history s1)))
              then (ev_Text ev,
                    s1\<lparr>cs_history := butlast (cs_history s1) @ [(last (cs_history s1))\<lparr>ms_Text := ev_Text ev\<rparr>],
                       cs_speculativeActive := False\<rparr>)
              else
                (let s2 = (if cs_speculativeActive s1 then removeSpeculative s1 else s1) in
                 (ev_Text ev,
                  schedulePending (cascade_emitTranscript ''user'' (ev_Text ev) (add_turn (user_turn (ev_Text ev)) s2)))))))"

subsection \<open>One case of the loop\<close>

definition run_asr :: "time \<Rightarrow> bool \<Rightarrow> asr_event \<Rightarrow> cascade \<Rightarrow> cascade" where
  "run_asr now race ev s =
     (let (last', s') = cascade_handleASR now race ev (cs_lastUserText s) s in s'\<lparr>cs_lastUserText := last'\<rparr>)"

definition run_pending :: "cascade \<Rightarrow> cascade" where
  "run_pending s = (if cs_pending s then startRespond (s\<lparr>cs_pending := False\<rparr>) else s)"

definition run_restore :: "cascade \<Rightarrow> cascade" where
  "run_restore s =
     (case cs_restoreCh s of
        [] \<Rightarrow> s
      | msgs # rest \<Rightarrow> s\<lparr>cs_restoreCh := rest, cs_history := cs_history s @ msgs\<rparr>)"

definition run_text :: "cascade \<Rightarrow> cascade" where
  "run_text s =
     (case cs_textIn s of
        [] \<Rightarrow> s
      | t # rest \<Rightarrow>
          (let s1 = s\<lparr>cs_textIn := rest\<rparr> in
           if duplicate t (cs_lastUserText s1) then s1
           else startRespond (cascade_emitTranscript ''user'' t (add_turn (user_turn t) (s1\<lparr>cs_lastUserText := t\<rparr>)))))"

definition run_model :: "cascade \<Rightarrow> cascade" where
  "run_model s =
     (case cs_modelTurnCh s of
        [] \<Rightarrow> s
      | t # rest \<Rightarrow> cascade_emitTranscript ''model'' t (add_turn (model_turn t) (s\<lparr>cs_modelTurnCh := rest\<rparr>)))"

subsection \<open>The steps of a generation\<close>

record cascade_env =
  ce_hook :: token_hook
  ce_tts :: tts_stage

definition live_gen :: "nat \<Rightarrow> cascade \<Rightarrow> bool" where
  "live_gen i s = (i < length (cs_gens s) \<and> gn_registered (cs_gens s ! i) \<and> \<not> gn_done (cs_gens s ! i))"

definition setGenCancel :: "nat \<Rightarrow> cascade \<Rightarrow> cascade" where
  "setGenCancel i s =
     (if i < length (cs_gens s) \<and> \<not> gn_registered (cs_gens s ! i)
      then (upd_gen i (\<lambda>g. g\<lparr>gn_registered := True\<rparr>) s)\<lparr>cs_genCancel := Some i\<rparr> else s)"

text \<open>The answer of \<open>Generate\<close>: an error ends the goroutine, deltas fix what there is to say.\<close>

definition gen_reply :: "cascade_env \<Rightarrow> nat \<Rightarrow> string list option \<Rightarrow> cascade \<Rightarrow> cascade" where
  "gen_reply env i res s =
     (if live_gen i s \<and> gn_audio (cs_gens s ! i) = None
      then (case res of
              None \<Rightarrow> upd_gen i (\<lambda>g. g\<lparr>gn_done := True\<rparr>) s
            | Some deltas \<Rightarrow>
                upd_gen i (\<lambda>g. g\<lparr>gn_audio := Some (fst (respond (ce_hook env) (ce_tts env) deltas)),
                                gn_deltas := deltas\<rparr>) s)
      else s)"

definition recvCap :: nat where "recvCap = 64"
definition turnCap :: nat where "turnCap = 8"

text \<open>One chunk for \<open>recvCh\<close>; a cancelled generation may still choose the send while there is room.\<close>

definition gen_audio :: "nat \<Rightarrow> cascade \<Rightarrow> cascade" where
  "gen_audio i s =
     (if live_gen i s \<and> length (cs_recvCh s) < recvCap
      then (case gn_audio (cs_gens s ! i) of
              Some (pcm # rest) \<Rightarrow>
                (upd_gen i (\<lambda>g. g\<lparr>gn_audio := Some rest\<rparr>) s)\<lparr>cs_recvCh := cs_recvCh s @ [pcm]\<rparr>
            | _ \<Rightarrow> s)
      else s)"

text \<open>
  The end of a generation.  It comes after the last chunk, or early once the context is cancelled;
  then only the first \<open>k\<close> deltas were read.  What was read goes to \<open>modelTurnCh\<close>, which needs room
  there; when the whole cascade is closing it may be dropped.
\<close>

definition gen_finish :: "nat \<Rightarrow> nat \<Rightarrow> bool \<Rightarrow> cascade \<Rightarrow> cascade" where
  "gen_finish i k dropped s =
     (let g = cs_gens s ! i; cancelled = gn_cancelled g \<or> cs_closing s;
          text = concat (if cancelled then take k (gn_deltas g) else gn_deltas g);
          finished = upd_gen i (\<lambda>g. g\<lparr>gn_done := True\<rparr>) s in
      if live_gen i s \<and> gn_audio g \<noteq> None \<and> (cancelled \<or> gn_audio g = Some []) then
        (if text = '''' \<or> dropped \<and> cs_closing s then finished
         else if length (cs_modelTurnCh s) < turnCap
         then finished\<lparr>cs_modelTurnCh := cs_modelTurnCh s @ [text]\<rparr>
         else s)
      else s)"

subsection \<open>The callers\<close>

text \<open>\<open>None\<close>: the call blocks; \<open>ctx\<close> chooses \<open>ctx.Done\<close> when the cascade is closing.\<close>

definition cascade_SendText :: "bool \<Rightarrow> string \<Rightarrow> cascade \<Rightarrow> (go_error option \<times> cascade) option" where
  "cascade_SendText ctx t s =
     (if cs_closing s \<and> ctx then Some (Some ''EOF'', s)
      else if length (cs_textIn s) < turnCap then Some (None, s\<lparr>cs_textIn := cs_textIn s @ [t]\<rparr>)
      else None)"

definition restored_messages :: "restored_turn list \<Rightarrow> message list" where
  "restored_messages turns =
     map (\<lambda>t. \<lparr>ms_Role = rt_Role t, ms_Text = rt_Text t\<rparr>)
       (filter (\<lambda>t. rt_Role t = ''user'' \<or> rt_Role t = ''model'') turns)"

definition cascade_RestoreContext :: "bool \<Rightarrow> restored_turn list \<Rightarrow> cascade \<Rightarrow> (go_error option \<times> cascade) option" where
  "cascade_RestoreContext ctx turns s =
     (let msgs = restored_messages turns in
      if turns = [] then Some (None, s)
      else if msgs = [] then Some (None, s)
      else if cs_closing s \<and> ctx then Some (Some ''EOF'', s)
      else if length (cs_restoreCh s) < 1 then Some (None, s\<lparr>cs_restoreCh := cs_restoreCh s @ [msgs]\<rparr>)
      else None)"

definition caller :: "(go_error option \<times> cascade) option \<Rightarrow> cascade \<Rightarrow> cascade" where
  "caller res s = (case res of None \<Rightarrow> s | Some (_, s') \<Rightarrow> s')"

subsection \<open>The machine\<close>

datatype cascade_event =
  AsrEvent time bool asr_event
| AsrClosed
| PendingSignal
| RestoreTurns
| TypedTurn
| ModelTurn
| CtxDone
| Drained
| TimerElapses
| TimerSignals
| TimerCancelled
| GenRegister nat
| GenReply nat "string list option"
| GenAudio nat
| GenFinish nat nat bool
| SendTyped string
| RestoreCall "restored_turn list"
| RecvAudio
| CloseBegin
| CloseEnd

text \<open>The cases of the select of \<open>run\<close>, taken when it is in its loop.\<close>

definition loop_case :: "cascade_event \<Rightarrow> cascade \<Rightarrow> cascade" where
  "loop_case e s =
     (case e of
        AsrEvent now race ev \<Rightarrow> run_asr now race ev s
      | AsrClosed \<Rightarrow> s\<lparr>cs_run := Returned\<rparr>
      | PendingSignal \<Rightarrow> run_pending s
      | RestoreTurns \<Rightarrow> run_restore s
      | TypedTurn \<Rightarrow> run_text s
      | ModelTurn \<Rightarrow> run_model s
      | CtxDone \<Rightarrow> (if cs_closing s then s\<lparr>cs_run := Returned\<rparr> else s)
      | _ \<Rightarrow> s)"

fun cascade_step :: "cascade_env \<Rightarrow> cascade \<Rightarrow> cascade_event \<Rightarrow> cascade" where
  "cascade_step env s Drained =
     (case cs_run s of Barging i \<Rightarrow> (if gn_done (cs_gens s ! i) then barge_drain s else s) | _ \<Rightarrow> s)"
| "cascade_step env s TimerElapses =
     (if cs_waiting s then s\<lparr>cs_waiting := False, cs_fired := cs_fired s + 1\<rparr> else s)"
| "cascade_step env s TimerSignals =
     (if 0 < cs_fired s then s\<lparr>cs_fired := cs_fired s - 1, cs_pending := True\<rparr> else s)"
| "cascade_step env s TimerCancelled = (if cs_closing s then s\<lparr>cs_waiting := False\<rparr> else s)"
| "cascade_step env s (GenRegister i) = setGenCancel i s"
| "cascade_step env s (GenReply i res) = gen_reply env i res s"
| "cascade_step env s (GenAudio i) = gen_audio i s"
| "cascade_step env s (GenFinish i k dropped) = gen_finish i k dropped s"
| "cascade_step env s (SendTyped t) = caller (cascade_SendText False t s) s"
| "cascade_step env s (RestoreCall turns) = caller (cascade_RestoreContext False turns s) s"
| "cascade_step env s RecvAudio = s\<lparr>cs_recvCh := tl (cs_recvCh s)\<rparr>"
| "cascade_step env s CloseBegin = s\<lparr>cs_closing := True\<rparr>"
| "cascade_step env s CloseEnd =
     (if cs_closing s \<and> cs_run s = Returned \<and> (\<forall>g \<in> set (cs_gens s). gn_done g) \<and> \<not> cs_waiting s \<and> cs_fired s = 0
      then s\<lparr>cs_stagesClosed := True\<rparr> else s)"
| "cascade_step env s e = (if cs_run s = Looping then loop_case e s else s)"

subsection \<open>The history\<close>

text \<open>
  The history extends \<open>h\<close>; while a speculative turn is open there is at least one entry beyond \<open>h\<close>, so
  \<open>removeSpeculative\<close> and the confirmation by a final never reach into it, and the code's
  \<open>c.history[len(c.history)-1]\<close> is in range.
\<close>

definition keeps :: "message list \<Rightarrow> cascade \<Rightarrow> bool" where
  "keeps h s \<longleftrightarrow> (\<exists>t. cs_history s = h @ t \<and> (cs_speculativeActive s \<longrightarrow> t \<noteq> []))"

lemmas small_steps = cascade_emitTranscript_def add_turn_def startRespond_def cancelPending_def schedulePending_def
  scheduleSpeculative_def upd_gen_def barge_drain_def bargeIn_def Let_def

lemmas gen_steps = setGenCancel_def gen_reply_def gen_audio_def gen_finish_def cascade_SendText_def
  cascade_RestoreContext_def caller_def Let_def upd_gen_def

lemma small_history [simp]:
  "cs_history (cascade_emitTranscript r t s) = cs_history s"
  "cs_history (add_turn m s) = cs_history s @ [m]"
  "cs_history (startRespond s) = cs_history s"
  "cs_history (cancelPending s) = cs_history s"
  "cs_history (schedulePending s) = cs_history s"
  "cs_history (scheduleSpeculative race s) = cs_history s"
  "cs_history (snd (isPotentialSentence now t s)) = cs_history s"
  "cs_history (bargeIn s) = cs_history s"
  by (simp_all add: small_steps isPotentialSentence_def split: option.split)

lemma small_spec [simp]:
  "cs_speculativeActive (cascade_emitTranscript r t s) = cs_speculativeActive s"
  "cs_speculativeActive (add_turn m s) = cs_speculativeActive s"
  "cs_speculativeActive (startRespond s) = cs_speculativeActive s"
  "cs_speculativeActive (cancelPending s) = cs_speculativeActive s"
  "cs_speculativeActive (schedulePending s) = cs_speculativeActive s"
  "cs_speculativeActive (scheduleSpeculative race s) = cs_speculativeActive s"
  "cs_speculativeActive (snd (isPotentialSentence now t s)) = cs_speculativeActive s"
  "cs_speculativeActive (bargeIn s) = cs_speculativeActive s"
  "\<not> cs_speculativeActive (removeSpeculative s)"
  by (simp_all add: small_steps isPotentialSentence_def removeSpeculative_def split: option.split)

lemma small_last [simp]:
  "cs_lastUserText (cascade_emitTranscript r t s) = cs_lastUserText s"
  "cs_lastUserText (add_turn m s) = cs_lastUserText s"
  "cs_lastUserText (startRespond s) = cs_lastUserText s"
  "cs_lastUserText (cancelPending s) = cs_lastUserText s"
  by (simp_all add: small_steps)

lemma removed_history [simp]:
  "cs_history (removeSpeculative s) =
     (if cs_speculativeActive s then butlast (cs_history s) else cs_history s)"
  by (simp add: removeSpeculative_def Let_def)

lemma partial_result:
  "cascade_handleASR now race \<lparr>ev_Kind = ASRPartial, ev_Text = t\<rparr> l s =
     (let s1 = removeSpeculative (cancelPending (cascade_emitTranscript ''user'' t s));
          s2 = snd (isPotentialSentence now t s1) in
      (l, if fst (isPotentialSentence now t s1)
          then scheduleSpeculative race ((add_turn (user_turn t) s2)\<lparr>cs_speculativeActive := True\<rparr>) else s2))"
  by (simp add: cascade_handleASR_def Let_def split: prod.split)

text \<open>The events that are not a case of the loop touch neither the history nor the recognition.\<close>

fun of_loop :: "cascade_event \<Rightarrow> bool" where
  "of_loop (AsrEvent now race ev) = True"
| "of_loop AsrClosed = True"
| "of_loop PendingSignal = True"
| "of_loop RestoreTurns = True"
| "of_loop TypedTurn = True"
| "of_loop ModelTurn = True"
| "of_loop CtxDone = True"
| "of_loop e = False"

lemma loop_step: "of_loop e \<Longrightarrow> cascade_step env s e = (if cs_run s = Looping then loop_case e s else s)"
  by (cases e) simp_all

lemma other_steps [simp]:
  assumes "\<not> of_loop e"
  shows "cs_history (cascade_step env s e) = cs_history s"
    and "cs_speculativeActive (cascade_step env s e) = cs_speculativeActive s"
    and "cs_lastUserText (cascade_step env s e) = cs_lastUserText s"
  using assms by (cases e; simp add: gen_steps barge_drain_def split: option.split list.split run_state.split)+

lemma keeps_extend: "keeps h s \<Longrightarrow> cs_history s' = cs_history s @ ms \<Longrightarrow>
    (cs_speculativeActive s' \<Longrightarrow> cs_speculativeActive s) \<Longrightarrow> keeps h s'"
  by (auto simp: keeps_def)

lemma keeps_removed: "keeps h s \<Longrightarrow> keeps h (removeSpeculative s)"
  by (auto simp: keeps_def butlast_append)

lemma keeps_asr:
  assumes "keeps h s"
  shows "keeps h (snd (cascade_handleASR now race ev l s))"
proof (cases ev)
  case (fields k t)
  show ?thesis
  proof (cases k)
    case ASRPartial
    let ?s1 = "removeSpeculative (cancelPending (cascade_emitTranscript ''user'' t s))"
    have "keeps h ?s1" using assms by (intro keeps_removed) (simp add: keeps_def)
    then obtain u where u: "cs_history ?s1 = h @ u" by (auto simp: keeps_def)
    show ?thesis unfolding fields ASRPartial partial_result Let_def snd_conv
      using u by (auto simp: keeps_def)
  next
    case ASRSpeechStarted
    then show ?thesis using assms
      by (auto simp: fields cascade_handleASR_def keeps_def butlast_append)
  next
    case ASRFinal
    then show ?thesis using assms
      by (auto simp: fields cascade_handleASR_def Let_def keeps_def butlast_append)
  qed
qed

lemma keeps_loop: "keeps h s \<Longrightarrow> keeps h (loop_case e s)"
proof (cases e)
  case (AsrEvent now race ev)
  assume "keeps h s"
  then have "keeps h (snd (cascade_handleASR now race ev (cs_lastUserText s) s))" by (rule keeps_asr)
  then show ?thesis by (simp add: AsrEvent loop_case_def run_asr_def keeps_def case_prod_beta)
qed (auto simp: keeps_def loop_case_def run_pending_def run_restore_def run_text_def run_model_def Let_def
    split: list.split)

lemma keeps_step: "keeps h s \<Longrightarrow> keeps h (cascade_step env s e)"
proof (cases "of_loop e")
  case True
  assume "keeps h s"
  then show ?thesis by (simp add: loop_step[OF True] keeps_loop)
next
  case False
  assume "keeps h s"
  then show ?thesis using False by (simp add: keeps_def)
qed

interpretation history: machine "cascade_step env" "keeps h" for env h
  by unfold_locales (rule keeps_step)

text \<open>
  C15: Committed turns are immutable.  From a state without an open speculation, whatever the
  recogniser, the callers, the generations and the timers do, the history only grows: the system
  prompt, the restored turns and every turn already committed stay where they are.
\<close>

theorem committed_history_kept:
  assumes "\<not> cs_speculativeActive s"
  shows "\<exists>t. cs_history (run (cascade_step env) s es) = cs_history s @ t"
proof -
  have "keeps (cs_history s) s" using assms by (simp add: keeps_def)
  then have "keeps (cs_history s) (run (cascade_step env) s es)" by (rule history.run_inv)
  then show ?thesis by (auto simp: keeps_def)
qed

definition demo_cascade :: cascade where
  "demo_cascade = projr (cascade_New True True True ''be kind'')"

text \<open>Stages that speak a single silent chunk for every segment, without a token hook.\<close>

definition demo_env :: cascade_env where
  "demo_env = \<lparr>ce_hook = None, ce_tts = \<lparr>ts_Synthesize = (\<lambda>_. Some [[]]), ts_SynthesizeQuick = None\<rparr>\<rparr>"

lemma demo_cascade_fields [simp]:
  "cs_run demo_cascade = Looping" "cs_history demo_cascade = [\<lparr>ms_Role = ''system'', ms_Text = ''be kind''\<rparr>]"
  "\<not> cs_speculativeActive demo_cascade" "cs_textIn demo_cascade = []" "cs_lastUserText demo_cascade = ''''"
  "cs_gens demo_cascade = []" "cs_genCancel demo_cascade = None" "cs_recvCh demo_cascade = []"
  "cs_fired demo_cascade = 0" "\<not> cs_closing demo_cascade" "cs_modelTurnCh demo_cascade = []"
  "\<not> cs_pending demo_cascade" "cs_partialStab demo_cascade = stab_zero" "cs_restoreCh demo_cascade = []"
  "cs_transcripts demo_cascade = []"
  by (simp_all add: demo_cascade_def cascade_New_def)

theorem committed_history_kept_witness:
  "\<exists>t. cs_history (run (cascade_step demo_env) demo_cascade
        [RestoreCall [\<lparr>rt_Role = ''model'', rt_Text = ''hello''\<rparr>], RestoreTurns, SendTyped ''yes'', TypedTurn]) =
      \<lparr>ms_Role = ''system'', ms_Text = ''be kind''\<rparr> # t"
  using committed_history_kept[of demo_cascade demo_env "[RestoreCall [\<lparr>rt_Role = ''model'', rt_Text = ''hello''\<rparr>],
    RestoreTurns, SendTyped ''yes'', TypedTurn]"] by (simp del: run.simps)

text \<open>
  The turns that \<open>run\<close> takes into the history with one event other than a recognition: a reply of the
  model, a typed turn, restored turns.
\<close>

definition turns_by :: "cascade_event \<Rightarrow> cascade \<Rightarrow> message list" where
  "turns_by e s =
     (if cs_run s \<noteq> Looping then []
      else
        (case e of
           ModelTurn \<Rightarrow> map model_turn (take 1 (cs_modelTurnCh s))
         | RestoreTurns \<Rightarrow> concat (take 1 (cs_restoreCh s))
         | TypedTurn \<Rightarrow> map user_turn (filter (\<lambda>t. \<not> duplicate t (cs_lastUserText s)) (take 1 (cs_textIn s)))
         | _ \<Rightarrow> []))"

fun turns_taken :: "cascade_env \<Rightarrow> cascade \<Rightarrow> cascade_event list \<Rightarrow> message list" where
  "turns_taken env s [] = []"
| "turns_taken env s (e # es) = turns_by e s @ turns_taken env (cascade_step env s e) es"

text \<open>
  What may happen between the beginning of an utterance and its final: anything but another final, except
  that no such turn is taken while a speculation is open (lemma \<open>wrong_entry_removed\<close> shows what happens
  then).
\<close>

fun is_final :: "cascade_event \<Rightarrow> bool" where
  "is_final (AsrEvent now race ev) = (ev_Kind ev = ASRFinal)"
| "is_final e = False"

fun undisturbed :: "cascade_env \<Rightarrow> cascade \<Rightarrow> cascade_event list \<Rightarrow> bool" where
  "undisturbed env s [] = True"
| "undisturbed env s (e # es) =
     (\<not> is_final e \<and> (cs_speculativeActive s \<longrightarrow> turns_by e s = []) \<and> undisturbed env (cascade_step env s e) es)"

definition uttering :: "message list \<Rightarrow> cascade \<Rightarrow> bool" where
  "uttering h s \<longleftrightarrow> (if cs_speculativeActive s then \<exists>t. cs_history s = h @ [user_turn t] else cs_history s = h)"

lemma uttering_removed: "uttering h s \<Longrightarrow> cs_history (removeSpeculative s) = h"
  by (auto simp: uttering_def split: if_splits)

lemma uttering_asr:
  assumes "uttering h s" and "ev_Kind ev \<noteq> ASRFinal"
  shows "uttering h (run_asr now race ev s)"
proof (cases ev)
  case (fields k t)
  show ?thesis
  proof (cases k)
    case ASRPartial
    let ?s0 = "cancelPending (cascade_emitTranscript ''user'' t s)"
    let ?s1 = "removeSpeculative ?s0"
    have "uttering h ?s0" using assms(1) by (simp add: uttering_def)
    then have h: "cs_history ?s1 = h" by (rule uttering_removed)
    show ?thesis unfolding fields ASRPartial run_asr_def partial_result Let_def split_conv
      using h by (simp add: uttering_def del: removed_history)
  next
    case ASRSpeechStarted
    let ?s0 = "cancelPending s"
    have "uttering h ?s0" using assms(1) by (simp add: uttering_def)
    then have "cs_history (removeSpeculative ?s0) = h" by (rule uttering_removed)
    then show ?thesis
      by (simp add: ASRSpeechStarted fields run_asr_def cascade_handleASR_def uttering_def del: removed_history)
  qed (use assms(2) fields in simp)
qed

lemma uttering_step:
  assumes "uttering h s" and "\<not> is_final e" and "cs_speculativeActive s \<longrightarrow> turns_by e s = []"
  shows "uttering (h @ turns_by e s) (cascade_step env s e)"
proof (cases "of_loop e \<and> cs_run s = Looping")
  case True
  then show ?thesis
  proof (cases e)
    case (AsrEvent now race ev)
    then show ?thesis using assms uttering_asr[OF assms(1)] True by (simp add: loop_case_def turns_by_def)
  next
    case RestoreTurns
    then show ?thesis using assms True
      by (cases "cs_restoreCh s") (auto simp: loop_case_def turns_by_def run_restore_def uttering_def split: if_splits)
  next
    case TypedTurn
    then show ?thesis using assms True
      by (cases "cs_textIn s") (auto simp: loop_case_def turns_by_def run_text_def uttering_def Let_def split: if_splits)
  next
    case ModelTurn
    then show ?thesis using assms True
      by (cases "cs_modelTurnCh s") (auto simp: loop_case_def turns_by_def run_model_def uttering_def split: if_splits)
  qed (use assms(1) True in \<open>simp_all add: loop_case_def turns_by_def run_pending_def uttering_def\<close>)
next
  case False
  then have "turns_by e s = []" by (cases e) (auto simp: turns_by_def)
  moreover have "uttering h (cascade_step env s e)"
    using assms(1) False loop_step[of e env s] by (cases "of_loop e") (simp_all add: uttering_def)
  ultimately show ?thesis by simp
qed

lemma uttering_run:
  "uttering h s \<Longrightarrow> undisturbed env s es \<Longrightarrow> uttering (h @ turns_taken env s es) (run (cascade_step env) s es)"
proof (induction es arbitrary: s h)
  case (Cons e es)
  then have "uttering (h @ turns_by e s) (cascade_step env s e)" by (intro uttering_step) simp_all
  from Cons.IH[OF this] Cons.prems(2) show ?case by simp
qed simp

text \<open>
  C14: One utterance, one turn.  Whatever happens before the final (captions, stable partials that start a
  speculative generation, repetitions, speech starts, timers, replies, typed and restored turns) as long
  as no reply, typed turn or restored turn is taken while a speculation is open: a final that does not
  repeat the last user turn leaves the history before the utterance, plus the turns taken since, plus
  exactly one user turn with the final text, whether the speculation was confirmed, rejected or never
  made; no speculation is open afterwards.
\<close>

theorem final_commits_one_turn:
  assumes "\<not> cs_speculativeActive s" and "undisturbed env s es"
    and "s' = run (cascade_step env) s es" and "cs_run s' = Looping"
    and "\<not> duplicate t (cs_lastUserText s')"
    and "s'' = cascade_step env s' (AsrEvent now race \<lparr>ev_Kind = ASRFinal, ev_Text = t\<rparr>)"
  shows "cs_history s'' = cs_history s @ turns_taken env s es @ [user_turn t] \<and>
    \<not> cs_speculativeActive s'' \<and> cs_lastUserText s'' = t"
proof -
  have "uttering (cs_history s) s" using assms(1) by (simp add: uttering_def)
  then have u: "uttering (cs_history s @ turns_taken env s es) s'" unfolding assms(3) using assms(2) by (rule uttering_run)
  have s'': "s'' = run_asr now race \<lparr>ev_Kind = ASRFinal, ev_Text = t\<rparr> s'" using assms(4,6) by (simp add: loop_case_def)
  show ?thesis
  proof (cases "cs_speculativeActive s'")
    case True
    then obtain t' where h: "cs_history s' = cs_history s @ turns_taken env s es @ [user_turn t']"
      using u by (auto simp: uttering_def)
    show ?thesis using assms(5) True
      by (simp add: s'' run_asr_def cascade_handleASR_def Let_def h butlast_append)
  next
    case False
    then show ?thesis using u assms(5)
      by (simp add: s'' run_asr_def cascade_handleASR_def uttering_def Let_def)
  qed
qed

abbreviation caption :: "string \<Rightarrow> cascade_event" where
  "caption t \<equiv> AsrEvent 0 False \<lparr>ev_Kind = ASRPartial, ev_Text = t\<rparr>"

abbreviation final :: "string \<Rightarrow> cascade_event" where
  "final t \<equiv> AsrEvent 0 False \<lparr>ev_Kind = ASRFinal, ev_Text = t\<rparr>"

text \<open>A caption that looks complete, by its effect on the fields of the state.\<close>

definition stab_next :: "time \<Rightarrow> string \<Rightarrow> partial_stab \<Rightarrow> partial_stab" where
  "stab_next now t p =
     (if t = ps_text p \<and> now - ps_firstSeen p \<le> stabWindow then p\<lparr>ps_count := ps_count p + 1\<rparr>
      else \<lparr>ps_text = t, ps_count = 1, ps_firstSeen = now\<rparr>)"

lemma caption_step:
  assumes "cs_run s = Looping" and "contains_any t sentenceEnders" and "p = stab_next now t (cs_partialStab s)"
    and "s' = cascade_step env s (AsrEvent now False \<lparr>ev_Kind = ASRPartial, ev_Text = t\<rparr>)"
  shows "cs_run s' = Looping" and "cs_partialStab s' = p"
    and "cs_speculativeActive s' \<longleftrightarrow> stabTrigger \<le> ps_count p" and "cs_pending s' \<longleftrightarrow> stabTrigger \<le> ps_count p"
    and "cs_history s' = cs_history (removeSpeculative s) @ (if stabTrigger \<le> ps_count p then [user_turn t] else [])"
    and "cs_gens s' = cs_gens s" and "cs_lastUserText s' = cs_lastUserText s" and "cs_fired s' = cs_fired s"
    and "cs_transcripts s' = cs_transcripts s @ [\<lparr>tr_Role = ''user'', tr_Text = t\<rparr>]"
proof -
  let ?s1 = "removeSpeculative (cancelPending (cascade_emitTranscript ''user'' t s))"
  have st: "cs_partialStab ?s1 = cs_partialStab s" "cs_run ?s1 = Looping" "\<not> cs_pending ?s1" "cs_gens ?s1 = cs_gens s"
    "cs_lastUserText ?s1 = cs_lastUserText s" "cs_fired ?s1 = cs_fired s" "cs_history ?s1 = cs_history (removeSpeculative s)"
    "cs_transcripts ?s1 = cs_transcripts s @ [\<lparr>tr_Role = ''user'', tr_Text = t\<rparr>]"
    using assms(1) by (simp_all add: removeSpeculative_def cancelPending_def cascade_emitTranscript_def Let_def)
  have p: "isPotentialSentence now t ?s1 = (stabTrigger \<le> ps_count p, ?s1\<lparr>cs_partialStab := p\<rparr>)"
    using assms(2) by (simp add: isPotentialSentence_def st stab_next_def Let_def assms(3))
  have s': "s' = (if stabTrigger \<le> ps_count p
       then (scheduleSpeculative False ((add_turn (user_turn t) (?s1\<lparr>cs_partialStab := p\<rparr>))\<lparr>cs_speculativeActive := True\<rparr>))
              \<lparr>cs_lastUserText := cs_lastUserText s\<rparr>
       else ?s1\<lparr>cs_partialStab := p, cs_lastUserText := cs_lastUserText s\<rparr>)"
    using assms(1) unfolding assms(4)
    by (simp add: loop_case_def run_asr_def partial_result p Let_def)
  show "cs_run s' = Looping" "cs_partialStab s' = p"
    "cs_speculativeActive s' \<longleftrightarrow> stabTrigger \<le> ps_count p" "cs_pending s' \<longleftrightarrow> stabTrigger \<le> ps_count p"
    "cs_history s' = cs_history (removeSpeculative s) @ (if stabTrigger \<le> ps_count p then [user_turn t] else [])"
    "cs_gens s' = cs_gens s" "cs_lastUserText s' = cs_lastUserText s" "cs_fired s' = cs_fired s"
    "cs_transcripts s' = cs_transcripts s @ [\<lparr>tr_Role = ''user'', tr_Text = t\<rparr>]"
    unfolding s' by (simp_all add: st scheduleSpeculative_def add_turn_def Let_def)
qed

text \<open>Three equal captions within the window open a speculation and signal it.\<close>

lemma three_captions:
  assumes "cs_run s = Looping" and "\<not> cs_speculativeActive s" and "contains_any t sentenceEnders"
    and "ps_text (cs_partialStab s) \<noteq> t" and "s' = run (cascade_step env) s [caption t, caption t, caption t]"
  shows "cs_run s' = Looping" and "cs_speculativeActive s'" and "cs_pending s'"
    and "cs_history s' = cs_history s @ [user_turn t]" and "cs_lastUserText s' = cs_lastUserText s"
    and "cs_gens s' = cs_gens s" and "cs_fired s' = cs_fired s"
proof -
  define s1 where "s1 = cascade_step env s (caption t)"
  define s2 where "s2 = cascade_step env s1 (caption t)"
  have s': "s' = cascade_step env s2 (caption t)" by (simp add: assms(5) s1_def s2_def)
  note c1 = caption_step[OF assms(1,3) refl s1_def]
  note c2 = caption_step[OF c1(1) assms(3) refl s2_def]
  note c3 = caption_step[OF c2(1) assms(3) refl s']
  have w: "(0::int) \<le> stabWindow" by (simp add: stabWindow_def millisecond_def)
  show "cs_run s' = Looping" by (rule c3(1))
  show "cs_speculativeActive s'" "cs_pending s'" "cs_history s' = cs_history s @ [user_turn t]"
    "cs_lastUserText s' = cs_lastUserText s" "cs_gens s' = cs_gens s" "cs_fired s' = cs_fired s"
    using assms(2,4) w by (simp_all add: c1(2-) c2(2-) c3(3-) stab_next_def stabTrigger_def)
qed

lemma demo_speculation:
  assumes "s' = run (cascade_step env) demo_cascade [caption ''yes!'', caption ''yes!'', caption ''yes!'']"
  shows "cs_run s' = Looping" and "cs_speculativeActive s'" and "cs_pending s'"
    and "cs_history s' = cs_history demo_cascade @ [user_turn ''yes!'']" and "cs_lastUserText s' = ''''"
    and "cs_gens s' = []" and "cs_fired s' = 0"
  using three_captions[OF _ _ _ _ assms] by (simp_all add: stab_zero_def contains_any_def sentenceEnders_def)

theorem final_commits_one_turn_witness:
  "cs_history (cascade_step demo_env
      (run (cascade_step demo_env) demo_cascade [caption ''yes!'', caption ''yes!'', caption ''yes!'']) (final ''yes no'')) =
    cs_history demo_cascade @ [user_turn ''yes no'']"
proof -
  let ?es = "[caption ''yes!'', caption ''yes!'', caption ''yes!'']"
  note sp = demo_speculation[OF refl, of demo_env]
  have "\<not> duplicate ''yes no'' (cs_lastUserText demo_cascade)"
    using not_duplicate_blank[of "''yes no''"] by (simp add: demo_tokens)
  moreover have "turns_by (caption ''yes!'') s = []" for s by (simp add: turns_by_def)
  then have "undisturbed demo_env demo_cascade ?es" "turns_taken demo_env demo_cascade ?es = []"
    by (simp_all del: cascade_step.simps)
  ultimately show ?thesis
    using final_commits_one_turn[OF _ _ refl sp(1) _ refl, of "''yes no''" 0 False] sp(5) by simp
qed

subsection \<open>Barge-in\<close>




lemma upd_gen_fields [simp]:
  "length (cs_gens (upd_gen i f s)) = length (cs_gens s)" "cs_run (upd_gen i f s) = cs_run s"
  "cs_recvCh (upd_gen i f s) = cs_recvCh s" "cs_genCancel (upd_gen i f s) = cs_genCancel s"
  by (simp_all add: upd_gen_def)

lemma small_gens [simp]:
  "cs_gens (cascade_emitTranscript r t s) = cs_gens s" "cs_recvCh (cascade_emitTranscript r t s) = cs_recvCh s"
  "cs_gens (add_turn m s) = cs_gens s" "cs_recvCh (add_turn m s) = cs_recvCh s"
  "cs_gens (cancelPending s) = cs_gens s" "cs_recvCh (cancelPending s) = cs_recvCh s"
  "cs_gens (schedulePending s) = cs_gens s" "cs_recvCh (schedulePending s) = cs_recvCh s"
  "cs_gens (scheduleSpeculative race s) = cs_gens s" "cs_recvCh (scheduleSpeculative race s) = cs_recvCh s"
  "cs_gens (removeSpeculative s) = cs_gens s" "cs_recvCh (removeSpeculative s) = cs_recvCh s"
  "cs_gens (snd (isPotentialSentence now t s)) = cs_gens s" "cs_recvCh (snd (isPotentialSentence now t s)) = cs_recvCh s"
  by (simp_all add: small_steps isPotentialSentence_def removeSpeculative_def)



lemma live_start [simp]: "live_gen j (startRespond s) = live_gen j s"
  by (auto simp: live_gen_def startRespond_def nth_append)











text \<open>A generation that has registered and holds audio, with nothing else under way.\<close>

definition talking :: cascade where
  "talking = demo_cascade\<lparr>cs_gens := [\<lparr>gn_history = [], gn_registered = True, gn_audio = Some [[1], [2]],
     gn_deltas = [''a'', ''b''], gn_cancelled = False, gn_done = False\<rparr>],
     cs_genCancel := Some 0, cs_recvCh := [[7]]\<rparr>"

lemma talking_fields [simp]:
  "cs_run talking = Looping" "length (cs_gens talking) = 1" "cs_genCancel talking = Some 0" "cs_closing talking = False"
  "cs_gens talking = [\<lparr>gn_history = [], gn_registered = True, gn_audio = Some [[1], [2]],
     gn_deltas = [''a'', ''b''], gn_cancelled = False, gn_done = False\<rparr>]" "cs_recvCh talking = [[7]]"
  "cs_modelTurnCh talking = []"
  by (simp_all add: talking_def)

abbreviation speech :: cascade_event where
  "speech \<equiv> AsrEvent 0 False \<lparr>ev_Kind = ASRSpeechStarted, ev_Text = ''''\<rparr>"



subsection \<open>What is said and what is remembered\<close>






text \<open>Only the first segment takes the quick path, and an error of the synthesis loses only its segment.\<close>

lemma worker_cases:
  "tts_worker tts True (seg # segs) = synthesize tts seg True @ concat (map (\<lambda>x. synthesize tts x False) segs)"
  by (induction segs) simp_all

lemma synthesize_slow: "synthesize tts x False = (case ts_Synthesize tts x of None \<Rightarrow> [] | Some pcms \<Rightarrow> pcms)"
  by (simp add: synthesize_def split: option.split)

subsection \<open>Where the orchestration goes wrong\<close>

text \<open>
  A final that confirms the speculation before \<open>run\<close> has taken the signal for it: \<open>cancelPending\<close>
  drains the signal, the branch returns without scheduling anything, and no generation is ever
  started for the turn.
\<close>

lemma confirmed_turn_unanswered:
  assumes "s = run (cascade_step env) demo_cascade [caption ''yes!'', caption ''yes!'', caption ''yes!'']"
    and "\<not> duplicate ''yes!'' ''''" and "s' = cascade_step env s (final ''yes!'')"
  shows "cs_history s' = cs_history demo_cascade @ [user_turn ''yes!'']"
    and "\<not> cs_pending s'" and "\<not> cs_waiting s'" and "cs_gens s' = []"
proof -
  note s = demo_speculation[OF assms(1)]
  have "s' = (cancelPending s)\<lparr>cs_history := cs_history demo_cascade @ [user_turn ''yes!''], cs_speculativeActive := False,
      cs_lastUserText := ''yes!''\<rparr>"
    using assms(2) s unfolding assms(3)
    by (simp add: loop_case_def run_asr_def cascade_handleASR_def Let_def s(4)[unfolded demo_cascade_fields])
  then show "cs_history s' = cs_history demo_cascade @ [user_turn ''yes!'']"
    and "\<not> cs_pending s'" and "\<not> cs_waiting s'" and "cs_gens s' = []"
    using s(6) by (simp_all add: cancelPending_def)
qed

text \<open>A final that repeats the last turn leaves a signal that is already queued, and the reply starts without it.\<close>

lemma duplicate_final_keeps_signal:
  "cs_run s = Looping \<Longrightarrow> duplicate t (cs_lastUserText s) \<Longrightarrow>
    cs_pending (cascade_step env s (final t)) = cs_pending s"
  by (simp add: loop_case_def run_asr_def cascade_handleASR_def removeSpeculative_def Let_def)

text \<open>The same words said twice in a row are one turn: the second is taken for a repetition of the first.\<close>

lemma repeated_answer_ignored:
  assumes "cs_run s = Looping" and "cs_lastUserText s = t" and "\<not> cs_speculativeActive s"
  shows "cs_history (cascade_step env s (final t)) = cs_history s"
  using assms by (simp add: loop_case_def run_asr_def cascade_handleASR_def)

text \<open>Every caption goes out as a transcript line, which the bridge records and numbers like a turn.\<close>

lemma captions_are_lines:
  assumes "cs_run s = Looping" and "\<not> contains_any t sentenceEnders"
  shows "cs_transcripts (cascade_step env s (caption t)) = cs_transcripts s @ [\<lparr>tr_Role = ''user'', tr_Text = t\<rparr>]"
  using assms
  by (simp add: loop_case_def run_asr_def partial_result isPotentialSentence_def removeSpeculative_def
      cancelPending_def cascade_emitTranscript_def Let_def)

text \<open>
  A model reply that arrives while a speculative turn is open stands after it; \<open>removeSpeculative\<close>
  then removes the reply and leaves the speculative turn in the history.
\<close>

lemma wrong_entry_removed:
  assumes "cs_run s = Looping" and "cs_history s = h @ [user_turn t]" and "cs_speculativeActive s"
    and "cs_modelTurnCh s = [reply]"
  shows "cs_history (run (cascade_step env) s [ModelTurn, speech]) = h @ [user_turn t]"
  using assms
  by (simp add: loop_case_def run_model_def run_asr_def cascade_handleASR_def cascade_emitTranscript_def add_turn_def
      butlast_append)

text \<open>
  Two generations under way: \<open>genCancel\<close> names only the one that registered last, and a speech start
  leaves the other one talking.
\<close>

lemma overlapping_keeps_talking:
  assumes "cs_run s = Looping" and "cs_genCancel s = Some 1" and "length (cs_gens s) = 2"
    and "live_gen 0 s" and "gn_audio (cs_gens s ! 0) = Some [pcm]" and "gn_done (cs_gens s ! 1)"
    and "s' = run (cascade_step env) s [speech, Drained, GenAudio 0]"
  shows "cs_run s' = Looping" and "cs_recvCh s' = [pcm]"
proof -
  define s1 where "s1 = cascade_step env s speech"
  define s2 where "s2 = cascade_step env s1 Drained"
  have s1: "cs_run s1 = Barging 1" "gn_done (cs_gens s1 ! 1)" "length (cs_gens s1) = 2" "cs_gens s1 ! 0 = cs_gens s ! 0"
    using assms(1-3,6) by (simp_all add: s1_def loop_case_def run_asr_def cascade_handleASR_def bargeIn_def upd_gen_def
        removeSpeculative_def cancelPending_def Let_def)
  then have s2: "cs_run s2 = Looping" "cs_recvCh s2 = []" "length (cs_gens s2) = 2" "cs_gens s2 ! 0 = cs_gens s ! 0"
    by (simp_all add: s2_def barge_drain_def)
  have s': "s' = gen_audio 0 s2" using assms(7) by (simp add: s2_def s1_def del: cascade_step.simps(1))
  show "cs_run s' = Looping" "cs_recvCh s' = [pcm]" unfolding s'
    using assms(4,5) s2 by (simp_all add: gen_audio_def live_gen_def recvCap_def)
qed

text \<open>
  A generation that has been started and has not yet called \<open>setGenCancel\<close> when the user starts to speak:
  \<open>bargeIn\<close> finds nothing to cancel, and the generation registers, answers and speaks over the user.
\<close>

lemma late_registration_talks:
  assumes "cs_run s = Looping" and "cs_genCancel s = None" and "cs_gens s = [g]" and "\<not> gn_registered g"
    and "\<not> gn_done g" and "gn_audio g = None" and "fst (respond (ce_hook env) (ce_tts env) deltas) = pcm # pcms"
    and "s' = run (cascade_step env) s [speech, GenRegister 0, GenReply 0 (Some deltas), GenAudio 0]"
  shows "cs_run s' = Looping" and "cs_recvCh s' = [pcm]"
proof -
  define s1 where "s1 = cascade_step env s speech"
  define s2 where "s2 = cascade_step env s1 (GenRegister 0)"
  define s3 where "s3 = cascade_step env s2 (GenReply 0 (Some deltas))"
  have s1: "cs_run s1 = Looping" "cs_recvCh s1 = []" "cs_gens s1 = [g]"
    using assms(1-3) by (simp_all add: s1_def loop_case_def run_asr_def cascade_handleASR_def bargeIn_def barge_drain_def
        removeSpeculative_def cancelPending_def Let_def)
  then have s2: "cs_run s2 = Looping" "cs_recvCh s2 = []" "cs_gens s2 = [g\<lparr>gn_registered := True\<rparr>]"
    using assms(4) by (simp_all add: s2_def setGenCancel_def upd_gen_def)
  then have s3: "cs_run s3 = Looping" "cs_recvCh s3 = []"
    "cs_gens s3 = [g\<lparr>gn_registered := True, gn_audio := Some (pcm # pcms), gn_deltas := deltas\<rparr>]"
    using assms(5-7) by (simp_all add: s3_def gen_reply_def live_gen_def upd_gen_def)
  have "s' = cascade_step env s3 (GenAudio 0)" using assms(8) by (simp add: s1_def s2_def s3_def del: cascade_step.simps)
  then show "cs_run s' = Looping" "cs_recvCh s' = [pcm]"
    using s3 assms(5) by (simp_all add: gen_audio_def live_gen_def recvCap_def upd_gen_def)
qed

text \<open>The blocking send of \<open>scheduleSpeculative\<close>: after it nothing that \<open>run\<close> owns moves again.\<close>

lemma blocked_for_ever:
  assumes "cs_run s = Blocked"
  shows "cs_run (run (cascade_step env) s es) = Blocked"
proof -
  have "cs_run (cascade_step env s e) = Blocked" if "cs_run s = Blocked" for s e
    using that by (cases e) (auto simp: gen_steps split: option.split list.split)
  then show ?thesis using assms by (induction es arbitrary: s) auto
qed

lemma speculation_can_block:
  assumes "0 < cs_fired s"
  shows "cs_run (scheduleSpeculative True s) = Blocked"
  using assms by (simp add: scheduleSpeculative_def)

text \<open>Every further caption of a stable partial signals again, so each of them starts a generation.\<close>

lemma each_caption_signals:
  assumes "cs_run s = Looping" and "contains_any t sentenceEnders" and "ps_text (cs_partialStab s) = t"
    and "ps_firstSeen (cs_partialStab s) = 0" and "stabTrigger \<le> ps_count (cs_partialStab s)"
  shows "cs_pending (cascade_step env s (caption t))"
  using caption_step(4)[OF assms(1,2) refl refl, of env] assms(3-5)
  by (simp add: stab_next_def stabWindow_def millisecond_def)

subsection \<open>Closing\<close>

text \<open>
  \<open>Close\<close> cancels, waits for every goroutine, and only then closes the stages: in no reachable state
  is a stage closed under a generation, a timer or the loop.
\<close>

definition quiet_when_closed :: "cascade \<Rightarrow> bool" where
  "quiet_when_closed s \<longleftrightarrow> (cs_stagesClosed s \<longrightarrow>
     cs_run s = Returned \<and> (\<forall>g \<in> set (cs_gens s). gn_done g) \<and> \<not> cs_waiting s \<and> cs_fired s = 0)"

lemma all_done_dead: "\<forall>g \<in> set (cs_gens s). gn_done g \<Longrightarrow> \<not> live_gen i s"
  by (auto simp: live_gen_def)

lemma register_done:
  assumes "\<forall>g \<in> set (cs_gens s). gn_done g"
  shows "\<forall>g \<in> set (cs_gens (setGenCancel i s)). gn_done g"
proof
  fix g assume "g \<in> set (cs_gens (setGenCancel i s))"
  then have "g \<in> set (cs_gens s) \<or> i < length (cs_gens s) \<and> g = (cs_gens s ! i)\<lparr>gn_registered := True\<rparr>"
    using set_update_subset_insert[of "cs_gens s" i] by (auto simp: setGenCancel_def upd_gen_def split: if_splits)
  then show "gn_done g" using assms by auto
qed

text \<open>Outside the loop, whether the stages are closed changes only with \<open>CloseEnd\<close>.\<close>

lemma loop_stages [simp]: "cs_stagesClosed (loop_case e s) = cs_stagesClosed s"
proof (cases e)
  case (AsrEvent now race ev)
  then show ?thesis
    by (cases ev; cases "ev_Kind ev")
      (simp_all add: loop_case_def run_asr_def partial_result cascade_handleASR_def isPotentialSentence_def
        removeSpeculative_def small_steps split: option.split)
qed (simp_all add: loop_case_def run_pending_def run_restore_def run_text_def run_model_def small_steps split: list.split)

lemma quiet_step: "quiet_when_closed s \<Longrightarrow> quiet_when_closed (cascade_step env s e)"
proof (cases "of_loop e")
  case True
  assume "quiet_when_closed s"
  then show ?thesis by (auto simp: loop_step[OF True] quiet_when_closed_def)
next
  case False
  assume q: "quiet_when_closed s"
  show ?thesis
  proof (cases "cs_stagesClosed s")
    case True
    then have s: "cs_run s = Returned" "\<forall>g \<in> set (cs_gens s). gn_done g" "\<not> cs_waiting s" "cs_fired s = 0"
      using q by (simp_all add: quiet_when_closed_def)
    note dead = all_done_dead[OF s(2)]
    show ?thesis using False s True register_done[OF s(2)]
      by (cases e)
        (auto simp: quiet_when_closed_def gen_reply_def gen_audio_def gen_finish_def Let_def dead caller_def
          cascade_SendText_def cascade_RestoreContext_def setGenCancel_def upd_gen_def split: if_splits)
  next
    case not_closed: False
    show ?thesis using False not_closed
      by (cases e) (auto simp: quiet_when_closed_def gen_steps barge_drain_def
          split: run_state.splits option.splits list.splits if_splits)
  qed
qed

interpretation closing: machine "cascade_step env" quiet_when_closed for env
  by unfold_locales (rule quiet_step)

theorem close_is_barrier:
  assumes "cascade_New asr llm tts system = Inr s" and "s' = run (cascade_step env) s es" and "cs_stagesClosed s'"
  shows "cs_run s' = Returned \<and> (\<forall>g \<in> set (cs_gens s'). gn_done g) \<and> \<not> cs_waiting s' \<and> cs_fired s' = 0"
proof -
  have "quiet_when_closed s" using assms(1) by (auto simp: cascade_New_def quiet_when_closed_def split: if_splits)
  then have "quiet_when_closed s'" unfolding assms(2) by (rule closing.run_inv)
  then show ?thesis using assms(3) by (simp add: quiet_when_closed_def)
qed

theorem close_is_barrier_witness:
  "cs_run (run (cascade_step demo_env) demo_cascade [SendTyped ''yes'', CloseBegin, CtxDone, TimerCancelled, CloseEnd]) = Returned"
proof -
  have new: "cascade_New True True True ''be kind'' = Inr demo_cascade"
    by (simp add: demo_cascade_def cascade_New_def)
  have w: "\<not> cs_waiting demo_cascade" by (simp add: demo_cascade_def cascade_New_def)
  have "cs_stagesClosed (run (cascade_step demo_env) demo_cascade [SendTyped ''yes'', CloseBegin, CtxDone, TimerCancelled, CloseEnd])"
    by (simp add: caller_def cascade_SendText_def turnCap_def loop_case_def)
  then show ?thesis using close_is_barrier[OF new refl] by blast
qed

subsection \<open>The audio source\<close>

text \<open>
  The output mix: the source installed by \<open>SetAudioSource\<close>, and the calls of \<open>Close\<close> on sources, in
  order.  Sources are named by numbers.
\<close>

record audio_mix =
  am_audioSrc :: "nat option"
  am_closeCalls :: "nat list"

definition SetAudioSource :: "nat option \<Rightarrow> audio_mix \<Rightarrow> audio_mix" where
  "SetAudioSource src s =
     (let old = am_audioSrc s; s' = s\<lparr>am_audioSrc := src\<rparr> in
      case old of None \<Rightarrow> s' | Some o' \<Rightarrow> s'\<lparr>am_closeCalls := am_closeCalls s' @ [o']\<rparr>)"

text \<open>
  \<open>Recv\<close> reads the source outside the lock: \<open>meanwhile\<close> is what other goroutines do to the mix during
  the read.  The result is the chunk of the source, or \<open>None\<close>: then the next chunk of \<open>recvCh\<close>.
\<close>

definition clear_source :: "nat \<Rightarrow> audio_mix \<Rightarrow> audio_mix" where
  "clear_source src s =
     (if am_audioSrc s = Some src then s\<lparr>am_closeCalls := am_closeCalls s @ [src], am_audioSrc := None\<rparr> else s)"

definition cascade_Recv ::
  "(nat \<Rightarrow> i16 list option) \<Rightarrow> (audio_mix \<Rightarrow> audio_mix) \<Rightarrow> audio_mix \<Rightarrow> i16 list option \<times> audio_mix" where
  "cascade_Recv read meanwhile s =
     (case am_audioSrc s of
        None \<Rightarrow> (None, s)
      | Some src \<Rightarrow>
          (case read src of
             Some pcm \<Rightarrow> (Some pcm, meanwhile s)
           | None \<Rightarrow> (None, clear_source src (meanwhile s))))"

text \<open>The end of \<open>Close\<close>: the errors of the stages and of the source, joined; it takes effect once.\<close>

definition close_stages :: "go_error option \<Rightarrow> go_error option \<Rightarrow> go_error option \<Rightarrow> go_error list" where
  "close_stages asr llm tts = [e. Some e \<leftarrow> [asr, llm, tts]]"

definition cascade_Close ::
  "go_error option \<Rightarrow> go_error option \<Rightarrow> go_error option \<Rightarrow> (nat \<Rightarrow> go_error option) \<Rightarrow> audio_mix \<Rightarrow> go_error list \<times> audio_mix" where
  "cascade_Close asr llm tts src_close s =
     (let errs = close_stages asr llm tts in
      case am_audioSrc s of
        None \<Rightarrow> (errs, s)
      | Some src \<Rightarrow>
          (errs @ (case src_close src of None \<Rightarrow> [] | Some e \<Rightarrow> [e]),
           s\<lparr>am_audioSrc := None, am_closeCalls := am_closeCalls s @ [src]\<rparr>))"

datatype mix_event = Install "nat option" | SourceEnds nat | MixClose

fun mix_step :: "audio_mix \<Rightarrow> mix_event \<Rightarrow> audio_mix" where
  "mix_step s (Install src) = SetAudioSource src s"
| "mix_step s (SourceEnds src) = clear_source src s"
| "mix_step s MixClose = snd (cascade_Close None None None (\<lambda>_. None) s)"

fun installs :: "mix_event list \<Rightarrow> nat list" where
  "installs [] = []"
| "installs (Install (Some src) # es) = src # installs es"
| "installs (e # es) = installs es"

definition held :: "audio_mix \<Rightarrow> nat multiset" where
  "held s = mset (am_closeCalls s) + (case am_audioSrc s of None \<Rightarrow> {#} | Some src \<Rightarrow> {#src#})"

text \<open>
  Every installation of a source is paid for by one call of its \<open>Close\<close>, or the source is still
  installed; so no source is closed twice unless it was installed twice.
\<close>

lemma sources_conserved: "held (run mix_step s es) = held s + mset (installs es)"
proof (induction es arbitrary: s)
  case (Cons e es)
  have "held (mix_step s e) = held s + mset (installs [e])"
  proof (cases e)
    case (Install src)
    then show ?thesis by (cases src) (auto simp: held_def SetAudioSource_def split: option.split)
  qed (auto simp: held_def clear_source_def cascade_Close_def split: option.split)
  moreover have "installs (e # es) = installs [e] @ installs es" by (cases "(e # es)" rule: installs.cases) simp_all
  ultimately show ?case using Cons by simp
qed simp

lemma recv_falls_back:
  assumes "am_audioSrc s = Some src" and "read src = None"
  shows "cascade_Recv read id s = (None, s\<lparr>am_closeCalls := am_closeCalls s @ [src], am_audioSrc := None\<rparr>)"
  using assms by (simp add: cascade_Recv_def clear_source_def)

end
