(* ===== verification/Stages.thy ===== *)
theory Stages
  imports Cascade "HOL-Library.List_Lexorder" "HOL-Library.Char_ord" Sidechannel
begin

text \<open>
  The stages of the cascade (\<open>internal/model/cascade/\<close> \<open>asr\<close>, \<open>llm\<close>, \<open>tts\<close>, \<open>turndetect\<close>, \<open>fakestage\<close>)
  as far as they are not network calls: the framing of the streamed speech, the WAV parser, the
  server-sent events of the language model, the mapping of recognition messages, the pause of the
  turn detector.  The HTTP and WebSocket transports and the JSON coding are parameters: the results of
  the requests are arguments.
\<close>

subsection \<open>Framing to 20 ms\<close>

definition chunkSamples :: nat where
  "chunkSamples = 48000 * 20 div 1000"

lemma chunkSamples_val [simp]: "chunkSamples = 960"
  by (simp add: chunkSamples_def)

text \<open>The full frames at the front of \<open>pending\<close>, and what is left.\<close>

function full_frames :: "'a list \<Rightarrow> 'a list list \<times> 'a list" where
  "full_frames pending =
     (if chunkSamples \<le> length pending
      then (let (fs, rest) = full_frames (drop chunkSamples pending) in (take chunkSamples pending # fs, rest))
      else ([], pending))"
  by auto
termination by (relation "measure length") auto

declare full_frames.simps [simp del]

lemma full_frames_spec:
  "full_frames p = (fs, rest) \<Longrightarrow>
    concat fs @ rest = p \<and> list_all (\<lambda>f. length f = chunkSamples) fs \<and> length rest < chunkSamples"
proof (induction p arbitrary: fs rest rule: full_frames.induct)
  case (1 p)
  show ?case
  proof (cases "chunkSamples \<le> length p")
    case True
    obtain fs' rest' where r: "full_frames (drop chunkSamples p) = (fs', rest')" by fastforce
    then have "fs = take chunkSamples p # fs'" "rest = rest'"
      using "1.prems" True by (simp_all add: full_frames.simps[of p])
    then show ?thesis using "1.IH"[OF True r] True by (simp flip: append_assoc) (metis append_take_drop_id append_assoc)
  next
    case False
    then show ?thesis using "1.prems" by (simp add: full_frames.simps[of p])
  qed
qed

subsection \<open>XTTS: the streamed speech\<close>

definition xttsRate :: int where
  "xttsRate = 24000"

text \<open>
  The state between two reads: the byte of a sample split by the last read, and the resampled
  samples that do not fill a frame.  The slice \<open>oddByte\<close> keeps its backing array, of capacity
  \<open>oddCap\<close>: when \<open>append(oddByte, raw...)\<close> fits into it, \<open>raw\<close> is that array, and the
  \<open>append(oddByte, raw[len(raw)-1])\<close> that follows overwrites its first byte.
\<close>

record xtts =
  xt_odd :: "u8 option"
  xt_pending :: "i16 list"

definition oddCap :: nat where
  "oddCap = 8"

definition take_read :: "u8 option \<Rightarrow> bytes \<Rightarrow> bytes \<times> u8 option" where
  "take_read odd' buf =
     (let raw = (case odd' of None \<Rightarrow> buf | Some b \<Rightarrow> b # buf);
          shared = (odd' \<noteq> None \<and> length raw \<le> oddCap) in
      if length raw mod 2 = 1 then
        (let rest = (if shared then raw[0 := last raw] else raw) in (butlast rest, Some (last raw)))
      else (raw, None))"

text \<open>One read with data; \<open>None\<close> when the resampler panics.\<close>

definition xtts_read :: "bytes \<Rightarrow> xtts \<Rightarrow> (i16 list list \<times> xtts) option" where
  "xtts_read buf s =
     (if buf = [] then Some ([], s)
      else
        (let (raw, odd') = take_read (xt_odd s) buf in
         if raw = [] then Some ([], s\<lparr>xt_odd := odd'\<rparr>)
         else
           (case ResampleLinear (FromBytes raw) xttsRate 48000 of
              None \<Rightarrow> None
            | Some ys \<Rightarrow>
                (let (fs, rest) = full_frames (xt_pending s @ ys) in
                 Some (fs, s\<lparr>xt_odd := odd', xt_pending := rest\<rparr>)))))"

text \<open>The loop of \<open>stream\<close> without cancellation: the frames sent for the reads, and the tail at the end.\<close>

fun xtts_stream :: "xtts \<Rightarrow> bytes list \<Rightarrow> i16 list list option" where
  "xtts_stream s [] = Some (if xt_pending s \<noteq> [] then [xt_pending s] else [])"
| "xtts_stream s (buf # bufs) =
     (case xtts_read buf s of
        None \<Rightarrow> None
      | Some (fs, s') \<Rightarrow> map_option (\<lambda>rest. fs @ rest) (xtts_stream s' bufs))"

definition xtts_start :: xtts where
  "xtts_start = \<lparr>xt_odd = None, xt_pending = []\<rparr>"

lemma dec_all_append:
  assumes "0 < n" and "n dvd length xs"
  shows "dec_all dec n (xs @ ys) = dec_all dec n xs @ dec_all dec n ys"
  using assms(2)
proof (induction "length xs" arbitrary: xs rule: less_induct)
  case less
  show ?case
  proof (cases "xs = []")
    case True
    then show ?thesis using assms(1) by (simp add: dec_all.simps[of dec n "[]"])
  next
    case False
    then have len: "n \<le> length xs" using less.prems by (simp add: dvd_imp_le)
    then have "dec_all dec n (drop n xs @ ys) = dec_all dec n (drop n xs) @ dec_all dec n ys"
      using less assms(1) by (intro less.hyps) (simp_all add: dvd_diff_nat)
    then show ?thesis using len assms(1) by (simp add: dec_all.simps[of dec n "xs @ ys"] dec_all.simps[of dec n xs])
  qed
qed

lemma FromBytes_append: "even (length xs) \<Longrightarrow> FromBytes (xs @ ys) = FromBytes xs @ FromBytes ys"
  by (simp add: FromBytes_def dec_all_append)

definition carried :: "u8 option \<Rightarrow> bytes" where
  "carried o' = (case o' of None \<Rightarrow> [] | Some b \<Rightarrow> [b])"

text \<open>A read that is too long for the shared array loses nothing: its samples and the carried byte are the bytes.\<close>

lemma take_read_long:
  "oddCap \<le> length buf \<Longrightarrow> take_read o' buf =
    (let raw = carried o' @ buf in if odd (length raw) then (butlast raw, Some (last raw)) else (raw, None))"
  by (cases o') (simp_all add: take_read_def oddCap_def carried_def Let_def odd_iff_mod_2_eq_one)

lemma take_read_exact:
  assumes "oddCap \<le> length buf" and "take_read o' buf = (raw, o'')"
  shows "raw @ carried o'' = carried o' @ buf" and "even (length raw)"
proof -
  have ne: "carried o' @ buf \<noteq> []" using assms(1) by (auto simp: oddCap_def)
  show "raw @ carried o'' = carried o' @ buf"
    using assms(2) append_butlast_last_id[OF ne]
    by (auto simp: take_read_long[OF assms(1)] Let_def carried_def[of "Some _"] carried_def[of None] split: if_splits)
  show "even (length raw)"
    using assms(2) by (auto simp: take_read_long[OF assms(1)] Let_def split: if_splits)
qed

definition upsampled :: "i16 list \<Rightarrow> i16 list" where
  "upsampled b = the (ResampleLinear b xttsRate 48000)"

lemma upsample_defined: "length b < 2 ^ 50 \<Longrightarrow> ResampleLinear b xttsRate 48000 = Some (upsampled b)"
  using interpolate_24k_48k[of b] by (cases "b = []") (auto simp: upsampled_def xttsRate_def ResampleLinear_def)

lemma take_read_length: "oddCap \<le> length buf \<Longrightarrow> take_read o' buf = (raw, o'') \<Longrightarrow> length raw \<le> Suc (length buf)"
proof -
  assume "oddCap \<le> length buf" "take_read o' buf = (raw, o'')"
  then have "length (raw @ carried o'') = length (carried o' @ buf)" by (simp only: take_read_exact(1))
  then show ?thesis by (cases o'; cases o'') (simp_all add: carried_def)
qed

definition long_reads :: "bytes list \<Rightarrow> bool" where
  "long_reads bufs = list_all (\<lambda>b. b = [] \<or> oddCap \<le> length b) bufs"

text \<open>One long read: the samples it completes go through the resampler and the framing.\<close>

lemma xtts_read_long:
  assumes "oddCap \<le> length buf" and "length buf < 2 ^ 49"
  shows "\<exists>raw o'' fs rest. xtts_read buf s = Some (fs, s\<lparr>xt_odd := o'', xt_pending := rest\<rparr>) \<and>
    raw @ carried o'' = carried (xt_odd s) @ buf \<and> even (length raw) \<and>
    full_frames (xt_pending s @ upsampled (FromBytes raw)) = (fs, rest)"
proof -
  obtain raw o'' where t: "take_read (xt_odd s) buf = (raw, o'')" by fastforce
  note e = take_read_exact[OF assms(1) t] and l = take_read_length[OF assms(1) t]
  have raw: "raw \<noteq> []"
  proof
    assume "raw = []"
    then have "length (carried o'') = length (carried (xt_odd s) @ buf)" using e(1) by simp
    then show False using assms(1) by (cases o'') (auto simp: carried_def oddCap_def)
  qed
  have b: "buf \<noteq> []" using assms(1) by (auto simp: oddCap_def)
  have "length (FromBytes raw) < 2 ^ 50" using l assms(2) by (simp add: length_FromBytes)
  note u = upsample_defined[OF this]
  obtain fs rest where f: "full_frames (xt_pending s @ upsampled (FromBytes raw)) = (fs, rest)" by fastforce
  show ?thesis using e f b raw by (auto simp: xtts_read_def t u)
qed

lemma xtts_stream_run:
  assumes "long_reads bufs" and "list_all (\<lambda>b. length b < 2 ^ 49) bufs" and "length (xt_pending s) < chunkSamples"
  shows "\<exists>frames blocks. xtts_stream s bufs = Some frames \<and>
    concat blocks = FromBytes (carried (xt_odd s) @ concat bufs) \<and>
    concat frames = xt_pending s @ concat (map upsampled blocks) \<and>
    list_all (\<lambda>f. length f = chunkSamples) (butlast frames)"
  using assms
proof (induction bufs arbitrary: s)
  case Nil
  have "FromBytes (carried (xt_odd s)) = []"
    by (cases "xt_odd s") (simp_all add: carried_def FromBytes_def dec_all.simps)
  then show ?case by (intro exI[of _ "[]"] exI[of _ "if xt_pending s \<noteq> [] then [xt_pending s] else []"]) auto
next
  case (Cons buf bufs)
  have rec: "long_reads bufs" "list_all (\<lambda>b. length b < 2 ^ 49) bufs" using Cons.prems by (auto simp: long_reads_def)
  show ?case
  proof (cases "buf = []")
    case True
    then show ?thesis using Cons.IH[OF rec Cons.prems(3)] by (auto simp: xtts_read_def)
  next
    case False
    then have "oddCap \<le> length buf" "length buf < 2 ^ 49" using Cons.prems by (auto simp: long_reads_def)
    then obtain raw o'' fs rest where r: "xtts_read buf s = Some (fs, s\<lparr>xt_odd := o'', xt_pending := rest\<rparr>)"
      "raw @ carried o'' = carried (xt_odd s) @ buf" "even (length raw)"
      "full_frames (xt_pending s @ upsampled (FromBytes raw)) = (fs, rest)" using xtts_read_long by blast
    note f = full_frames_spec[OF r(4)]
    obtain frames blocks where ih: "xtts_stream (s\<lparr>xt_odd := o'', xt_pending := rest\<rparr>) bufs = Some frames"
      "concat blocks = FromBytes (carried o'' @ concat bufs)"
      "concat frames = rest @ concat (map upsampled blocks)"
      "list_all (\<lambda>f. length f = chunkSamples) (butlast frames)"
      using Cons.IH[OF rec, of "s\<lparr>xt_odd := o'', xt_pending := rest\<rparr>"] f by auto
    have "carried (xt_odd s) @ concat (buf # bufs) = raw @ carried o'' @ concat bufs"
      using r(2) by (metis append_assoc concat.simps(2))
    then have "FromBytes (carried (xt_odd s) @ concat (buf # bufs)) = concat (FromBytes raw # blocks)"
      using ih(2) r(3) by (simp only: FromBytes_append concat.simps)
    moreover have "xtts_stream s (buf # bufs) = Some (fs @ frames)" using r(1) ih(1) by simp
    moreover have "concat (fs @ frames) = xt_pending s @ concat (map upsampled (FromBytes raw # blocks))"
      using f ih(3) by simp
    moreover have "list_all (\<lambda>f. length f = chunkSamples) (butlast (fs @ frames))"
      using f ih(4) by (auto simp: butlast_append list_all_iff dest: in_set_butlastD)
    ultimately show ?thesis by metis
  qed
qed

text \<open>
  C35: The streamed speech arrives whole.  However the server's bytes are cut into reads of at least
  eight bytes, odd cuts through a sample included, the frames put on the channel are the samples of
  the byte stream in order, each block resampled to 48 kHz; every frame but the last has exactly
  960 samples, and the resampler never panics.
\<close>

theorem xtts_stream_exact:
  assumes "long_reads bufs" and "list_all (\<lambda>b. length b < 2 ^ 49) bufs"
  shows "\<exists>frames blocks. xtts_stream xtts_start bufs = Some frames \<and>
    concat blocks = FromBytes (concat bufs) \<and> concat frames = concat (map upsampled blocks) \<and>
    list_all (\<lambda>f. length f = chunkSamples) (butlast frames)"
  using xtts_stream_run[OF assms, of xtts_start] by (simp add: xtts_start_def carried_def)

theorem xtts_stream_exact_witness:
  "\<exists>frames blocks. xtts_stream xtts_start [replicate 9 1, replicate 11 2] = Some frames \<and>
    concat blocks = FromBytes (concat [replicate 9 1, replicate 11 2]) \<and>
    concat frames = concat (map upsampled blocks)"
  using xtts_stream_exact[of "[replicate 9 1, replicate 11 2]"] by (auto simp: long_reads_def oddCap_def)

text \<open>
  A split followed by a read of two bytes: the carried byte is overwritten by the new odd byte before
  it is used, and the sample is wrong.
\<close>

lemma short_read_corrupts:
  "take_read None [1] = ([], Some 1)" "take_read (Some 1) [2, 3] = ([3, 2], Some 3)"
  by (simp_all add: take_read_def oddCap_def)

subsection \<open>Coqui: a WAV file per request\<close>

definition ascii :: "string \<Rightarrow> bytes" where
  "ascii s = map of_char s"

text \<open>\<open>io.ReadFull\<close> of \<open>n\<close> bytes, and \<open>binary.Read\<close> of a fixed-size value.\<close>

definition read_full :: "nat \<Rightarrow> bytes \<Rightarrow> go_error + bytes \<times> bytes" where
  "read_full n bs =
     (if n \<le> length bs then Inr (take n bs, drop n bs)
      else Inl (if bs = [] then ''EOF'' else ''unexpected EOF''))"

datatype wav = WavOk "i16 list" int | WavErr go_error | WavPanic

fun downmix :: "i16 list \<Rightarrow> i16 list" where
  "downmix (a # b # rest) = word_of_int (go_div (sint a + sint b) 2) # downmix rest"
| "downmix rest = []"

text \<open>The part of a \<open>fmt\<close> chunk after its size: the rate, the channels and the rest of the file.\<close>

definition wav_fmt :: "u32 \<Rightarrow> bytes \<Rightarrow> wav + u32 \<times> u16 \<times> bytes" where
  "wav_fmt chunkSize bs =
     (case read_full 2 bs of
        Inl e \<Rightarrow> Inl (WavErr e)
      | Inr (f, bs1) \<Rightarrow>
          (if from_le16 f \<noteq> 1
           then Inl (WavErr (''unsupported WAV format '' @ format_nat (unat (from_le16 f)) @ '' (only PCM=1 supported)''))
           else
             (case read_full 2 bs1 of
                Inl e \<Rightarrow> Inl (WavErr e)
              | Inr (c, bs2) \<Rightarrow>
                  (case read_full 4 bs2 of
                     Inl e \<Rightarrow> Inl (WavErr e)
                   | Inr (r, bs3) \<Rightarrow>
                       (let skip = uint chunkSize - 2 - 2 - 4 in
                        if skip < 0 then Inl WavPanic
                        else
                          (case read_full (nat skip) bs3 of
                             Inl e \<Rightarrow> Inl (WavErr e)
                           | Inr (_, bs4) \<Rightarrow> Inr (from_le32 r, from_le16 c, bs4)))))))"

definition wav_data :: "u32 \<Rightarrow> u16 \<Rightarrow> u32 \<Rightarrow> bytes \<Rightarrow> wav" where
  "wav_data sampleRate channels chunkSize bs =
     (case read_full (unat chunkSize) bs of
        Inl e \<Rightarrow> WavErr e
      | Inr (raw, _) \<Rightarrow>
          (let samples = FromBytes raw in
           WavOk (if channels = 2 then downmix samples else samples) (uint sampleRate)))"

text \<open>One chunk of the walk: the result, or the rate, the channels and the rest to go on with.\<close>

definition wav_chunk :: "u32 \<Rightarrow> u16 \<Rightarrow> bytes \<Rightarrow> wav + u32 \<times> u16 \<times> bytes" where
  "wav_chunk sampleRate channels bs =
     (case read_full 4 bs of
        Inl _ \<Rightarrow> Inl (WavErr ''unexpected end of WAV'')
      | Inr (chunkID, bs1) \<Rightarrow>
          (case read_full 4 bs1 of
             Inl e \<Rightarrow> Inl (WavErr e)
           | Inr (sz, bs2) \<Rightarrow>
               (let chunkSize = from_le32 sz in
                if chunkID = ascii ''fmt '' then wav_fmt chunkSize bs2
                else if chunkID = ascii ''data'' then Inl (wav_data sampleRate channels chunkSize bs2)
                else
                  (case read_full (unat chunkSize) bs2 of
                     Inl e \<Rightarrow> Inl (WavErr e)
                   | Inr (_, bs3) \<Rightarrow> Inr (sampleRate, channels, bs3)))))"

lemma read_full_length: "read_full n bs = Inr (a, b) \<Longrightarrow> length b \<le> length bs \<and> (0 < n \<longrightarrow> length b < length bs)"
  by (auto simp: read_full_def split: if_splits)

lemma wav_fmt_shrinks: "wav_fmt sz bs = Inr (r, c, rest) \<Longrightarrow> length rest \<le> length bs"
  by (auto simp: wav_fmt_def Let_def split: sum.splits if_splits dest!: read_full_length)

lemma wav_chunk_shrinks: "wav_chunk r0 c0 bs = Inr (r, c, rest) \<Longrightarrow> length rest < length bs"
  by (auto simp: wav_chunk_def Let_def split: sum.splits if_splits dest!: read_full_length wav_fmt_shrinks)

function wav_walk :: "u32 \<Rightarrow> u16 \<Rightarrow> bytes \<Rightarrow> wav" where
  "wav_walk sampleRate channels bs =
     (case wav_chunk sampleRate channels bs of
        Inl w \<Rightarrow> w
      | Inr (r, c, rest) \<Rightarrow> wav_walk r c rest)"
  by auto
termination by (relation "measure (\<lambda>(_, _, bs). length bs)") (auto dest: wav_chunk_shrinks)

declare wav_walk.simps [simp del]

definition parseWAV :: "bytes \<Rightarrow> wav" where
  "parseWAV bs =
     (case read_full 4 bs of
        Inl _ \<Rightarrow> WavErr ''not a RIFF file''
      | Inr (riff, bs1) \<Rightarrow>
          (if riff \<noteq> ascii ''RIFF'' then WavErr ''not a RIFF file''
           else
             (case read_full 4 bs1 of
                Inl e \<Rightarrow> WavErr e
              | Inr (_, bs2) \<Rightarrow>
                  (case read_full 4 bs2 of
                     Inl _ \<Rightarrow> WavErr ''not a WAVE file''
                   | Inr (wave, bs3) \<Rightarrow>
                       (if wave \<noteq> ascii ''WAVE'' then WavErr ''not a WAVE file'' else wav_walk 0 0 bs3)))))"

text \<open>
  A writer of RIFF files, as the reference: the header with its sizes and rates, chunks of other kinds,
  each padded to an even length as the format wants, then the samples.
\<close>

definition le32n :: "nat \<Rightarrow> bytes" where
  "le32n n = le32 (word_of_nat n)"

definition other_chunk :: "bytes \<times> bytes \<Rightarrow> bytes" where
  "other_chunk c = fst c @ le32n (length (snd c)) @ snd c @ (if odd (length (snd c)) then [0] else [])"

definition other_ok :: "bytes \<times> bytes \<Rightarrow> bool" where
  "other_ok c \<longleftrightarrow> length (fst c) = 4 \<and> fst c \<noteq> ascii ''fmt '' \<and> fst c \<noteq> ascii ''data'' \<and> length (snd c) < 2 ^ 32"

definition wav_file :: "u32 \<Rightarrow> u16 \<Rightarrow> (bytes \<times> bytes) list \<Rightarrow> i16 list \<Rightarrow> bytes" where
  "wav_file rate ch others samples =
     (let body = ascii ''WAVE'' @ ascii ''fmt '' @ le32n 16 @ le16 1 @ le16 ch @ le32 rate @
            le32 (rate * (2 * ucast ch)) @ le16 (2 * ch) @ le16 16 @ concat (map other_chunk others) @
            ascii ''data'' @ le32n (2 * length samples) @ ToBytes samples in
      ascii ''RIFF'' @ le32n (length body) @ body)"

lemma length_le32 [simp]: "length (le32 w) = 4" "length (le32n n) = 4"
  by (simp_all add: le32_def be32_def le32n_def)

lemma length_le16 [simp]: "length (le16 w) = 2"
  by (simp add: le16_def)

lemma length_ascii [simp]: "length (ascii s) = length s"
  by (simp add: ascii_def)

lemma from_le32_le32 [simp]: "from_le32 (le32 w) = w"
  by (simp add: from_le32_def le32_def from_be32_be32)

lemma unat_from_le32n: "n < 2 ^ 32 \<Longrightarrow> unat (from_le32 (le32n n)) = n"
  by (simp add: le32n_def unat_of_nat take_bit_nat_eq_self)

lemma read_full_append: "length a = n \<Longrightarrow> read_full n (a @ b) = Inr (a, b)"
  by (auto simp: read_full_def)

lemma walk_other:
  assumes "other_ok c" and "even (length (snd c))"
  shows "wav_walk r ch (other_chunk c @ rest) = wav_walk r ch rest"
proof -
  have "wav_chunk r ch (other_chunk c @ rest) = Inr (r, ch, rest)" using assms
    by (simp add: wav_chunk_def other_chunk_def other_ok_def read_full_append unat_from_le32n Let_def)
  then show ?thesis by (simp add: wav_walk.simps[of r ch "other_chunk c @ rest"])
qed

lemma walk_others: "list_all other_ok cs \<Longrightarrow> list_all (\<lambda>c. even (length (snd c))) cs \<Longrightarrow> wav_walk r ch (concat (map other_chunk cs) @ rest) = wav_walk r ch rest"
  by (induction cs) (simp_all add: walk_other)

lemma ascii_tags: "ascii ''data'' \<noteq> ascii ''fmt ''"
  by (simp add: ascii_def)

lemma walk_data:
  assumes "length samples < 2 ^ 31"
  shows "wav_walk r ch (ascii ''data'' @ le32n (2 * length samples) @ ToBytes samples) =
    WavOk (if ch = 2 then downmix samples else samples) (uint r)"
proof -
  have "length (ToBytes samples) = 2 * length samples" "FromBytes (ToBytes samples) = samples"
    using pcm_roundtrip by simp_all
  then have "wav_chunk r ch (ascii ''data'' @ le32n (2 * length samples) @ ToBytes samples) =
      Inl (WavOk (if ch = 2 then downmix samples else samples) (uint r))"
    using assms ascii_tags read_full_append[of "ToBytes samples" _ "[]"]
    by (simp add: wav_chunk_def wav_data_def read_full_append unat_from_le32n Let_def)
  then show ?thesis by (simp add: wav_walk.simps)
qed

lemma parse_wav_file:
  assumes "list_all other_ok others" and "length samples < 2 ^ 31" and "list_all (\<lambda>c. even (length (snd c))) others"
  shows "parseWAV (wav_file rate ch others samples) = WavOk (if ch = 2 then downmix samples else samples) (uint rate)"
proof -
  let ?rest = "concat (map other_chunk others) @ ascii ''data'' @ le32n (2 * length samples) @ ToBytes samples"
  let ?fmt = "ascii ''fmt '' @ le32n 16 @ le16 1 @ le16 ch @ le32 rate @ le32 (rate * (2 * ucast ch)) @ le16 (2 * ch) @
    le16 16 @ ?rest"
  have sz: "from_le32 (le32n 16) = 16" by (simp add: le32n_def)
  have tail: "length (le32 (rate * (2 * ucast ch)) @ le16 (2 * ch) @ le16 16) = nat (uint (16 :: u32) - 8)" by simp
  have "wav_chunk 0 0 ?fmt = wav_fmt 16 (le16 1 @ le16 ch @ le32 rate @ le32 (rate * (2 * ucast ch)) @
      le16 (2 * ch) @ le16 16 @ ?rest)"
    by (simp add: wav_chunk_def read_full_append sz Let_def)
  also have "\<dots> = Inr (rate, ch, ?rest)"
    using read_full_append[OF tail, of ?rest]
    by (simp add: wav_fmt_def read_full_append from_le16_le16 Let_def)
  finally have "wav_walk 0 0 ?fmt = wav_walk rate ch ?rest" by (simp add: wav_walk.simps[of 0 0 ?fmt])
  also have "\<dots> = WavOk (if ch = 2 then downmix samples else samples) (uint rate)"
    using walk_others[OF assms(1,3)] walk_data[OF assms(2)] by simp
  finally show ?thesis by (simp add: parseWAV_def wav_file_def Let_def read_full_append)
qed

text \<open>
  The parser does not skip the pad byte: after a chunk of odd length it reads the next header one byte
  late, and a valid file is refused.
\<close>

lemma odd_chunk_misread:
  "parseWAV (wav_file 24000 1 [(ascii ''LIST'', [7])] [1, 2]) = WavErr ''unexpected EOF''"
  by code_simp

text \<open>The goroutine of \<open>Synthesize\<close> without cancellation.\<close>

function coqui_chunks :: "i16 list \<Rightarrow> i16 list list" where
  "coqui_chunks pcm =
     (if 0 < length pcm
      then (let n = min chunkSamples (length pcm) in take n pcm # coqui_chunks (drop n pcm))
      else [])"
  by auto
termination by (relation "measure length") auto

declare coqui_chunks.simps [simp del]

lemma coqui_chunks_spec:
  "concat (coqui_chunks p) = p \<and> list_all (\<lambda>f. length f = chunkSamples) (butlast (coqui_chunks p)) \<and>
    list_all (\<lambda>f. f \<noteq> [] \<and> length f \<le> chunkSamples) (coqui_chunks p)"
proof (induction p rule: coqui_chunks.induct)
  case (1 p)
  show ?case
  proof (cases "p = []")
    case True
    then show ?thesis by (simp add: coqui_chunks.simps)
  next
    case False
    let ?n = "min chunkSamples (length p)"
    have u: "coqui_chunks p = take ?n p # coqui_chunks (drop ?n p)"
      using False by (simp add: coqui_chunks.simps[of p] Let_def)
    have "coqui_chunks (drop ?n p) \<noteq> [] \<Longrightarrow> ?n = chunkSamples"
      by (cases "chunkSamples \<le> length p") (auto simp: coqui_chunks.simps[of "[]"])
    then show ?thesis using "1.IH"[OF _ refl] False unfolding u by (auto simp: min_def coqui_chunks.simps[of "[]"])
  qed
qed

text \<open>
  One HTTP attempt: no request could be made, the error of the transport, or the status and what
  reading the body gave.
  \<open>Synthesize\<close> makes a second one when the first did not give a body.
\<close>

datatype attempt = NoRequest go_error | Failed go_error | Answered int "go_error + bytes"

fun attempt_body :: "attempt \<Rightarrow> go_error + bytes" where
  "attempt_body (NoRequest e) = Inl (''coqui request: '' @ e)"
| "attempt_body (Failed e) = Inl (''coqui http (retry exhausted): '' @ e)"
| "attempt_body (Answered st body) =
     (if st = 200
      then (case body of Inl e \<Rightarrow> Inl (''coqui http (retry exhausted): '' @ e) | Inr d \<Rightarrow> Inr d)
      else Inl (''coqui status '' @ format_int st @ '' (retry exhausted)''))"

definition coqui_fetch :: "attempt \<Rightarrow> attempt \<Rightarrow> go_error + bytes" where
  "coqui_fetch first retry =
     (case (first, attempt_body first) of
        (_, Inr d) \<Rightarrow> Inr d
      | (NoRequest _, Inl e) \<Rightarrow> Inl e
      | (_, Inl _) \<Rightarrow> attempt_body retry)"

datatype synthesis = Speech "i16 list list" | SynthError go_error | SynthPanic

definition coqui_Synthesize :: "attempt \<Rightarrow> attempt \<Rightarrow> synthesis" where
  "coqui_Synthesize first retry =
     (case coqui_fetch first retry of
        Inl e \<Rightarrow> SynthError e
      | Inr wavData \<Rightarrow>
          (case parseWAV wavData of
             WavErr e \<Rightarrow> SynthError (''coqui parse wav: '' @ e)
           | WavPanic \<Rightarrow> SynthPanic
           | WavOk pcm sampleRate \<Rightarrow>
               (if sampleRate \<noteq> 48000
                then (case ResampleLinear pcm sampleRate 48000 of
                        None \<Rightarrow> SynthPanic
                      | Some pcm' \<Rightarrow> Speech (coqui_chunks pcm'))
                else Speech (coqui_chunks pcm))))"

text \<open>
  C36: A WAV file is spoken as it was written.  For a RIFF file of 16-bit samples with a header of any rate
  from 1 Hz to about a megahertz, one or two channels (stereo is averaged), any other chunks of even
  length before the samples, and a server that answers it with status 200 at the first attempt, or at the
  second after an error of the transport, of reading the body, or another status: the chunks are the
  samples at 48 kHz in order, none empty or longer than 20 ms.  (A chunk of odd length is misread: lemma
  \<open>odd_chunk_misread\<close>.)
\<close>

theorem coqui_speaks_wav:
  assumes "list_all other_ok others" and "length samples < 2 ^ 30" and "1 \<le> uint rate" and "uint rate \<le> 2 ^ 20"
    and "file = wav_file rate ch others samples" and "list_all (\<lambda>c. even (length (snd c))) others"
    and "first = Answered 200 (Inr file) \<or> retry = Answered 200 (Inr file) \<and>
      (first = Failed e \<or> first = Answered 200 (Inl e) \<or> (\<exists>st body. first = Answered st body \<and> st \<noteq> 200))"
    and "voice = (if ch = 2 then downmix samples else samples)"
  shows "\<exists>chunks pcm. coqui_Synthesize first retry = Speech chunks \<and>
    ResampleLinear voice (uint rate) 48000 = Some pcm \<and> concat chunks = pcm \<and>
    int (length pcm) = int (length voice) * 48000 div uint rate \<and>
    list_all (\<lambda>f. f \<noteq> [] \<and> length f \<le> chunkSamples) chunks"
proof -
  have "length (downmix xs) \<le> length xs" for xs by (induction xs rule: downmix.induct) auto
  then have m: "length voice \<le> 2 ^ 30" using assms(2,8) by (metis less_imp_le order_trans)
  obtain pcm where pcm: "ResampleLinear voice (uint rate) 48000 = Some pcm"
    "int (length pcm) = int (length voice) * 48000 div uint rate"
    using resample_bounded[OF assms(3,4) _ _ m, of 48000] by auto
  have "parseWAV file = WavOk voice (uint rate)" using parse_wav_file assms(1,2,5,6,8) by simp
  moreover have "coqui_fetch first retry = Inr file" using assms(7) by (auto simp: coqui_fetch_def)
  moreover have "uint rate = 48000 \<Longrightarrow> pcm = voice" using pcm(1) by (simp add: ResampleLinear_def)
  ultimately have "coqui_Synthesize first retry = Speech (coqui_chunks pcm)"
    using pcm(1) by (simp add: coqui_Synthesize_def)
  then show ?thesis using pcm coqui_chunks_spec[of pcm] by blast
qed

theorem coqui_speaks_wav_witness:
  "\<exists>chunks. coqui_Synthesize (Failed ''reset'') (Answered 200 (Inr (wav_file 24000 2 [(ascii ''LIST'', [1, 2])] [10, 20, 30, 50]))) =
      Speech chunks \<and> length (concat chunks) = 4"
proof -
  have "list_all other_ok [(ascii ''LIST'', [1, 2])]" by (simp add: other_ok_def ascii_def)
  then show ?thesis
    using coqui_speaks_wav[where others = "[(ascii ''LIST'', [1, 2])]" and samples = "[10, 20, 30, 50]" and rate = 24000
        and ch = 2 and first = "Failed ''reset''" and e = "''reset''",
      OF _ _ _ _ refl _ _ refl] by fastforce
qed

text \<open>A \<open>fmt\<close> chunk shorter than eight bytes makes the program allocate a slice of negative length and panic.\<close>

lemma short_fmt_panics:
  "parseWAV (ascii ''RIFF'' @ le32n 0 @ ascii ''WAVE'' @ ascii ''fmt '' @ le32n 7 @ le16 1 @ le16 1 @ le32 24000) = WavPanic"
proof -
  have sz: "from_le32 (le32n 7) = 7" by (simp add: le32n_def)
  have "wav_chunk 0 0 (ascii ''fmt '' @ le32n 7 @ le16 1 @ le16 1 @ le32 24000) = Inl WavPanic"
    using read_full_append[of "le32 24000" 4 "[]"]
    by (simp add: wav_chunk_def wav_fmt_def read_full_append sz from_le16_le16 Let_def)
  then show ?thesis by (simp add: parseWAV_def read_full_append wav_walk.simps)
qed

text \<open>So does a file whose header gives the rate 0, in the resampler.\<close>

lemma zero_rate_panics:
  "samples \<noteq> [] \<Longrightarrow> length samples < 2 ^ 31 \<Longrightarrow>
    coqui_Synthesize (Answered 200 (Inr (wav_file 0 1 [] samples))) retry = SynthPanic"
  by (simp add: coqui_Synthesize_def coqui_fetch_def parse_wav_file ResampleLinear_def)

subsection \<open>XTTS: requests and speakers\<close>

definition xttsQuickChunkSize :: string where "xttsQuickChunkSize = ''8''"
definition xttsFinalChunkSize :: string where "xttsFinalChunkSize = ''30''"

text \<open>\<open>NewXTTSStream\<close> after the request: the speakers the server reported, by name, or why not.  The name
  in the last error is quoted without Go's escapes.\<close>

datatype 'v speakers_reply = GetFailed go_error | SpeakersStatus int | SpeakersBroken go_error | SpeakerMap "(string \<times> 'v) list"

record 'v xtts_stage =
  xs_baseURL :: string
  xs_language :: string
  xs_voice :: 'v

definition NewXTTSStream :: "string \<Rightarrow> string \<Rightarrow> string \<Rightarrow> 'v speakers_reply \<Rightarrow> go_error + 'v xtts_stage" where
  "NewXTTSStream baseURL speaker language reply =
     (let baseURL = trim_slashes baseURL; language = (if language = '''' then ''en'' else language) in
      case reply of
        GetFailed e \<Rightarrow> Inl (''xtts studio_speakers: '' @ e)
      | SpeakersStatus st \<Rightarrow> Inl (''xtts studio_speakers status '' @ format_int st)
      | SpeakersBroken e \<Rightarrow> Inl (''xtts studio_speakers decode: '' @ e)
      | SpeakerMap speakers \<Rightarrow>
          (if speakers = [] then Inl ''xtts: server reports no studio speakers''
           else
             (let speaker = (if speaker = '''' then hd (sort (map fst speakers)) else speaker) in
              case map_of speakers speaker of
                None \<Rightarrow> Inl (''xtts: speaker '' @ [CHR 0x22] @ speaker @ [CHR 0x22] @ '' not found'')
              | Some v \<Rightarrow> Inr \<lparr>xs_baseURL = baseURL, xs_language = language, xs_voice = v\<rparr>)))"

text \<open>The default speaker always exists, and its name is the least one whatever the order of the map.\<close>

lemma default_speaker:
  assumes "speakers \<noteq> []"
  shows "\<exists>v. NewXTTSStream url '''' lang (SpeakerMap speakers) =
      Inr \<lparr>xs_baseURL = trim_slashes url, xs_language = (if lang = '''' then ''en'' else lang), xs_voice = v\<rparr> \<and>
    (Min (fst ` set speakers), v) \<in> set speakers"
proof -
  let ?n = "hd (sort (map fst speakers))"
  have "length (sort (map fst speakers)) = length speakers" by simp
  then have ne: "sort (map fst speakers) \<noteq> []" using assms by force
  have n: "?n = Min (fst ` set speakers)"
  proof (rule Min_eqI[symmetric])
    show "?n \<in> fst ` set speakers" using hd_in_set[OF ne] by simp
    fix y assume "y \<in> fst ` set speakers"
    then have "y \<in> set (sort (map fst speakers))" by simp
    then show "?n \<le> y" using sorted_sort[of "map fst speakers"] ne by (cases "sort (map fst speakers)") auto
  qed simp
  have "?n \<in> fst ` set speakers" using hd_in_set[OF ne] by simp
  then obtain v where v: "map_of speakers ?n = Some v" by (metis map_of_eq_None_iff not_None_eq)
  then show ?thesis using assms map_of_SomeD[OF v] by (simp add: NewXTTSStream_def Let_def n)
qed

subsection \<open>The language model: messages, retry, server-sent events\<close>

definition openai_messages :: "message list \<Rightarrow> json list" where
  "openai_messages history =
     map (\<lambda>m. JObj [(''role'', JStr (if ms_Role m = ''model'' then ''assistant'' else ms_Role m)),
                    (''content'', JStr (ms_Text m))]) history"

definition openai_request :: "string \<Rightarrow> message list \<Rightarrow> json" where
  "openai_request model history =
     JObj [(''model'', JStr model), (''messages'', JArr (openai_messages history)), (''stream'', JBool True)]"

text \<open>
  \<open>bufio.Scanner\<close> with \<open>ScanLines\<close>: the lines without their end, up to the first that does not fit into
  the 64 KiB buffer with its newline.
\<close>

definition maxLine :: nat where
  "maxLine = 65535"

definition strip_cr :: "string \<Rightarrow> string" where
  "strip_cr l = (if l \<noteq> [] \<and> last l = CHR 0x0D then butlast l else l)"

fun scan_lines_acc :: "string \<Rightarrow> string \<Rightarrow> string list" where
  "scan_lines_acc acc [] = (if acc = [] \<or> maxLine < length acc then [] else [strip_cr (rev acc)])"
| "scan_lines_acc acc (c # cs) =
     (if maxLine < length acc then []
      else if c = CHR 0x0A then strip_cr (rev acc) # scan_lines_acc [] cs
      else scan_lines_acc (c # acc) cs)"

definition scan_lines :: "string \<Rightarrow> string list" where
  "scan_lines body = scan_lines_acc [] body"

text \<open>The reader goroutine without cancellation; \<open>decode\<close> gives the contents of the choices of a payload.\<close>

fun sse_tokens :: "(string \<Rightarrow> string list option) \<Rightarrow> string list \<Rightarrow> string list" where
  "sse_tokens decode [] = []"
| "sse_tokens decode (l # ls) =
     (if \<not> has_prefix l ''data: '' then sse_tokens decode ls
      else
        (let payload = drop 6 l in
         if payload = ''[DONE]'' then []
         else
           (case decode payload of
              None \<Rightarrow> sse_tokens decode ls
            | Some [] \<Rightarrow> sse_tokens decode ls
            | Some (t # _) \<Rightarrow> (if t = '''' then sse_tokens decode ls else t # sse_tokens decode ls))))"

datatype llm_attempt = NotSent go_error | LlmFailed go_error | LlmAnswered int string

text \<open>\<open>Generate\<close>: two attempts; the tokens of the body, or the error.\<close>

definition openai_Generate :: "(string \<Rightarrow> string list option) \<Rightarrow> llm_attempt \<Rightarrow> llm_attempt \<Rightarrow> go_error + string list" where
  "openai_Generate decode first retry =
     (let stream = (\<lambda>body. Inr (sse_tokens decode (scan_lines body)));
          last_try = (case retry of
              NotSent e \<Rightarrow> Inl (''openai_llm request: '' @ e)
            | LlmFailed e \<Rightarrow> Inl (''openai_llm http (retry exhausted): '' @ e)
            | LlmAnswered st body \<Rightarrow>
                (if st = 200 then stream body
                 else Inl (''openai_llm status '' @ format_int st @ '' (retry exhausted)''))) in
      case first of
        NotSent e \<Rightarrow> Inl (''openai_llm request: '' @ e)
      | LlmFailed e \<Rightarrow> last_try
      | LlmAnswered st body \<Rightarrow> (if st = 200 then stream body else last_try))"

lemma scan_line:
  "CHR 0x0A \<notin> set l \<Longrightarrow> length acc + length l \<le> maxLine \<Longrightarrow>
    scan_lines_acc acc (l @ CHR 0x0A # rest) = strip_cr (rev acc @ l) # scan_lines_acc [] rest"
  by (induction l arbitrary: acc) auto

text \<open>An event stream as the server writes it: one payload per token, then the end mark.\<close>

definition sse_event :: "string \<Rightarrow> string" where
  "sse_event payload = ''data: '' @ payload @ [CHR 0x0A, CHR 0x0A]"

definition sse_body :: "(string \<Rightarrow> string) \<Rightarrow> string list \<Rightarrow> string" where
  "sse_body enc tokens = concat (map (\<lambda>t. sse_event (enc t)) tokens) @ sse_event ''[DONE]''"

text \<open>A payload that fits on a line and is not the end mark, and that the decoder reads back.\<close>

definition payload_ok :: "(string \<Rightarrow> string list option) \<Rightarrow> (string \<Rightarrow> string) \<Rightarrow> string \<Rightarrow> bool" where
  "payload_ok decode enc t \<longleftrightarrow>
     t \<noteq> '''' \<and> decode (enc t) = Some [t] \<and> enc t \<noteq> '''' \<and> enc t \<noteq> ''[DONE]'' \<and>
     CHR 0x0A \<notin> set (enc t) \<and> last (enc t) \<noteq> CHR 0x0D \<and> length (enc t) + 6 \<le> maxLine"

lemma scan_event:
  assumes "CHR 0x0A \<notin> set p" and "p \<noteq> ''''" and "last p \<noteq> CHR 0x0D" and "length p + 6 \<le> maxLine"
  shows "scan_lines_acc [] (sse_event p @ rest) = (''data: '' @ p) # '''' # scan_lines_acc [] rest"
proof -
  have "scan_lines_acc [] ((''data: '' @ p) @ CHR 0x0A # (CHR 0x0A # rest)) =
      strip_cr (rev [] @ (''data: '' @ p)) # scan_lines_acc [] (CHR 0x0A # rest)"
    using assms by (intro scan_line) auto
  moreover have "strip_cr (''data: '' @ p) = ''data: '' @ p" using assms(2,3) by (simp add: strip_cr_def)
  ultimately show ?thesis by (simp add: sse_event_def strip_cr_def)
qed

lemma sse_body_tokens:
  "list_all (payload_ok decode enc) tokens \<Longrightarrow> sse_tokens decode (scan_lines (sse_body enc tokens)) = tokens"
proof (induction tokens)
  case Nil
  have "scan_lines_acc [] (sse_event ''[DONE]'' @ []) = (''data: '' @ ''[DONE]'') # '''' # scan_lines_acc [] []"
    by (rule scan_event) (simp_all add: maxLine_def)
  then show ?case by (simp add: sse_body_def scan_lines_def)
next
  case (Cons t tokens)
  let ?rest = "concat (map (\<lambda>t. sse_event (enc t)) tokens) @ sse_event ''[DONE]''"
  have "scan_lines_acc [] (sse_event (enc t) @ ?rest) = (''data: '' @ enc t) # '''' # scan_lines_acc [] ?rest"
    using Cons.prems by (intro scan_event) (simp_all add: payload_ok_def)
  then show ?case using Cons by (simp add: sse_body_def scan_lines_def payload_ok_def)
qed

text \<open>
  The reply is streamed whole.  When the language-model server answers 200, at the first attempt
  or at the second after a failure or another status, and sends an event stream, the tokens passed
  on are exactly those of the stream, in order, up to its end mark.
\<close>

theorem generate_streams_tokens:
  assumes "list_all (payload_ok decode enc) tokens"
    and "first = LlmAnswered 200 (sse_body enc tokens) \<or>
      (first = LlmFailed e \<or> first = LlmAnswered 503 x) \<and> retry = LlmAnswered 200 (sse_body enc tokens)"
  shows "openai_Generate decode first retry = Inr tokens"
  using assms(2) by (auto simp: openai_Generate_def sse_body_tokens[OF assms(1)])

theorem generate_streams_tokens_witness:
  "openai_Generate (\<lambda>p. Some [p]) (LlmAnswered 503 '''') (LlmAnswered 200 (sse_body (\<lambda>t. t) [''yes'', '' no''])) =
    Inr [''yes'', '' no'']"
  by (rule generate_streams_tokens[where x = "''''"]) (simp_all add: payload_ok_def maxLine_def)

subsection \<open>Recognition and turn detection\<close>

text \<open>A message of the recogniser, decoded; \<open>Whisper.readLoop\<close> skips what it does not know.\<close>

record whisper_msg =
  wm_Type :: string
  wm_Text :: string

definition whisper_event :: "whisper_msg option \<Rightarrow> asr_event option" where
  "whisper_event m =
     (case m of
        None \<Rightarrow> None
      | Some w \<Rightarrow>
          (if wm_Type w = ''speech_start'' then Some \<lparr>ev_Kind = ASRSpeechStarted, ev_Text = ''''\<rparr>
           else if wm_Type w = ''partial'' then Some \<lparr>ev_Kind = ASRPartial, ev_Text = wm_Text w\<rparr>
           else if wm_Type w = ''final'' then Some \<lparr>ev_Kind = ASRFinal, ev_Text = wm_Text w\<rparr>
           else None))"

definition whisper_readLoop :: "('m \<Rightarrow> whisper_msg option) \<Rightarrow> 'm list \<Rightarrow> asr_event list" where
  "whisper_readLoop decode ms = List.map_filter (\<lambda>m. whisper_event (decode m)) ms"

definition whisperRate :: int where
  "whisperRate = 16000"

text \<open>\<open>Whisper.Write\<close>: the bytes of one binary message; \<open>None\<close> is a panic of the resampler.\<close>

definition whisper_Write :: "i16 list \<Rightarrow> bytes option" where
  "whisper_Write pcm = map_option ToBytes (ResampleLinear pcm 48000 whisperRate)"

text \<open>The recogniser gets every third sample of the microphone, little endian.\<close>

lemma whisper_write_decimates:
  "length pcm < 2 ^ 50 \<Longrightarrow>
    whisper_Write pcm = Some (ToBytes (map (\<lambda>i. pcm ! (3 * i)) [0..<length pcm div 3]))"
  using decimate_48k_16k[of pcm "[]"] by (simp add: whisper_Write_def whisperRate_def)

definition defaultPause :: duration where
  "defaultPause = 400 * millisecond"

text \<open>\<open>SuggestedPause\<close>: \<open>None\<close> when the request or the decoding fails; the product is that of \<open>int64\<close>.\<close>

definition SuggestedPause :: "int option \<Rightarrow> duration" where
  "SuggestedPause pauseMs =
     (case pauseMs of None \<Rightarrow> defaultPause | Some ms \<Rightarrow> sint (word_of_int (ms * millisecond) :: u64))"

lemma pause_in_range: "\<bar>ms\<bar> \<le> 9 * 10 ^ 12 \<Longrightarrow> SuggestedPause (Some ms) = ms * millisecond"
proof -
  assume "\<bar>ms\<bar> \<le> 9 * 10 ^ 12"
  then have "- (2 ^ 63) \<le> ms * millisecond" "ms * millisecond < 2 ^ 63" by (simp_all add: millisecond_def)
  then have "sint (word_of_int (ms * millisecond) :: u64) = ms * millisecond"
    by (subst sint_sbintrunc') (simp add: signed_take_bit_int_eq_self)
  then show ?thesis by (simp add: SuggestedPause_def)
qed

subsection \<open>The demo stages\<close>

definition fake_Generate :: "message list \<Rightarrow> string list" where
  "fake_Generate history =
     (let l = (if 0 < length history then ms_Text (last history) else '''') in [''you said: '' @ l])"

definition fake_event :: "nat \<Rightarrow> asr_event" where
  "fake_event n = \<lparr>ev_Kind = ASRFinal, ev_Text = ''demo turn '' @ format_nat n\<rparr>"

end
