(* ===== verification/Proxyconfig.thy ===== *)
theory Proxyconfig
  imports Intake Gemini Doubao Adaptive Stages Breaker
begin

text \<open>
  The configuration of the proxy process (\<open>cmd/proxy\<close>): the \<open>.env\<close> file, the flags, the YAML file
  and their precedence; the parts built from it; the order of shutdown.  The parsing of the command
  line by the package \<open>flag\<close>, and of YAML, is a parameter: the assignments and the decoded file are
  arguments.
\<close>

subsection \<open>The environment file\<close>

definition is_quote :: "char \<Rightarrow> bool" where
  "is_quote c = (c = CHR 0x22 \<or> c = CHR 0x27)"

text \<open>\<open>strings.Trim\<close> with the two quotes.\<close>

definition trim_quotes :: "string \<Rightarrow> string" where
  "trim_quotes s = rev (dropWhile is_quote (rev (dropWhile is_quote s)))"

definition setenv :: "string \<Rightarrow> string \<Rightarrow> (string \<rightharpoonup> string) \<Rightarrow> (string \<rightharpoonup> string)" where
  "setenv k v env =
     (if k = '''' \<or> CHR ''='' \<in> set k \<or> CHR 0x00 \<in> set k \<or> CHR 0x00 \<in> set v then env else env(k \<mapsto> v))"

definition dotenv_line :: "(string \<rightharpoonup> string) \<Rightarrow> string \<Rightarrow> (string \<rightharpoonup> string)" where
  "dotenv_line env raw =
     (let l = trim_space raw in
      if l = '''' \<or> has_prefix l ''#'' then env
      else
        (let l = (if has_prefix l ''export '' then drop 7 l else l) in
         case index_of l ''='' of
           None \<Rightarrow> env
         | Some i \<Rightarrow>
             (let k = trim_space (take i l); v = trim_quotes (trim_space (drop (i + 1) l)) in
              if env k = None then setenv k v env else env)))"

definition loadDotenv :: "string option \<Rightarrow> (string \<rightharpoonup> string) \<Rightarrow> (string \<rightharpoonup> string)" where
  "loadDotenv file env = (case file of None \<Rightarrow> env | Some body \<Rightarrow> foldl dotenv_line env (scan_lines body))"

text \<open>What the process was started with wins over the file, and the first line of the file over later ones.\<close>

lemma dotenv_line_keeps: "env k = Some v \<Longrightarrow> dotenv_line env l k = Some v"
  by (auto simp: dotenv_line_def setenv_def Let_def split: option.split)

lemma dotenv_keeps: "env k = Some v \<Longrightarrow> loadDotenv file env k = Some v"
proof -
  have "env k = Some v \<Longrightarrow> foldl dotenv_line env ls k = Some v" for ls env
    by (induction ls arbitrary: env) (simp_all add: dotenv_line_keeps)
  then show "env k = Some v \<Longrightarrow> loadDotenv file env k = Some v" by (simp add: loadDotenv_def split: option.split)
qed

subsection \<open>The flags\<close>

record breaker_args =
  ba_Base :: cb_config
  ba_Gemini :: cb_config
  ba_Doubao :: cb_config

record run_config =
  rc_Addr :: string
  rc_AdminAddr :: string
  rc_RedisAddr :: string
  rc_RLMax :: int
  rc_RLWindow :: duration
  rc_TrustProxy :: bool
  rc_SidechannelMode :: string
  rc_KafkaBrokers :: string
  rc_KafkaTopic :: string
  rc_ReplayURL :: string
  rc_ReplayTimeout :: duration
  rc_ReplayLimit :: int
  rc_ModelCBEnable :: bool
  rc_ModelCB :: breaker_args
  rc_OpusComplexity :: int
  rc_AdaptiveMode :: string
  rc_Cascade :: cascade_config
  rc_GeminiSystemPrompt :: string
  rc_GeminiTools :: "function_declaration list"
  rc_Doubao :: doubao_config

definition cb_zero :: cb_config where
  "cb_zero = \<lparr>OpenAfter = 0, OpenFor = 0, HalfOpenSuccess = 0, AuthOpenFor = 0\<rparr>"

text \<open>The defaults of the flags; the fields without a flag are zero.\<close>

definition flag_defaults :: run_config where
  "flag_defaults =
     \<lparr>rc_Addr = '':8080'', rc_AdminAddr = '''', rc_RedisAddr = '''', rc_RLMax = 10, rc_RLWindow = minute,
      rc_TrustProxy = False, rc_SidechannelMode = ''off'', rc_KafkaBrokers = '''', rc_KafkaTopic = ''transcripts'',
      rc_ReplayURL = '''', rc_ReplayTimeout = 300 * millisecond, rc_ReplayLimit = 100,
      rc_ModelCBEnable = True,
      rc_ModelCB =
        \<lparr>ba_Base = \<lparr>OpenAfter = 5, OpenFor = 30 * second, HalfOpenSuccess = 3, AuthOpenFor = 5 * minute\<rparr>,
         ba_Gemini = cb_zero, ba_Doubao = cb_zero\<rparr>,
      rc_OpusComplexity = - 1, rc_AdaptiveMode = ''off'',
      rc_Cascade =
        \<lparr>cc_WhisperURL = ''ws://localhost:9000/v1/audio/transcriptions/streaming'',
         cc_LLMURL = ''http://localhost:8000'', cc_LLMModel = ''Qwen3.5-9B'',
         cc_TTSURL = ''http://localhost:8020'', cc_TTSSpeaker = '''', cc_TTSLang = ''en'',
         cc_TurnDetectURL = '''', cc_System = ''You are a helpful voice assistant.''\<rparr>,
      rc_GeminiSystemPrompt = '''', rc_GeminiTools = [],
      rc_Doubao =
        \<lparr>dc_ModelVersion = '''', dc_BotName = '''', dc_SystemRole = '''', dc_SpeakingStyle = '''', dc_Voice = '''',
         dc_ASRTwopass = False, dc_ASREndSmoothMs = 0, dc_Hotwords = []\<rparr>\<rparr>"

text \<open>The assignments of the command line, in order, as \<open>flag.Parse\<close> makes them.\<close>

datatype flag_value = FlagString string | FlagInt int | FlagDuration duration | FlagBool bool

type_synonym flag_setting = "string \<times> flag_value"

definition upd_cascade :: "(cascade_config \<Rightarrow> cascade_config) \<Rightarrow> run_config \<Rightarrow> run_config" where
  "upd_cascade f c = c\<lparr>rc_Cascade := f (rc_Cascade c)\<rparr>"

definition upd_breakers :: "(breaker_args \<Rightarrow> breaker_args) \<Rightarrow> run_config \<Rightarrow> run_config" where
  "upd_breakers f c = c\<lparr>rc_ModelCB := f (rc_ModelCB c)\<rparr>"

definition string_flag :: "string \<Rightarrow> string \<Rightarrow> run_config \<Rightarrow> run_config" where
  "string_flag name v c =
     (if name = ''addr'' then c\<lparr>rc_Addr := v\<rparr>
      else if name = ''redis'' then c\<lparr>rc_RedisAddr := v\<rparr>
      else if name = ''sidechannel'' then c\<lparr>rc_SidechannelMode := v\<rparr>
      else if name = ''kafka'' then c\<lparr>rc_KafkaBrokers := v\<rparr>
      else if name = ''kafka-topic'' then c\<lparr>rc_KafkaTopic := v\<rparr>
      else if name = ''replay-url'' then c\<lparr>rc_ReplayURL := v\<rparr>
      else if name = ''admin'' then c\<lparr>rc_AdminAddr := v\<rparr>
      else if name = ''adaptive'' then c\<lparr>rc_AdaptiveMode := v\<rparr>
      else if name = ''cascade-whisper'' then upd_cascade (\<lambda>x. x\<lparr>cc_WhisperURL := v\<rparr>) c
      else if name = ''cascade-llm'' then upd_cascade (\<lambda>x. x\<lparr>cc_LLMURL := v\<rparr>) c
      else if name = ''cascade-llm-model'' then upd_cascade (\<lambda>x. x\<lparr>cc_LLMModel := v\<rparr>) c
      else if name = ''cascade-tts'' then upd_cascade (\<lambda>x. x\<lparr>cc_TTSURL := v\<rparr>) c
      else if name = ''cascade-tts-speaker'' then upd_cascade (\<lambda>x. x\<lparr>cc_TTSSpeaker := v\<rparr>) c
      else if name = ''cascade-tts-lang'' then upd_cascade (\<lambda>x. x\<lparr>cc_TTSLang := v\<rparr>) c
      else if name = ''cascade-turndetect'' then upd_cascade (\<lambda>x. x\<lparr>cc_TurnDetectURL := v\<rparr>) c
      else if name = ''cascade-system'' then upd_cascade (\<lambda>x. x\<lparr>cc_System := v\<rparr>) c
      else c)"

definition int_flag :: "string \<Rightarrow> int \<Rightarrow> run_config \<Rightarrow> run_config" where
  "int_flag name v c =
     (if name = ''rl-max'' then c\<lparr>rc_RLMax := v\<rparr>
      else if name = ''replay-limit'' then c\<lparr>rc_ReplayLimit := v\<rparr>
      else if name = ''opus-complexity'' then c\<lparr>rc_OpusComplexity := v\<rparr>
      else if name = ''model-cb-open-after'' then upd_breakers (\<lambda>b. b\<lparr>ba_Base := (ba_Base b)\<lparr>OpenAfter := v\<rparr>\<rparr>) c
      else if name = ''model-cb-half-open-success'' then upd_breakers (\<lambda>b. b\<lparr>ba_Base := (ba_Base b)\<lparr>HalfOpenSuccess := v\<rparr>\<rparr>) c
      else if name = ''model-cb-open-after-gemini'' then upd_breakers (\<lambda>b. b\<lparr>ba_Gemini := (ba_Gemini b)\<lparr>OpenAfter := v\<rparr>\<rparr>) c
      else if name = ''model-cb-half-open-success-gemini'' then upd_breakers (\<lambda>b. b\<lparr>ba_Gemini := (ba_Gemini b)\<lparr>HalfOpenSuccess := v\<rparr>\<rparr>) c
      else if name = ''model-cb-open-after-doubao'' then upd_breakers (\<lambda>b. b\<lparr>ba_Doubao := (ba_Doubao b)\<lparr>OpenAfter := v\<rparr>\<rparr>) c
      else if name = ''model-cb-half-open-success-doubao'' then upd_breakers (\<lambda>b. b\<lparr>ba_Doubao := (ba_Doubao b)\<lparr>HalfOpenSuccess := v\<rparr>\<rparr>) c
      else c)"

definition duration_flag :: "string \<Rightarrow> duration \<Rightarrow> run_config \<Rightarrow> run_config" where
  "duration_flag name v c =
     (if name = ''rl-window'' then c\<lparr>rc_RLWindow := v\<rparr>
      else if name = ''replay-timeout'' then c\<lparr>rc_ReplayTimeout := v\<rparr>
      else if name = ''model-cb-open-for'' then upd_breakers (\<lambda>b. b\<lparr>ba_Base := (ba_Base b)\<lparr>OpenFor := v\<rparr>\<rparr>) c
      else if name = ''model-cb-auth-open-for'' then upd_breakers (\<lambda>b. b\<lparr>ba_Base := (ba_Base b)\<lparr>AuthOpenFor := v\<rparr>\<rparr>) c
      else if name = ''model-cb-open-for-gemini'' then upd_breakers (\<lambda>b. b\<lparr>ba_Gemini := (ba_Gemini b)\<lparr>OpenFor := v\<rparr>\<rparr>) c
      else if name = ''model-cb-auth-open-for-gemini'' then upd_breakers (\<lambda>b. b\<lparr>ba_Gemini := (ba_Gemini b)\<lparr>AuthOpenFor := v\<rparr>\<rparr>) c
      else if name = ''model-cb-open-for-doubao'' then upd_breakers (\<lambda>b. b\<lparr>ba_Doubao := (ba_Doubao b)\<lparr>OpenFor := v\<rparr>\<rparr>) c
      else if name = ''model-cb-auth-open-for-doubao'' then upd_breakers (\<lambda>b. b\<lparr>ba_Doubao := (ba_Doubao b)\<lparr>AuthOpenFor := v\<rparr>\<rparr>) c
      else c)"

definition bool_flag :: "string \<Rightarrow> bool \<Rightarrow> run_config \<Rightarrow> run_config" where
  "bool_flag name v c =
     (if name = ''trust-proxy'' then c\<lparr>rc_TrustProxy := v\<rparr>
      else if name = ''model-cb'' then c\<lparr>rc_ModelCBEnable := v\<rparr>
      else c)"

fun apply_flag :: "run_config \<Rightarrow> flag_setting \<Rightarrow> run_config" where
  "apply_flag c (name, FlagString v) = string_flag name v c"
| "apply_flag c (name, FlagInt v) = int_flag name v c"
| "apply_flag c (name, FlagDuration v) = duration_flag name v c"
| "apply_flag c (name, FlagBool v) = bool_flag name v c"

definition parseFlags :: "flag_setting list \<Rightarrow> run_config \<times> (string \<Rightarrow> bool)" where
  "parseFlags args = (foldl apply_flag flag_defaults args, \<lambda>name. name \<in> set (map fst args))"

text \<open>Where the configuration file is looked for.\<close>

fun given :: "flag_setting list \<Rightarrow> string \<Rightarrow> string option" where
  "given [] name = None"
| "given ((n, v) # args) name =
     (case given args name of
        Some x \<Rightarrow> Some x
      | None \<Rightarrow> (if n = name then (case v of FlagString x \<Rightarrow> Some x | _ \<Rightarrow> None) else None))"

definition configPath :: "flag_setting list \<Rightarrow> string" where
  "configPath args = (case given args ''config'' of Some p \<Rightarrow> p | None \<Rightarrow> ''proxy.yaml'')"

subsection \<open>The configuration file\<close>

record file_config =
  fl_GeminiSystemPrompt :: string
  fl_GeminiTools :: "function_declaration list"
  fl_Doubao :: doubao_config
  fl_CascadeSystemPrompt :: string
  fl_CascadeTTSSpeaker :: string
  fl_CascadeTTSLang :: string
  fl_CascadeLLMModel :: string

datatype file_read = FileMissing | FileUnreadable go_error | FileBroken go_error | FileParsed file_config

definition file_or :: "(string \<Rightarrow> bool) \<Rightarrow> string \<Rightarrow> string \<Rightarrow> string \<Rightarrow> string" where
  "file_or setFlags name file_value current =
     (if \<not> setFlags name \<and> file_value \<noteq> '''' then file_value else current)"

definition applyConfigFile :: "string \<Rightarrow> file_read \<Rightarrow> run_config \<Rightarrow> (string \<Rightarrow> bool) \<Rightarrow> go_error + run_config" where
  "applyConfigFile path file cfg setFlags =
     (case file of
        FileMissing \<Rightarrow> Inr cfg
      | FileUnreadable e \<Rightarrow> Inl (''read '' @ path @ '': '' @ e)
      | FileBroken e \<Rightarrow> Inl (''parse '' @ path @ '': '' @ e)
      | FileParsed fc \<Rightarrow>
          Inr (upd_cascade
            (\<lambda>x. x\<lparr>cc_System := file_or setFlags ''cascade-system'' (fl_CascadeSystemPrompt fc) (cc_System x),
                   cc_TTSSpeaker := file_or setFlags ''cascade-tts-speaker'' (fl_CascadeTTSSpeaker fc) (cc_TTSSpeaker x),
                   cc_TTSLang := file_or setFlags ''cascade-tts-lang'' (fl_CascadeTTSLang fc) (cc_TTSLang x),
                   cc_LLMModel := file_or setFlags ''cascade-llm-model'' (fl_CascadeLLMModel fc) (cc_LLMModel x)\<rparr>)
            (cfg\<lparr>rc_GeminiSystemPrompt := fl_GeminiSystemPrompt fc, rc_GeminiTools := fl_GeminiTools fc,
                 rc_Doubao := fl_Doubao fc\<rparr>)))"

text \<open>The precedence that is promised.\<close>

definition chosen :: "flag_setting list \<Rightarrow> string \<Rightarrow> string \<Rightarrow> string \<Rightarrow> string" where
  "chosen args name file_value default' =
     (case given args name of Some v \<Rightarrow> v | None \<Rightarrow> if file_value \<noteq> '''' then file_value else default')"

definition cascade_flags :: "string list" where
  "cascade_flags = [''cascade-system'', ''cascade-tts-speaker'', ''cascade-tts-lang'', ''cascade-llm-model'']"

definition typed_args :: "flag_setting list \<Rightarrow> bool" where
  "typed_args args \<longleftrightarrow> list_all (\<lambda>(n, v). n \<in> set cascade_flags \<longrightarrow> (\<exists>x. v = FlagString x)) args"

lemma string_flag_cascade:
  "cc_System (rc_Cascade (string_flag n v c)) = (if n = ''cascade-system'' then v else cc_System (rc_Cascade c))"
  "cc_TTSSpeaker (rc_Cascade (string_flag n v c)) = (if n = ''cascade-tts-speaker'' then v else cc_TTSSpeaker (rc_Cascade c))"
  "cc_TTSLang (rc_Cascade (string_flag n v c)) = (if n = ''cascade-tts-lang'' then v else cc_TTSLang (rc_Cascade c))"
  "cc_LLMModel (rc_Cascade (string_flag n v c)) = (if n = ''cascade-llm-model'' then v else cc_LLMModel (rc_Cascade c))"
  by (simp_all add: string_flag_def upd_cascade_def)

lemma other_flags_cascade [simp]:
  "rc_Cascade (int_flag n i c) = rc_Cascade c" "rc_Cascade (duration_flag n d c) = rc_Cascade c"
  "rc_Cascade (bool_flag n b c) = rc_Cascade c"
  by (simp_all add: int_flag_def duration_flag_def bool_flag_def upd_breakers_def)

text \<open>What the fold over the command line leaves in a cascade field: the last value, or what was there.\<close>

lemma apply_flags_cascade:
  assumes "\<And>n v c. f (rc_Cascade (string_flag n v c)) = (if n = name then v else f (rc_Cascade c))"
  shows "f (rc_Cascade (foldl apply_flag c args)) = (case given args name of Some v \<Rightarrow> v | None \<Rightarrow> f (rc_Cascade c))"
proof (induction args arbitrary: c)
  case (Cons a args)
  obtain n v where a: "a = (n, v)" by fastforce
  show ?case using Cons[of "apply_flag c a"] by (cases v) (auto simp: a assms split: option.split)
qed simp

lemma given_set:
  assumes "name \<in> set cascade_flags" and "typed_args args"
  shows "given args name = None \<longleftrightarrow> name \<notin> set (map fst args)"
  using assms(2)
proof (induction args)
  case (Cons a args)
  obtain n v where a: "a = (n, v)" by fastforce
  show ?case using Cons assms(1) by (auto simp: a typed_args_def split: option.split)
qed simp

lemma file_or_chosen:
  assumes "\<And>n v c. f (rc_Cascade (string_flag n v c)) = (if n = name then v else f (rc_Cascade c))"
    and "name \<in> set cascade_flags" and "typed_args args"
  shows "file_or (snd (parseFlags args)) name x (f (rc_Cascade (fst (parseFlags args)))) =
    chosen args name x (f (rc_Cascade flag_defaults))"
proof -
  have "snd (parseFlags args) name \<longleftrightarrow> given args name \<noteq> None"
    using given_set[OF assms(2,3)] by (simp add: parseFlags_def)
  moreover have "f (rc_Cascade (fst (parseFlags args))) =
      (case given args name of Some v \<Rightarrow> v | None \<Rightarrow> f (rc_Cascade flag_defaults))"
    unfolding parseFlags_def fst_conv by (rule apply_flags_cascade[OF assms(1)])
  ultimately show ?thesis by (auto simp: file_or_def chosen_def split: option.split)
qed

text \<open>
  Precedence of the configuration.  For the settings that have a flag and an entry in the file,
  the flag wins when it is on the command line, even with the empty string; then the file, where it
  says something; then the default.  The provider settings come from the file alone, and a missing
  file leaves the flags as they are.
\<close>

lemma config_precedence:
  assumes "typed_args args"
  shows "\<exists>cfg. applyConfigFile path (FileParsed fc) (fst (parseFlags args)) (snd (parseFlags args)) = Inr cfg \<and>
    cc_System (rc_Cascade cfg) = chosen args ''cascade-system'' (fl_CascadeSystemPrompt fc) ''You are a helpful voice assistant.'' \<and>
    cc_TTSSpeaker (rc_Cascade cfg) = chosen args ''cascade-tts-speaker'' (fl_CascadeTTSSpeaker fc) '''' \<and>
    cc_TTSLang (rc_Cascade cfg) = chosen args ''cascade-tts-lang'' (fl_CascadeTTSLang fc) ''en'' \<and>
    cc_LLMModel (rc_Cascade cfg) = chosen args ''cascade-llm-model'' (fl_CascadeLLMModel fc) ''Qwen3.5-9B'' \<and>
    rc_GeminiSystemPrompt cfg = fl_GeminiSystemPrompt fc \<and> rc_Doubao cfg = fl_Doubao fc \<and>
    applyConfigFile path FileMissing (fst (parseFlags args)) (snd (parseFlags args)) = Inr (fst (parseFlags args))"
proof -
  note pick = file_or_chosen[OF _ _ assms]
  show ?thesis
    by (simp add: applyConfigFile_def upd_cascade_def pick[OF string_flag_cascade(1)] pick[OF string_flag_cascade(2)]
        pick[OF string_flag_cascade(3)] pick[OF string_flag_cascade(4)] cascade_flags_def flag_defaults_def)
qed

subsection \<open>The parts of the process\<close>

text \<open>What \<open>runProxy\<close> hands to the offer handler.\<close>

definition proxy_replay :: "run_config \<Rightarrow> replay_config" where
  "proxy_replay cfg =
     \<lparr>rp_Enabled = (rc_ReplayURL cfg \<noteq> ''''), rp_Timeout = rc_ReplayTimeout cfg, rp_Limit = rc_ReplayLimit cfg\<rparr>"

definition proxy_gemini :: "string \<Rightarrow> run_config \<Rightarrow> gemini_config" where
  "proxy_gemini vad_env cfg =
     \<lparr>gc_SystemPrompt = rc_GeminiSystemPrompt cfg, gc_VAD = EnvVAD vad_env, gc_Tools = rc_GeminiTools cfg\<rparr>"

definition proxy_factory :: "run_config \<Rightarrow> factory" where
  "proxy_factory cfg =
     \<lparr>fc_Cascade = rc_Cascade cfg, fc_GeminiSystem = rc_GeminiSystemPrompt cfg,
      fc_DoubaoSystem = dc_SystemRole (rc_Doubao cfg)\<rparr>"

definition newModelBreakers :: "bool \<Rightarrow> breaker_args \<Rightarrow> manager option" where
  "newModelBreakers enabled args =
     (if \<not> enabled then None
      else Some (Manager_New (ba_Base args) [''gemini'' \<mapsto> ba_Gemini args, ''doubao'' \<mapsto> ba_Doubao args]))"

text \<open>\<open>log.Fatalf\<close> ends the process: \<open>Inl\<close>.\<close>

definition newPublisher :: "(string list \<Rightarrow> string \<Rightarrow> go_error option) \<Rightarrow> string \<Rightarrow> string \<Rightarrow> string \<Rightarrow> go_error + publisher option" where
  "newPublisher dial mode brokers topic =
     (if mode = ''off'' then Inr None
      else if mode = ''stdout'' then Inr (Some StdoutPublisher)
      else if mode = ''kafka'' then
        (case dial (split_on CHR '','' brokers) topic of
           Some e \<Rightarrow> Inl (''sidechannel kafka: '' @ e)
         | None \<Rightarrow> Inr (Some KafkaPublisher))
      else Inl (''unknown -sidechannel '' @ mode @ '' (want off|stdout|kafka)''))"

datatype adaptive_choice = NoAdaptive | AdaptiveSessions session_controller | AdaptiveDrift drift_controller

definition newAdaptive :: "string \<Rightarrow> (string \<times> u64) list \<Rightarrow> go_error + adaptive_choice" where
  "newAdaptive mode buckets =
     (if mode = ''off'' then Inr NoAdaptive
      else if mode = ''sessions'' then
        Inr (AdaptiveSessions (the (NewSession adaptive_comps adaptive_downAt adaptive_upAt)))
      else if mode = ''drift'' then
        Inr (AdaptiveDrift (the (NewDrift buckets adaptive_comps (fl (1 / 10)) (fl (3 / 100)) 4)))
      else Inl (''unknown -adaptive '' @ mode @ '' (want off|sessions|drift)''))"

text \<open>Both controllers of the process start well formed.\<close>

lemma newAdaptive_ok:
  "newAdaptive ''sessions'' b = Inr (AdaptiveSessions c) \<Longrightarrow> session_ok c \<and> hysteresis c"
  "newAdaptive ''drift'' b = Inr (AdaptiveDrift d) \<Longrightarrow> drift_ok 0 d \<and> dc_dwell d = 4"
  using demo_session_ok
  by (auto simp: newAdaptive_def demo_session_def NewDrift_def drift_ok_def entry_def adaptive_comps_def)

text \<open>
  An override of a provider applies field by field: a positive value replaces the base's, anything
  else keeps it; the providers without overrides share the base.
\<close>

lemma overrides_by_field:
  assumes "newModelBreakers True args = Some m" and "cfg = ba_Gemini args" and "base = Breaker.normalize (ba_Base args)"
  shows "\<exists>b. mg_provider m ''gemini'' = Some b \<and>
    OpenAfter (bk_cfg b) = (if 0 < OpenAfter cfg then OpenAfter cfg else OpenAfter base) \<and>
    AuthOpenFor (bk_cfg b) = (if 0 < AuthOpenFor cfg then AuthOpenFor cfg else AuthOpenFor base)"
  using assms by (auto simp: newModelBreakers_def Manager_New_def new_breaker_def merge_config_def Breaker.normalize_def Let_def)

subsection \<open>Shutdown\<close>

text \<open>
  After the signal one goroutine runs \<open>gracefulShutdown\<close>: it stops the server, closes all sessions,
  closes the publisher.  \<open>ListenAndServe\<close> returns as soon as the server is stopping, \<open>runProxy\<close>
  returns, and with \<open>main\<close> the process ends.  \<open>pr_pos\<close> counts what \<open>gracefulShutdown\<close> has done.
\<close>

record process =
  pr_signalled :: bool
  pr_stopping :: bool
  pr_sessionsClosed :: bool
  pr_publisherClosed :: bool
  pr_exited :: bool

datatype process_event = Signal | StopServer | CloseSessions | ClosePublisher | MainReturns

fun process_step :: "process \<Rightarrow> process_event \<Rightarrow> process" where
  "process_step p Signal = (if pr_exited p then p else p\<lparr>pr_signalled := True\<rparr>)"
| "process_step p StopServer = (if pr_signalled p \<and> \<not> pr_exited p then p\<lparr>pr_stopping := True\<rparr> else p)"
| "process_step p CloseSessions = (if pr_stopping p \<and> \<not> pr_exited p then p\<lparr>pr_sessionsClosed := True\<rparr> else p)"
| "process_step p ClosePublisher = (if pr_sessionsClosed p \<and> \<not> pr_exited p then p\<lparr>pr_publisherClosed := True\<rparr> else p)"
| "process_step p MainReturns = (if pr_stopping p then p\<lparr>pr_exited := True\<rparr> else p)"

definition process_start :: process where
  "process_start = \<lparr>pr_signalled = False, pr_stopping = False, pr_sessionsClosed = False, pr_publisherClosed = False,
     pr_exited = False\<rparr>"

definition ordered_shutdown :: "process \<Rightarrow> bool" where
  "ordered_shutdown p \<longleftrightarrow> (pr_publisherClosed p \<longrightarrow> pr_sessionsClosed p) \<and> (pr_sessionsClosed p \<longrightarrow> pr_stopping p)"

interpretation shutdown: machine process_step ordered_shutdown
proof
  fix p e show "ordered_shutdown p \<Longrightarrow> ordered_shutdown (process_step p e)" by (cases e) (auto simp: ordered_shutdown_def)
qed

text \<open>The publisher is closed only after the sessions, and those only once no new offer can come.\<close>

lemma publisher_closed_last: "ordered_shutdown (run process_step process_start es)"
  by (rule shutdown.run_inv) (simp add: ordered_shutdown_def process_start_def)

text \<open>But nothing waits for it: the process may end with every session open and the publisher's queue unsent.\<close>

lemma exit_before_sessions_closed:
  "\<exists>es. pr_exited (run process_step process_start es) \<and> \<not> pr_sessionsClosed (run process_step process_start es)"
  by (rule exI[of _ "[Signal, StopServer, MainReturns]"]) (simp add: process_start_def)

end
