(* ===== verification/Proxyprocess.thy ===== *)
theory Proxyprocess
  imports Proxyconfig Recovery Bridge
begin

text \<open>
  The proxy process as a whole, \<open>cmd/proxy/root.go\<close>: how \<open>runProxy\<close> builds the components from the
  configuration, the routes of its server, the report of the admin server, and the state that offers,
  sessions and telemetry share.  The components are those of their theories; the Redis server, the
  Kafka client and the HTTP transport of the replay client are parameters.
\<close>

subsection \<open>Building the process\<close>

text \<open>\<open>HandlerFields.Build\<close>: no replay observer is given, so offers use the metrics.\<close>

record 'r offer_handler =
  hd_intake :: "'r intake"
  hd_TrustProxy :: bool
  hd_Models :: factory

definition Build ::
  "'r limiter \<Rightarrow> publisher option \<Rightarrow> replayer option \<Rightarrow> memory_provider option \<Rightarrow> replay_config \<Rightarrow> factory
     \<Rightarrow> bool \<Rightarrow> 'r offer_handler" where
  "Build limiter pub replayIndex mem replay models trustProxy =
     \<lparr>hd_intake =
        \<lparr>it_Limiter = limiter, it_Publisher = pub, it_ReplayIndex = replayIndex, it_Memory = mem,
         it_Replay = replay, it_NilObserver = True\<rparr>,
      hd_TrustProxy = trustProxy, hd_Models = models\<rparr>"

text \<open>What the process finds outside: clients of Redis and Kafka, the transport, the codec registrations.\<close>

record 'r outside =
  os_redis :: "'r redis"
  os_redisState :: 'r
  os_kafka :: "string list \<Rightarrow> string \<Rightarrow> go_error option"
  os_http :: "string \<Rightarrow> query \<Rightarrow> go_error + http_reply"
  os_deadline :: "go_error \<Rightarrow> bool"
  os_registerCodec :: "go_error option"
  os_registerInterceptors :: "go_error option"

record 'r proxy =
  px_handler :: "'r offer_handler"
  px_world :: "'r world"
  px_adaptive :: adaptive_choice
  px_complexity :: int
  px_media :: media_config
  px_adminAddr :: "string option"

definition runProxy :: "'r outside \<Rightarrow> run_config \<Rightarrow> go_error + 'r proxy" where
  "runProxy os cfg =
     (case newPublisher (os_kafka os) (rc_SidechannelMode cfg) (rc_KafkaBrokers cfg) (rc_KafkaTopic cfg) of
        Inl err \<Rightarrow> Inl err
      | Inr pub \<Rightarrow>
     (let limiter = Limiter_New (rc_RedisAddr cfg) (os_redis os) (rc_RLMax cfg) (rc_RLWindow cfg);
          replayIndex = (if rc_ReplayURL cfg \<noteq> ''''
            then Some (client_replayer (os_http os) (os_deadline os) (Some (NewReplayClient (rc_ReplayURL cfg))))
            else None);
          breakers = newModelBreakers (rc_ModelCBEnable cfg) (rc_ModelCB cfg) in
      case hub_api (os_registerCodec os) (os_registerInterceptors os) '''' of
        Inl err \<Rightarrow> Inl err
      | Inr media \<Rightarrow>
     (case newAdaptive (rc_AdaptiveMode cfg) (FrameIntervalBuckets metrics_zero) of
        Inl err \<Rightarrow> Inl err
      | Inr adaptiveCtl \<Rightarrow>
          Inr \<lparr>px_handler = Build limiter pub replayIndex None (proxy_replay cfg) (proxy_factory cfg) (rc_TrustProxy cfg),
               px_world = \<lparr>wd_guard = breakers, wd_hub = NewHub, wd_redis = os_redisState os, wd_metrics = metrics_zero\<rparr>,
               px_adaptive = adaptiveCtl, px_complexity = rc_OpusComplexity cfg, px_media = media,
               px_adminAddr = (if rc_AdminAddr cfg \<noteq> '''' then Some (rc_AdminAddr cfg) else None)\<rparr>)))"

subsection \<open>The routes\<close>

text \<open>
  The cleaned path of \<open>http.ServeMux\<close>: rooted, without empty and \<open>.\<close> segments, with \<open>..\<close> resolved; a
  trailing slash stays.
\<close>

fun clean_segments :: "string list \<Rightarrow> string list \<Rightarrow> string list" where
  "clean_segments done [] = rev done"
| "clean_segments done (s # ss) =
     (if s = '''' \<or> s = ''.'' then clean_segments done ss
      else if s = ''..'' then clean_segments (tl done) ss
      else clean_segments (s # done) ss)"

definition cleanPath :: "string \<Rightarrow> string" where
  "cleanPath p =
     (case clean_segments [] (split_on CHR ''/'' p) of
        [] \<Rightarrow> ''/''
      | ss \<Rightarrow> concat (map (Cons CHR ''/'') ss) @ (if last p = CHR ''/'' then ''/'' else ''''))"

text \<open>
  The mux of the server: the demo's files (the file server is a library), everything else is an offer.  A
  request with a path that is not clean is redirected to the clean one, unless it is a \<open>CONNECT\<close>.
\<close>

datatype proxy_answer = DemoFile string | MovedTo string | Offered http_response

definition proxy_route ::
  "'r proxy \<Rightarrow> string \<Rightarrow> offer_env \<Rightarrow> http_request \<Rightarrow> 'r world \<Rightarrow> proxy_answer \<times> 'r world" where
  "proxy_route px path env r w =
     (let clean = (if hq_Method r = ''CONNECT'' then path else cleanPath path) in
      if clean = ''/demo'' then (MovedTo ''/demo/'', w)
      else if clean \<noteq> path then (MovedTo clean, w)
      else if has_prefix path ''/demo/'' then (DemoFile (drop 6 path), w)
      else (let (resp, w') = ServeHTTP (hd_intake (px_handler px)) (Some (Some DevVerifier_Verify))
                               (hd_TrustProxy (px_handler px)) env r w in (Offered resp, w')))"

lemma clean_path_examples:
  "cleanPath ''/'' = ''/''" "cleanPath '''' = ''/''" "cleanPath ''//demo/./x/..'' = ''/demo''" "cleanPath ''a/'' = ''/a/''"
  by (simp_all add: cleanPath_def)

subsection \<open>The admin report\<close>

record admin_stats =
  ad_goroutines :: nat
  ad_sessions :: nat
  ad_opus_complexity :: int
  ad_frame_interval :: "(string \<times> u64) list"
  ad_outbound_media :: "(string \<times> u64) list"
  ad_replay :: "(string \<times> replay_report) list"
  ad_model_cb :: "(string \<rightharpoonup> breaker_stats) option"
  ad_sidechannel_dropped :: u64

text \<open>Only the Kafka publisher has a \<open>Dropped\<close>.\<close>

definition serveAdmin ::
  "publisher option \<Rightarrow> kafka \<Rightarrow> nat \<Rightarrow> int \<Rightarrow> time \<Rightarrow> 'r world \<Rightarrow> admin_stats" where
  "serveAdmin pub k goroutines complexity now w =
     \<lparr>ad_goroutines = goroutines, ad_sessions = Count (wd_hub w), ad_opus_complexity = complexity,
      ad_frame_interval = FrameIntervalBuckets (wd_metrics w),
      ad_outbound_media = OutboundMediaStats (wd_metrics w),
      ad_replay = ReplayStats (wd_metrics w),
      ad_model_cb = map_option (\<lambda>m. Manager_Stats m now) (wd_guard w),
      ad_sidechannel_dropped = (if pub = Some KafkaPublisher then Kafka_Dropped k else 0)\<rparr>"

subsection \<open>The shared state stays well formed\<close>

definition world_ok :: "'r world \<Rightarrow> bool" where
  "world_ok w = (hub_ok (wd_hub w) \<and> guard_ok (wd_guard w) \<and> metrics_ok (wd_metrics w))"

lemma world_okD:
  "world_ok w \<Longrightarrow> hub_ok (wd_hub w)" "world_ok w \<Longrightarrow> guard_ok (wd_guard w)" "world_ok w \<Longrightarrow> metrics_ok (wd_metrics w)"
  by (simp_all add: world_ok_def)

lemma observe_ok: "metrics_ok m \<Longrightarrow> metrics_ok (observe o' m)"
  by (cases o') (simp_all add: observe_hit_ok observe_counter_ok)

lemma fold_observe_ok: "metrics_ok m \<Longrightarrow> metrics_ok (fold observe obs m)"
  by (induction obs arbitrary: m) (simp_all add: observe_ok)

lemma guard_call_ok:
  assumes "guard_ok g"
  shows "guard_ok (snd (AllowDial g p now))" "guard_ok (RecordDial g p err now)"
    "guard_ok (RecordStreamFault g p start produced err now)"
  using guard_step_ok[OF assms, of "EvAllow p now"] guard_step_ok[OF assms, of "EvRecord p err now"]
    guard_step_ok[OF assms, of "EvStream p start produced err now"] by simp_all

lemma Serve_ok:
  assumes "hub_ok h" and "Serve env t m info h = (x, effects, h')"
  shows "hub_ok h'"
proof -
  let ?h1 = "snd (newSessionScope (new_session t info) h)" and ?a = "length (hb_scopes h)"
  have h1: "hub_ok ?h1" by (rule newSessionScope_ok[OF assms(1)])
  have a: "?a < length (hb_scopes ?h1)" "\<not> sc_done (hb_scopes ?h1 ! ?a)" by (simp_all add: newSessionScope_def)
  show ?thesis
    using assms(2) assms(1) scope_Close_ok[OF h1 a(1)] scope_commit_ok[OF h1 a]
    unfolding Serve_eq by (auto split: option.splits)
qed

lemma resolve_ok:
  assumes "hub_ok h" and "offer_resolve it env req provider headers h = (res, obs, h')"
  shows "hub_ok h'"
  using resolve_conns[OF assms(2)] assms(1) Resume_ok by auto

lemma offer_metrics:
  assumes "ServeOffer it env req w = (r, w')" and "metrics_ok (wd_metrics w)"
  shows "metrics_ok (wd_metrics w')"
proof -
  have "wd_metrics w' = wd_metrics w \<or> (\<exists>obs. wd_metrics w' = fold observe obs (wd_metrics w))"
    using assms(1) by (auto simp: ServeOffer_def Let_def split: prod.splits if_splits sum.splits)
  then show ?thesis using assms(2) fold_observe_ok by metis
qed

lemma ServeOffer_ok:
  assumes "ServeOffer it env req w = (r, w')" and "world_ok w"
  shows "world_ok w'"
proof -
  note ok = world_okD[OF assms(2)]
  have "hub_ok (wd_hub w') \<and> guard_ok (wd_guard w')"
    using assms(1)
  proof (cases rule: ServeOffer_cases)
    case (circuit provider d)
    then show ?thesis using ok guard_call_ok(1)[OF ok(2), of provider "en_now env"] by simp
  next
    case (protocol provider headers d msg obs)
    then show ?thesis using ok guard_call_ok(1)[OF ok(2), of provider "en_now env"] resolve_ok[OF ok(1)] by auto
  next
    case (dial provider headers d guard replay obs e)
    then show ?thesis
      using ok guard_call_ok(1)[OF ok(2), of provider "en_now env"] guard_call_ok(2)[of guard] resolve_ok[OF ok(1)]
      by auto
  next
    case (served provider headers d guard replay obs hub m x effects)
    then have "hub_ok hub" using resolve_ok[OF ok(1)] by blast
    then have "hub_ok (wd_hub w')" using Serve_ok served(8) by blast
    then show ?thesis
      using served ok guard_call_ok(1)[OF ok(2), of provider "en_now env"] guard_call_ok(2)[of guard] by auto
  qed (use ok in simp_all)
  then show ?thesis using offer_metrics[OF assms(1) ok(3)] by (simp add: world_ok_def)
qed


text \<open>
  The process as a machine: requests to its server, what the sessions do to the hub, the stream faults
  they report and the telemetry of their pumps.  \<^const>\<open>None\<close>: a panic ended the process.
\<close>

datatype telemetry = FrameWritten | FrameInterval duration | PumpExit string

fun record_telemetry :: "telemetry \<Rightarrow> metrics \<Rightarrow> metrics" where
  "record_telemetry FrameWritten = RecordOutboundFrameWritten"
| "record_telemetry (FrameInterval d) = ObserveFrameInterval d"
| "record_telemetry (PumpExit reason) = RecordOutboundPumpExit reason"

datatype proxy_event =
    Request string offer_env http_request
  | Session "tap hub_event"
  | StreamFault string time bool "go_error option" time
  | Telemetry telemetry

fun proxy_step :: "'r proxy \<Rightarrow> 'r world option \<Rightarrow> proxy_event \<Rightarrow> 'r world option" where
  "proxy_step px None e = None"
| "proxy_step px (Some w) (Request path env r) = Some (snd (proxy_route px path env r w))"
| "proxy_step px (Some w) (Session e) =
     map_option (\<lambda>h. w\<lparr>wd_hub := h\<rparr>) (hub_step (Some (wd_hub w)) e)"
| "proxy_step px (Some w) (StreamFault p start produced err now) =
     Some (w\<lparr>wd_guard := RecordStreamFault (wd_guard w) p start produced err now\<rparr>)"
| "proxy_step px (Some w) (Telemetry t) = Some (w\<lparr>wd_metrics := record_telemetry t (wd_metrics w)\<rparr>)"

definition proxy_ok :: "'r world option \<Rightarrow> bool" where
  "proxy_ok s = (case s of None \<Rightarrow> True | Some w \<Rightarrow> world_ok w)"

lemma route_ok: "world_ok w \<Longrightarrow> world_ok (snd (proxy_route px path env r w))"
  by (auto simp: proxy_route_def ServeHTTP_def Let_def split: prod.splits sum.splits intro: ServeOffer_ok)

lemma proxy_step_ok:
  assumes "proxy_ok s"
  shows "proxy_ok (proxy_step px s e)"
proof (cases s)
  case (Some w)
  with assms have ok: "world_ok w" by (simp add: proxy_ok_def)
  note parts = world_okD[OF ok]
  show ?thesis
  proof (cases e)
    case (Request path env r)
    then show ?thesis using Some route_ok[OF ok] by (simp add: proxy_ok_def)
  next
    case (Session he)
    have "hub_state_ok (hub_step (Some (wd_hub w)) he)"
      using parts(1) by (intro hub_step_ok) (simp add: hub_state_ok_def)
    then show ?thesis using Session Some parts
      by (cases "hub_step (Some (wd_hub w)) he") (simp_all add: proxy_ok_def world_ok_def hub_state_ok_def)
  next
    case (StreamFault p start produced err now)
    then show ?thesis using Some parts guard_call_ok(3)[OF parts(2)] by (simp add: proxy_ok_def world_ok_def)
  next
    case (Telemetry t)
    then show ?thesis using Some parts
      by (cases t) (simp_all add: proxy_ok_def world_ok_def observe_counter_ok)
  qed
qed (simp add: proxy_ok_def)

interpretation proxy: machine "proxy_step px" proxy_ok
  by unfold_locales (rule proxy_step_ok)

lemma breakers_ok: "guard_ok (newModelBreakers enabled args)"
  by (simp add: newModelBreakers_def guard_ok_def Manager_New_ok)

lemma runProxy_world:
  assumes "runProxy os cfg = Inr px"
  shows "world_ok (px_world px)"
  using assms NewHub_ok metrics_zero_ok breakers_ok
  by (auto simp: runProxy_def Let_def world_ok_def split: sum.splits)

lemma runProxy_adaptive:
  assumes "runProxy os cfg = Inr px"
  shows "case px_adaptive px of NoAdaptive \<Rightarrow> True | AdaptiveSessions c \<Rightarrow> session_ok c \<and> hysteresis c
    | AdaptiveDrift d \<Rightarrow> drift_ok 0 d"
proof -
  obtain b where a: "newAdaptive (rc_AdaptiveMode cfg) b = Inr (px_adaptive px)"
    using assms by (auto simp: runProxy_def Let_def split: sum.splits)
  show ?thesis
  proof (cases "px_adaptive px")
    case (AdaptiveSessions c)
    then have "rc_AdaptiveMode cfg = ''sessions''" using a by (auto simp: newAdaptive_def split: if_splits)
    then show ?thesis using newAdaptive_ok(1)[of b c] a AdaptiveSessions by simp
  next
    case (AdaptiveDrift d)
    then have "rc_AdaptiveMode cfg = ''drift''" using a by (auto simp: newAdaptive_def split: if_splits)
    then show ?thesis using newAdaptive_ok(2)[of b d] a AdaptiveDrift by simp
  qed simp
qed

text \<open>
  C4: The process is well formed from the start and stays so.  Whatever configuration it starts with,
  and whatever requests, sessions, stream faults and telemetry follow in whatever order, as long as it
  lives: the registry holds only live committed sessions and every scope owns its model and connection
  (\<open>hub_ok\<close>), every breaker is within its thresholds (\<open>guard_ok\<close>), the metrics keep their shape and
  count one latency for each replay hit (\<open>metrics_ok\<close>); and the adaptive controller it runs was built
  with steps, thresholds and hysteresis that fit together.
\<close>

theorem process_well_formed:
  assumes "runProxy os cfg = Inr px" and "run (proxy_step px) (Some (px_world px)) es = Some w"
  shows "hub_ok (wd_hub w) \<and> guard_ok (wd_guard w) \<and> metrics_ok (wd_metrics w) \<and>
    (\<forall>c. px_adaptive px = AdaptiveSessions c \<longrightarrow> session_ok c \<and> hysteresis c) \<and>
    (\<forall>d. px_adaptive px = AdaptiveDrift d \<longrightarrow> drift_ok 0 d)"
proof -
  have "proxy_ok (run (proxy_step px) (Some (px_world px)) es)"
    by (rule proxy.run_inv) (simp add: proxy_ok_def runProxy_world[OF assms(1)])
  then have "world_ok w" using assms(2) by (simp add: proxy_ok_def)
  then show ?thesis using runProxy_adaptive[OF assms(1)] by (auto simp: world_ok_def split: adaptive_choice.splits)
qed

definition demo_outside :: "nat outside" where
  "demo_outside =
     \<lparr>os_redis = \<lparr>rd_INCR = (\<lambda>k n. (int n + 1, n + 1)), rd_EXPIRE = (\<lambda>k t n. n)\<rparr>, os_redisState = 0,
      os_kafka = (\<lambda>brokers topic. None), os_http = (\<lambda>url q. Inl ''unreachable''), os_deadline = (\<lambda>e. False),
      os_registerCodec = None, os_registerInterceptors = None\<rparr>"

theorem process_well_formed_witness:
  "\<exists>px w. runProxy demo_outside flag_defaults = Inr px \<and>
    run (proxy_step px) (Some (px_world px)) [Telemetry FrameWritten, Session (Shutdown 5)] = Some w \<and>
    hub_ok (wd_hub w) \<and> mx_framesWritten (wd_metrics w) = 1"
proof -
  obtain px where px: "runProxy demo_outside flag_defaults = Inr px"
    and w: "px_world px = \<lparr>wd_guard = newModelBreakers True (rc_ModelCB flag_defaults), wd_hub = NewHub,
      wd_redis = 0, wd_metrics = metrics_zero\<rparr>"
    by (simp add: runProxy_def newPublisher_def newAdaptive_def hub_api_def demo_outside_def flag_defaults_def)
  let ?w = "(px_world px)\<lparr>wd_metrics := RecordOutboundFrameWritten metrics_zero\<rparr>"
  have r: "run (proxy_step px) (Some (px_world px)) [Telemetry FrameWritten, Session (Shutdown 5)] = Some ?w"
    by (simp add: w CloseAll_def NewHub_def)
  have "mx_framesWritten (wd_metrics ?w) = 1" by (simp add: RecordOutboundFrameWritten_def metrics_zero_def)
  then show ?thesis using process_well_formed[OF px r] px r by blast
qed


subsection \<open>The program\<close>

text \<open>
  \<open>main\<close>: the environment file, the command line, the configuration file, then \<open>runProxy\<close>.  \<open>files\<close> is
  what reading and decoding a path gives; \<open>Inl\<close> is the message of \<open>log.Fatal\<close>.
\<close>

definition proxy_main ::
  "'r outside \<Rightarrow> (string \<Rightarrow> file_read) \<Rightarrow> string option \<Rightarrow> flag_setting list \<Rightarrow> (string \<rightharpoonup> string)
     \<Rightarrow> (go_error + 'r proxy) \<times> (string \<rightharpoonup> string)" where
  "proxy_main os files dotenv args env =
     (let env' = loadDotenv dotenv env;
          (cfg, setFlags) = parseFlags args;
          path = configPath args in
      (case applyConfigFile path (files path) cfg setFlags of
         Inl err \<Rightarrow> Inl (''config: '' @ err)
       | Inr cfg' \<Rightarrow> runProxy os cfg', env'))"

text \<open>A missing file says nothing.\<close>

definition no_file :: file_config where
  "no_file = \<lparr>fl_GeminiSystemPrompt = '''', fl_GeminiTools = [], fl_Doubao = rc_Doubao flag_defaults,
     fl_CascadeSystemPrompt = '''', fl_CascadeTTSSpeaker = '''', fl_CascadeTTSLang = '''', fl_CascadeLLMModel = ''''\<rparr>"

definition file_says :: "file_read \<Rightarrow> file_config option" where
  "file_says file = (case file of FileMissing \<Rightarrow> Some no_file | FileParsed fc \<Rightarrow> Some fc | _ \<Rightarrow> None)"

lemma runProxy_parts:
  assumes "runProxy os cfg = Inr px"
  shows "hd_Models (px_handler px) = proxy_factory cfg \<and>
    it_Limiter (hd_intake (px_handler px)) = Limiter_New (rc_RedisAddr cfg) (os_redis os) (rc_RLMax cfg) (rc_RLWindow cfg) \<and>
    it_Replay (hd_intake (px_handler px)) = proxy_replay cfg \<and>
    wd_guard (px_world px) = newModelBreakers (rc_ModelCBEnable cfg) (rc_ModelCB cfg)"
  using assms by (auto simp: runProxy_def Build_def Let_def split: sum.splits)

lemma flags_without_file:
  "rc_GeminiSystemPrompt (fst (parseFlags args)) = ''''" "rc_Doubao (fst (parseFlags args)) = rc_Doubao flag_defaults"
proof -
  have "rc_GeminiSystemPrompt (apply_flag c a) = rc_GeminiSystemPrompt c \<and> rc_Doubao (apply_flag c a) = rc_Doubao c" for c a
  proof -
    obtain n v where a: "a = (n, v)" by fastforce
    show ?thesis
      by (cases v) (simp_all add: a string_flag_def int_flag_def duration_flag_def bool_flag_def upd_cascade_def upd_breakers_def)
  qed
  then have "rc_GeminiSystemPrompt (foldl apply_flag c args) = rc_GeminiSystemPrompt c \<and>
      rc_Doubao (foldl apply_flag c args) = rc_Doubao c" for c
    by (induction args arbitrary: c) simp_all
  from this[of flag_defaults]
  show "rc_GeminiSystemPrompt (fst (parseFlags args)) = ''''" "rc_Doubao (fst (parseFlags args)) = rc_Doubao flag_defaults"
    by (simp_all add: parseFlags_def) (simp add: flag_defaults_def)
qed

text \<open>A setting that has a flag and an entry in the file.\<close>

lemma missing_file_chosen:
  assumes "\<And>n v c. f (rc_Cascade (string_flag n v c)) = (if n = name then v else f (rc_Cascade c))"
    and "name \<in> set cascade_flags" and "typed_args args"
  shows "f (rc_Cascade (fst (parseFlags args))) = chosen args name '''' (f (rc_Cascade flag_defaults))"
  using file_or_chosen[OF assms, of "''''"] by (simp add: file_or_def)

lemma configured:
  assumes "typed_args args" and "file_says file = Some fc"
  shows "\<exists>cfg. applyConfigFile path file (fst (parseFlags args)) (snd (parseFlags args)) = Inr cfg \<and>
    cc_System (rc_Cascade cfg) = chosen args ''cascade-system'' (fl_CascadeSystemPrompt fc) ''You are a helpful voice assistant.'' \<and>
    cc_TTSSpeaker (rc_Cascade cfg) = chosen args ''cascade-tts-speaker'' (fl_CascadeTTSSpeaker fc) '''' \<and>
    cc_TTSLang (rc_Cascade cfg) = chosen args ''cascade-tts-lang'' (fl_CascadeTTSLang fc) ''en'' \<and>
    cc_LLMModel (rc_Cascade cfg) = chosen args ''cascade-llm-model'' (fl_CascadeLLMModel fc) ''Qwen3.5-9B'' \<and>
    rc_GeminiSystemPrompt cfg = fl_GeminiSystemPrompt fc \<and> rc_Doubao cfg = fl_Doubao fc"
proof (cases "file = FileMissing")
  case True
  then have fc: "fc = no_file" using assms(2) by (simp add: file_says_def)
  note pick = missing_file_chosen[OF _ _ assms(1)]
  show ?thesis
    by (simp add: True fc applyConfigFile_def no_file_def flags_without_file pick[OF string_flag_cascade(1)]
        pick[OF string_flag_cascade(2)] pick[OF string_flag_cascade(3)] pick[OF string_flag_cascade(4)] cascade_flags_def)
      (simp add: flag_defaults_def)
next
  case False
  then have "file = FileParsed fc" using assms(2) by (auto simp: file_says_def split: file_read.splits)
  then show ?thesis using config_precedence[OF assms(1), of path fc] by auto
qed


lemma file_leaves_flags:
  assumes "applyConfigFile path file cfg setFlags = Inr cfg'"
  shows "rc_RedisAddr cfg' = rc_RedisAddr cfg \<and> rc_RLMax cfg' = rc_RLMax cfg \<and> rc_RLWindow cfg' = rc_RLWindow cfg \<and>
    proxy_replay cfg' = proxy_replay cfg \<and> rc_ModelCBEnable cfg' = rc_ModelCBEnable cfg \<and> rc_ModelCB cfg' = rc_ModelCB cfg"
  using assms by (auto simp: applyConfigFile_def upd_cascade_def proxy_replay_def split: file_read.splits)

text \<open>
  C39: What a proxy that has started runs with.  The configuration file was read or is missing, never
  broken.  For the settings of the cascade that have both a flag and an entry in the file, the flag
  wins when it is on the command line, even with the empty string, then the file where it says
  something, then the default; the prompts of Gemini and Doubao come from the file.  The rate limit, the
  breakers and the replay settings are those of the command line, whatever the file says.  And no
  variable of the environment was replaced by the environment file.
\<close>

theorem started_proxy_configured:
  assumes "typed_args args" and "proxy_main os files dotenv args env = (Inr px, env')"
  defines "models \<equiv> hd_Models (px_handler px)" and "intake \<equiv> hd_intake (px_handler px)" and "flags \<equiv> fst (parseFlags args)"
  shows "\<exists>fc. file_says (files (configPath args)) = Some fc \<and>
    cc_System (fc_Cascade models) = chosen args ''cascade-system'' (fl_CascadeSystemPrompt fc) ''You are a helpful voice assistant.'' \<and>
    cc_TTSSpeaker (fc_Cascade models) = chosen args ''cascade-tts-speaker'' (fl_CascadeTTSSpeaker fc) '''' \<and>
    cc_TTSLang (fc_Cascade models) = chosen args ''cascade-tts-lang'' (fl_CascadeTTSLang fc) ''en'' \<and>
    cc_LLMModel (fc_Cascade models) = chosen args ''cascade-llm-model'' (fl_CascadeLLMModel fc) ''Qwen3.5-9B'' \<and>
    fc_GeminiSystem models = fl_GeminiSystemPrompt fc \<and> fc_DoubaoSystem models = dc_SystemRole (fl_Doubao fc) \<and>
    it_Limiter intake = Limiter_New (rc_RedisAddr flags) (os_redis os) (rc_RLMax flags) (rc_RLWindow flags) \<and>
    it_Replay intake = proxy_replay flags \<and>
    wd_guard (px_world px) = newModelBreakers (rc_ModelCBEnable flags) (rc_ModelCB flags) \<and>
    (\<forall>k v. env k = Some v \<longrightarrow> env' k = Some v)"
proof -
  obtain cfg' where cfg': "applyConfigFile (configPath args) (files (configPath args)) flags (snd (parseFlags args)) = Inr cfg'"
    and run: "runProxy os cfg' = Inr px" and env': "env' = loadDotenv dotenv env"
    using assms(2) by (auto simp: proxy_main_def flags_def Let_def split_beta split: sum.splits)
  have "file_says (files (configPath args)) \<noteq> None"
    using cfg' by (auto simp: file_says_def applyConfigFile_def split: file_read.splits)
  then obtain fc where fc: "file_says (files (configPath args)) = Some fc" by blast
  from configured[OF assms(1) fc, of "configPath args"] cfg' runProxy_parts[OF run] file_leaves_flags[OF cfg']
  show ?thesis using fc by (auto simp: flags_def models_def intake_def proxy_factory_def env' dotenv_keeps)
qed

definition demo_file :: file_config where
  "demo_file = no_file\<lparr>fl_GeminiSystemPrompt := ''be brief'', fl_CascadeSystemPrompt := ''from the file'', fl_CascadeTTSSpeaker := ''Ana''\<rparr>"

theorem started_proxy_configured_witness:
  "\<exists>px env'. proxy_main demo_outside (\<lambda>path. if path = ''proxy.yaml'' then FileParsed demo_file else FileMissing) None
      [(''rl-max'', FlagInt 3), (''cascade-system'', FlagString ''from the flag'')] Map.empty = (Inr px, env') \<and>
    cc_System (fc_Cascade (hd_Models (px_handler px))) = ''from the flag'' \<and>
    cc_TTSSpeaker (fc_Cascade (hd_Models (px_handler px))) = ''Ana'' \<and>
    fc_GeminiSystem (hd_Models (px_handler px)) = ''be brief''"
proof -
  let ?args = "[(''rl-max'', FlagInt 3), (''cascade-system'', FlagString ''from the flag'')]"
  let ?files = "\<lambda>path. if path = ''proxy.yaml'' then FileParsed demo_file else FileMissing"
  have typed: "typed_args ?args" by (simp add: typed_args_def cascade_flags_def)
  have path: "configPath ?args = ''proxy.yaml''" by (simp add: configPath_def)
  have "\<exists>px. proxy_main demo_outside ?files None ?args Map.empty = (Inr px, loadDotenv None Map.empty)"
    by (simp add: proxy_main_def path parseFlags_def applyConfigFile_def runProxy_def newPublisher_def newAdaptive_def hub_api_def
        demo_outside_def flag_defaults_def upd_cascade_def string_flag_def int_flag_def Let_def)
  then obtain px where px: "proxy_main demo_outside ?files None ?args Map.empty = (Inr px, loadDotenv None Map.empty)" by blast
  from started_proxy_configured[OF typed px] px show ?thesis
    by (auto simp: path file_says_def chosen_def demo_file_def no_file_def)
qed

text \<open>A file that cannot be read or decoded keeps the proxy from starting.\<close>

lemma broken_file_fatal:
  "files (configPath args) = FileBroken e \<Longrightarrow>
    fst (proxy_main os files dotenv args env) = Inl (''config: parse '' @ configPath args @ '': '' @ e)"
  "files (configPath args) = FileUnreadable e \<Longrightarrow>
    fst (proxy_main os files dotenv args env) = Inl (''config: read '' @ configPath args @ '': '' @ e)"
  by (simp_all add: proxy_main_def applyConfigFile_def split_beta Let_def)

end
