(* ===== verification/Loadgen.thy ===== *)
theory Loadgen
  imports Audio
begin

text \<open>
  The load generator, \<open>cmd/loadgen/main.go\<close>: the frames it encodes once, the life of its sessions with
  the counters they share, the offer it posts and what it reports.  Peer connections, tracks and HTTP
  are parameters: an event says whether the call it stands for succeeded.  The sessions run
  concurrently; every interleaving of their steps is a run.
\<close>

subsection \<open>The frames\<close>

definition lgFrameSamples :: nat where
  "lgFrameSamples = 48000 * 20 div 1000"

lemma lgFrameSamples_val [simp]: "lgFrameSamples = 960"
  by (simp add: lgFrameSamples_def)

text \<open>
  The loop of \<open>preEncode\<close> over the samples of \<open>tone\<close>, from \<open>i\<close> on; a block that fails to encode is
  skipped.  The tone itself is a second of a sine, a parameter.
\<close>

function preEncode :: "('e \<Rightarrow> i16 list \<Rightarrow> bytes option \<times> 'e) \<Rightarrow> 'e \<Rightarrow> i16 list \<Rightarrow> nat \<Rightarrow> bytes list" where
  "preEncode encode e tone i =
     (if i + lgFrameSamples \<le> length tone then
        (let (f, e') = encode e (take lgFrameSamples (drop i tone));
             frames = preEncode encode e' tone (i + lgFrameSamples) in
         case f of None \<Rightarrow> frames | Some b \<Rightarrow> b # frames)
      else [])"
  by auto
termination by (relation "measure (\<lambda>(encode, e, tone, i). length tone - i)") auto

declare preEncode.simps [simp del]

lemma preEncode_step:
  "i + lgFrameSamples \<le> length tone \<Longrightarrow> encode e (take lgFrameSamples (drop i tone)) = (f, e') \<Longrightarrow>
    preEncode encode e tone i =
      (case f of None \<Rightarrow> [] | Some b \<Rightarrow> [b]) @ preEncode encode e' tone (i + lgFrameSamples)"
  by (subst preEncode.simps) (simp split: option.split)

lemma preEncode_end: "\<not> i + lgFrameSamples \<le> length tone \<Longrightarrow> preEncode encode e tone i = []"
  by (subst preEncode.simps) simp

lemma preEncode_count:
  assumes "\<And>e xs. fst (encode e xs) \<noteq> None"
  shows "length (preEncode encode e tone i) = (length tone - i) div lgFrameSamples"
proof (induction "length tone - i" arbitrary: e i rule: less_induct)
  case less
  show ?case
  proof (cases "i + lgFrameSamples \<le> length tone")
    case True
    obtain f e' where enc: "encode e (take lgFrameSamples (drop i tone)) = (Some f, e')"
      using assms by (metis not_None_eq prod.collapse)
    have "length (preEncode encode e' tone (i + lgFrameSamples)) = (length tone - (i + lgFrameSamples)) div lgFrameSamples"
      using True by (intro less) simp
    moreover have "(length tone - i) div lgFrameSamples = Suc ((length tone - (i + lgFrameSamples)) div lgFrameSamples)"
      using True by (simp add: div_if)
    ultimately show ?thesis by (simp add: preEncode_step[of i tone encode e, OF True enc])
  next
    case False
    then show ?thesis by (simp add: preEncode_end)
  qed
qed

text \<open>An encoder that fails on every block leaves no frame.\<close>

lemma preEncode_none:
  assumes "\<And>e xs. fst (encode e xs) = None"
  shows "preEncode encode e tone i = []"
proof (induction "length tone - i" arbitrary: e i rule: less_induct)
  case less
  show ?case
  proof (cases "i + lgFrameSamples \<le> length tone")
    case True
    obtain e' where enc: "encode e (take lgFrameSamples (drop i tone)) = (None, e')"
      using assms by (metis prod.collapse)
    have "preEncode encode e' tone (i + lgFrameSamples) = []" using True by (intro less) simp
    then show ?thesis by (simp add: preEncode_step[of i tone encode e, OF True enc])
  next
    case False
    then show ?thesis by (rule preEncode_end)
  qed
qed

subsection \<open>The sessions\<close>

text \<open>
  The calls of \<open>runSession\<close> that can fail, in their order; then it plays, having written \<open>k\<close> frames,
  until its context is done or a write fails.
\<close>

datatype lg_call = NewPeer | NewTrack | AddTrack | NewChannel | MakeOffer | SetLocal | PostOffer | SetAnswer

definition lg_calls :: "lg_call list" where
  "lg_calls = [NewPeer, NewTrack, AddTrack, NewChannel, MakeOffer, SetLocal, PostOffer, SetAnswer]"

datatype lg_session = NotStarted | Dialing "lg_call list" | Playing nat | Dropped | Over nat

record lg_stats =
  lg_connected :: int
  lg_failed :: u64
  lg_frames :: u64
  lg_transcripts :: u64

record loadgen =
  lg_stats :: lg_stats
  lg_sessions :: "lg_session list"
  lg_sent :: "(nat \<times> bytes) list"

definition lg_start :: "nat \<Rightarrow> loadgen" where
  "lg_start n =
     \<lparr>lg_stats = \<lparr>lg_connected = 0, lg_failed = 0, lg_frames = 0, lg_transcripts = 0\<rparr>,
      lg_sessions = replicate n NotStarted, lg_sent = []\<rparr>"

datatype lg_event = StartSession nat | Return nat bool | Tick nat bool | Cancelled nat | Message nat

definition set_session :: "nat \<Rightarrow> lg_session \<Rightarrow> loadgen \<Rightarrow> loadgen" where
  "set_session i st s = s\<lparr>lg_sessions := (lg_sessions s)[i := st]\<rparr>"

text \<open>A call of the set-up returns: the next one is made, or the session has failed, or it is connected.\<close>

definition lg_return :: "nat \<Rightarrow> bool \<Rightarrow> lg_call list \<Rightarrow> loadgen \<Rightarrow> loadgen" where
  "lg_return i ok calls s =
     (if \<not> ok then
        (set_session i Dropped s)\<lparr>lg_stats := (lg_stats s)\<lparr>lg_failed := lg_failed (lg_stats s) + 1\<rparr>\<rparr>
      else
        (case tl calls of
           [] \<Rightarrow> (set_session i (Playing 0) s)\<lparr>lg_stats := (lg_stats s)\<lparr>lg_connected := lg_connected (lg_stats s) + 1\<rparr>\<rparr>
         | rest \<Rightarrow> set_session i (Dialing rest) s))"

definition lg_leave :: "nat \<Rightarrow> nat \<Rightarrow> loadgen \<Rightarrow> loadgen" where
  "lg_leave i k s =
     (set_session i (Over k) s)\<lparr>lg_stats := (lg_stats s)\<lparr>lg_connected := lg_connected (lg_stats s) - 1\<rparr>\<rparr>"

text \<open>A tick writes the next frame; \<open>i%len(frames)\<close> panics when there is no frame.\<close>

definition lg_tick :: "bytes list \<Rightarrow> nat \<Rightarrow> bool \<Rightarrow> nat \<Rightarrow> loadgen \<Rightarrow> loadgen option" where
  "lg_tick frames i ok k s =
     (if frames = [] then None
      else if \<not> ok then Some (lg_leave i k s)
      else Some ((set_session i (Playing (k + 1)) s)
             \<lparr>lg_stats := (lg_stats s)\<lparr>lg_frames := lg_frames (lg_stats s) + 1\<rparr>,
              lg_sent := lg_sent s @ [(i, frames ! (k mod length frames))]\<rparr>))"

text \<open>The callback of the data channel runs while the channel exists.\<close>

definition has_channel :: "lg_session \<Rightarrow> bool" where
  "has_channel st =
     (case st of Playing _ \<Rightarrow> True | Dialing calls \<Rightarrow> NewChannel \<notin> set calls | _ \<Rightarrow> False)"

definition lg_message :: "nat \<Rightarrow> loadgen \<Rightarrow> loadgen" where
  "lg_message i s =
     (if has_channel (lg_sessions s ! i)
      then s\<lparr>lg_stats := (lg_stats s)\<lparr>lg_transcripts := lg_transcripts (lg_stats s) + 1\<rparr>\<rparr> else s)"

fun runSession_step :: "bytes list \<Rightarrow> lg_event \<Rightarrow> loadgen \<Rightarrow> loadgen option" where
  "runSession_step frames (StartSession i) s =
     Some (if lg_sessions s ! i = NotStarted then set_session i (Dialing lg_calls) s else s)"
| "runSession_step frames (Return i ok) s =
     Some (case lg_sessions s ! i of Dialing calls \<Rightarrow> lg_return i ok calls s | _ \<Rightarrow> s)"
| "runSession_step frames (Tick i ok) s =
     (case lg_sessions s ! i of Playing k \<Rightarrow> lg_tick frames i ok k s | _ \<Rightarrow> Some s)"
| "runSession_step frames (Cancelled i) s =
     Some (case lg_sessions s ! i of Playing k \<Rightarrow> lg_leave i k s | _ \<Rightarrow> s)"
| "runSession_step frames (Message i) s = Some (lg_message i s)"

fun event_session :: "lg_event \<Rightarrow> nat" where
  "event_session (StartSession i) = i"
| "event_session (Return i ok) = i"
| "event_session (Tick i ok) = i"
| "event_session (Cancelled i) = i"
| "event_session (Message i) = i"

definition loadgen_step :: "bytes list \<Rightarrow> loadgen option \<Rightarrow> lg_event \<Rightarrow> loadgen option" where
  "loadgen_step frames s e =
     (case s of None \<Rightarrow> None
      | Some s' \<Rightarrow> if event_session e < length (lg_sessions s') then runSession_step frames e s' else Some s')"


subsection \<open>What the counters say\<close>

fun written :: "lg_session \<Rightarrow> nat" where
  "written (Playing k) = k"
| "written (Over k) = k"
| "written st = 0"

fun live :: "lg_session \<Rightarrow> bool" where
  "live (Playing k) = True"
| "live st = False"

definition played :: "nat \<Rightarrow> loadgen \<Rightarrow> bytes list" where
  "played i s = map snd (filter (\<lambda>p. fst p = i) (lg_sent s))"

definition lg_loop :: "bytes list \<Rightarrow> nat \<Rightarrow> bytes list" where
  "lg_loop frames k = map (\<lambda>j. frames ! (j mod length frames)) [0..<k]"

definition loadgen_ok :: "bytes list \<Rightarrow> nat \<Rightarrow> loadgen \<Rightarrow> bool" where
  "loadgen_ok frames n s =
     (length (lg_sessions s) = n \<and>
      lg_connected (lg_stats s) = int (length (filter live (lg_sessions s))) \<and>
      lg_failed (lg_stats s) = word_of_nat (length (filter ((=) Dropped) (lg_sessions s))) \<and>
      lg_frames (lg_stats s) = word_of_nat (length (lg_sent s)) \<and>
      (\<forall>i < n. played i s = lg_loop frames (written (lg_sessions s ! i))))"

lemma length_filter_update:
  "i < length xs \<Longrightarrow> length (filter P (xs[i := y])) + of_bool (P (xs ! i)) = length (filter P xs) + of_bool (P y)"
proof (induction xs arbitrary: i)
  case (Cons x xs)
  then show ?case by (cases i) auto
qed simp

lemma filter_update_same:
  "i < length xs \<Longrightarrow> P (xs ! i) = P y \<Longrightarrow> length (filter P (xs[i := y])) = length (filter P xs)"
  using length_filter_update[of i xs P y] by simp

text \<open>A session that changes without connecting, leaving, failing or writing changes no counter.\<close>

lemma loadgen_ok_quiet:
  assumes "loadgen_ok frames n s" and "i < n" and "\<not> live st" and "\<not> live (lg_sessions s ! i)"
    and "st \<noteq> Dropped" and "lg_sessions s ! i \<noteq> Dropped" and "written st = written (lg_sessions s ! i)"
  shows "loadgen_ok frames n (set_session i st s)"
  using assms filter_update_same[of i "lg_sessions s" live st] filter_update_same[of i "lg_sessions s" "(=) Dropped" st]
  by (auto simp: loadgen_ok_def set_session_def played_def nth_list_update)

lemma loadgen_ok_return:
  assumes "loadgen_ok frames n s" and "i < n" and "lg_sessions s ! i = Dialing calls"
  shows "loadgen_ok frames n (lg_return i ok calls s)"
proof -
  have len: "i < length (lg_sessions s)" using assms by (simp add: loadgen_ok_def)
  note L = length_filter_update[OF len, of live, unfolded assms(3)]
    and D = length_filter_update[OF len, of "(=) Dropped", unfolded assms(3)]
  consider (fail) "\<not> ok" | (more) c cs where "ok" "tl calls = c # cs" | (last) "ok" "tl calls = []"
    by (cases "tl calls") auto
  then show ?thesis
  proof cases
    case fail
    then show ?thesis using assms L[of Dropped] D[of Dropped]
      by (auto simp: lg_return_def loadgen_ok_def set_session_def played_def nth_list_update)
  next
    case more
    then have "lg_return i ok calls s = set_session i (Dialing (c # cs)) s" by (simp add: lg_return_def)
    then show ?thesis using assms by (simp add: loadgen_ok_quiet)
  next
    case last
    then show ?thesis using assms L[of "Playing 0"] D[of "Playing 0"]
      by (auto simp: lg_return_def loadgen_ok_def set_session_def played_def nth_list_update)
  qed
qed

lemma loadgen_ok_leave:
  assumes "loadgen_ok frames n s" and "i < n" and "lg_sessions s ! i = Playing k"
  shows "loadgen_ok frames n (lg_leave i k s)"
proof -
  have len: "i < length (lg_sessions s)" using assms by (simp add: loadgen_ok_def)
  show ?thesis
    using assms length_filter_update[OF len, of live "Over k"] length_filter_update[OF len, of "(=) Dropped" "Over k"]
    by (auto simp: lg_leave_def loadgen_ok_def set_session_def played_def nth_list_update)
qed

lemma loadgen_ok_tick:
  assumes "loadgen_ok frames n s" and "i < n" and "lg_sessions s ! i = Playing k" and "lg_tick frames i ok k s = Some s'"
  shows "loadgen_ok frames n s'"
proof (cases ok)
  case False
  then show ?thesis using assms loadgen_ok_leave by (auto simp: lg_tick_def split: if_splits)
next
  case True
  have len: "i < length (lg_sessions s)" using assms by (simp add: loadgen_ok_def)
  have s': "s' = (set_session i (Playing (k + 1)) s)
      \<lparr>lg_stats := (lg_stats s)\<lparr>lg_frames := lg_frames (lg_stats s) + 1\<rparr>,
       lg_sent := lg_sent s @ [(i, frames ! (k mod length frames))]\<rparr>"
    using True assms(4) by (auto simp: lg_tick_def split: if_splits)
  have "played j s' = played j s @ (if j = i then [frames ! (k mod length frames)] else [])" for j
    by (simp add: s' played_def)
  then show ?thesis
    using assms(1-3) filter_update_same[OF len, of live "Playing (k + 1)"]
      filter_update_same[OF len, of "(=) Dropped" "Playing (k + 1)"]
    by (auto simp: s' loadgen_ok_def set_session_def lg_loop_def nth_list_update)
qed

definition loadgen_inv :: "bytes list \<Rightarrow> nat \<Rightarrow> loadgen option \<Rightarrow> bool" where
  "loadgen_inv frames n s = (\<exists>s'. s = Some s' \<and> loadgen_ok frames n s')"

lemma loadgen_step_inv:
  assumes "frames \<noteq> []" and "loadgen_inv frames n s"
  shows "loadgen_inv frames n (loadgen_step frames s e)"
proof -
  from assms(2) obtain s' where s: "s = Some s'" "loadgen_ok frames n s'" by (auto simp: loadgen_inv_def)
  show ?thesis
  proof (cases "event_session e < length (lg_sessions s')")
    case True
    then have i: "event_session e < n" using s by (simp add: loadgen_ok_def)
    have "\<exists>t. runSession_step frames e s' = Some t \<and> loadgen_ok frames n t"
    proof (cases e)
      case (StartSession i)
      then show ?thesis using s i by (auto intro!: loadgen_ok_quiet)
    next
      case (Return i ok)
      then show ?thesis using s i loadgen_ok_return by (cases "lg_sessions s' ! i") auto
    next
      case (Tick i ok)
      show ?thesis
      proof (cases "lg_sessions s' ! i")
        case (Playing k)
        obtain t where "lg_tick frames i ok k s' = Some t"
          using assms(1) by (cases "lg_tick frames i ok k s'") (auto simp: lg_tick_def split: if_splits)
        then show ?thesis using Tick Playing s i loadgen_ok_tick by auto
      qed (use Tick s in auto)
    next
      case (Cancelled i)
      then show ?thesis using s i loadgen_ok_leave by (cases "lg_sessions s' ! i") auto
    next
      case (Message i)
      then show ?thesis using s by (auto simp: lg_message_def loadgen_ok_def played_def)
    qed
    then show ?thesis using s True by (auto simp: loadgen_inv_def loadgen_step_def)
  next
    case False
    then show ?thesis using s by (auto simp: loadgen_inv_def loadgen_step_def)
  qed
qed


definition lg_done :: "lg_session \<Rightarrow> bool" where
  "lg_done st = (case st of Dropped \<Rightarrow> True | Over _ \<Rightarrow> True | _ \<Rightarrow> False)"

text \<open>The closing report: the sessions that connected, those that failed, the frames sent.\<close>

definition lg_summary :: "nat \<Rightarrow> loadgen \<Rightarrow> int \<times> u64 \<times> u64 \<times> u64" where
  "lg_summary n s =
     (int n - sint (lg_failed (lg_stats s)), lg_failed (lg_stats s), lg_frames (lg_stats s), lg_transcripts (lg_stats s))"

lemma lg_start_ok: "loadgen_inv frames n (Some (lg_start n))"
  by (auto simp: loadgen_inv_def loadgen_ok_def lg_start_def played_def lg_loop_def filter_empty_conv)


interpretation loadgen: machine "loadgen_step frames" "\<lambda>s. frames \<noteq> [] \<longrightarrow> loadgen_inv frames n s"
  by unfold_locales (auto intro: loadgen_step_inv)

lemma done_count:
  "list_all lg_done xs \<Longrightarrow>
    int (length xs) = int (length (filter (\<lambda>st. \<exists>k. st = Over k) xs)) + int (length (filter ((=) Dropped) xs)) \<and>
    filter live xs = []"
  by (induction xs) (auto simp: lg_done_def split: lg_session.splits)

lemma lg_summary_connected:
  assumes "loadgen_ok frames n s" and "n < 2 ^ 63" and "list_all lg_done (lg_sessions s)"
  shows "lg_connected (lg_stats s) = 0 \<and>
    fst (lg_summary n s) = int (length (filter (\<lambda>st. \<exists>k. st = Over k) (lg_sessions s)))"
proof -
  let ?c = "length (filter ((=) Dropped) (lg_sessions s))"
  have "?c \<le> n" using assms(1) length_filter_le[of "(=) Dropped" "lg_sessions s"] by (simp add: loadgen_ok_def)
  then have "sint (word_of_nat ?c :: u64) = int ?c"
    using assms(2) by (simp add: signed_of_nat signed_take_bit_int_eq_self)
  then show ?thesis using assms(1) done_count[OF assms(3)] by (simp add: loadgen_ok_def lg_summary_def)
qed


text \<open>
  C40: The load generator counts honestly.  Whatever the order in which the sessions connect, fail, write
  and end, it does not panic as long as it has a frame to play; the gauge is the number of sessions
  that are playing, each session has sent the frames in a loop from the first one on, the counter of
  frames is what all of them have sent; and when every session has ended the gauge is zero and the
  closing report names as many connected sessions as there were.
\<close>

theorem loadgen_accounts:
  assumes "frames \<noteq> []" and "n < 2 ^ 63"
  shows "\<exists>s. run (loadgen_step frames) (Some (lg_start n)) es = Some s \<and>
    lg_connected (lg_stats s) = int (length (filter live (lg_sessions s))) \<and>
    lg_frames (lg_stats s) = word_of_nat (length (lg_sent s)) \<and>
    (\<forall>i < n. played i s = lg_loop frames (written (lg_sessions s ! i))) \<and>
    (list_all lg_done (lg_sessions s) \<longrightarrow> lg_connected (lg_stats s) = 0 \<and>
       fst (lg_summary n s) = int (length (filter (\<lambda>st. \<exists>k. st = Over k) (lg_sessions s))))"
proof -
  have "loadgen_inv frames n (run (loadgen_step frames) (Some (lg_start n)) es)"
    using loadgen.run_inv[of frames n "Some (lg_start n)" es] lg_start_ok assms(1) by blast
  then obtain s where s: "run (loadgen_step frames) (Some (lg_start n)) es = Some s" "loadgen_ok frames n s"
    by (auto simp: loadgen_inv_def)
  then show ?thesis using lg_summary_connected[OF s(2) assms(2)] by (auto simp: loadgen_ok_def)
qed

theorem loadgen_accounts_witness:
  "\<exists>s. run (loadgen_step [[1], [2]]) (Some (lg_start 2))
      ([StartSession 0, StartSession 1, Return 1 False] @ replicate 8 (Return 0 True) @
       [Tick 0 True, Tick 0 True, Tick 0 True, Cancelled 0]) = Some s \<and>
    played 0 s = lg_loop [[1], [2]] (written (lg_sessions s ! 0))"
  using loadgen_accounts[of "[[1], [2]]" 2 "[StartSession 0, StartSession 1, Return 1 False] @
    replicate 8 (Return 0 True) @ [Tick 0 True, Tick 0 True, Tick 0 True, Cancelled 0]"] by fastforce

text \<open>Without a frame the first tick of a connected session divides by zero and ends the process.\<close>

lemma no_frame_panics:
  "run (loadgen_step []) (Some (lg_start 1)) (StartSession 0 # replicate 8 (Return 0 True) @ [Tick 0 True]) = None"
  by (simp add: loadgen_step_def lg_start_def set_session_def lg_calls_def lg_return_def lg_tick_def
      eval_nat_numeral)

subsection \<open>The offer and the report\<close>

text \<open>\<open>http\<close> is the exchange with the proxy: an error of the transport, or the status and the body.\<close>

datatype lg_error = TransportError go_error | HttpError int string

definition lg_error_text :: "lg_error \<Rightarrow> string" where
  "lg_error_text e = (case e of TransportError m \<Rightarrow> m | HttpError code body \<Rightarrow> body)"

definition postSDP ::
  "(string \<Rightarrow> (string \<times> string) list \<Rightarrow> string \<Rightarrow> go_error + int \<times> (go_error + string))
     \<Rightarrow> string \<Rightarrow> string \<Rightarrow> lg_error + string" where
  "postSDP http url sdp =
     (case http url [(''Content-Type'', ''application/sdp'')] sdp of
        Inl err \<Rightarrow> Inl (TransportError err)
      | Inr (status, Inl err) \<Rightarrow> Inl (TransportError err)
      | Inr (status, Inr body) \<Rightarrow> if status \<noteq> 200 then Inl (HttpError status body) else Inr body)"

definition offer_url :: "string \<Rightarrow> string \<Rightarrow> string" where
  "offer_url base model = base @ ''/?model='' @ model"

definition pollStats :: "(string \<Rightarrow> string option) \<Rightarrow> string \<Rightarrow> string" where
  "pollStats get url =
     (if url = '''' then ''''
      else (case get url of None \<Rightarrow> '' proxy_stats=err'' | Some b \<Rightarrow> '' proxy='' @ trim_space b))"

text \<open>The pause between two starts, and when session \<open>i\<close> starts if nothing is cancelled.\<close>

definition start_gap :: "duration \<Rightarrow> int \<Rightarrow> duration" where
  "start_gap ramp n = go_div ramp (max n 1)"

lemma starts_within_ramp:
  assumes "0 \<le> ramp" and "0 < n" and "0 \<le> i" and "i < n"
  shows "0 \<le> (i + 1) * start_gap ramp n \<and> (i + 1) * start_gap ramp n \<le> ramp"
proof -
  have "max n 1 = n" using assms(2) by simp
  then have gap: "start_gap ramp n = ramp div n"
    using assms(1,2) by (cases "ramp = 0") (simp_all add: start_gap_def go_div_def)
  have "(i + 1) * (ramp div n) \<le> n * (ramp div n)"
    using assms by (intro mult_right_mono) (simp_all add: pos_imp_zdiv_nonneg_iff)
  also have "\<dots> \<le> ramp" using pos_mod_sign[OF assms(2), of ramp] mult_div_mod_eq[of n ramp] by linarith
  finally show ?thesis using assms by (simp add: gap pos_imp_zdiv_nonneg_iff)
qed


subsection \<open>The program\<close>

record lg_flags =
  lf_url :: string
  lf_n :: int
  lf_ramp :: duration
  lf_duration :: duration
  lf_model :: string
  lf_stats :: string

definition lg_flag_defaults :: lg_flags where
  "lg_flag_defaults =
     \<lparr>lf_url = ''http://localhost:8080'', lf_n = 100, lf_ramp = 5 * second, lf_duration = 30 * second,
      lf_model = ''loopback'', lf_stats = ''''\<rparr>"

text \<open>
  The loop of \<open>main\<close> that starts the sessions: before each one it waits for the gap or for the end of
  the context at time \<open>done\<close>; the times at which the remaining \<open>k\<close> sessions start, from \<open>now\<close> on.
\<close>

fun lg_schedule :: "time \<Rightarrow> duration \<Rightarrow> nat \<Rightarrow> time \<Rightarrow> time list" where
  "lg_schedule done gap 0 now = []"
| "lg_schedule done gap (Suc k) now =
     (let t = (if done \<le> now then now else min done (now + max gap 0)) in t # lg_schedule done gap k t)"

text \<open>The context ends at the first signal, or after the ramp and the hold time.\<close>

definition lg_deadline :: "lg_flags \<Rightarrow> time \<Rightarrow> time option \<Rightarrow> time" where
  "lg_deadline f start signal =
     (let limit = start + (lf_ramp f + lf_duration f) in case signal of None \<Rightarrow> limit | Some t \<Rightarrow> min t limit)"

definition lg_starts :: "lg_flags \<Rightarrow> time \<Rightarrow> time option \<Rightarrow> time list" where
  "lg_starts f start signal =
     lg_schedule (lg_deadline f start signal) (start_gap (lf_ramp f) (lf_n f)) (nat (lf_n f)) start"

text \<open>The line of \<open>report\<close>, with what the admin server of the proxy says.\<close>

definition lg_report_line :: "(string \<Rightarrow> string option) \<Rightarrow> lg_flags \<Rightarrow> loadgen \<Rightarrow> string" where
  "lg_report_line get f s =
     ''connected='' @ format_int (lg_connected (lg_stats s)) @ ''/'' @ format_int (lf_n f) @
     '' failed='' @ format_nat (unat (lg_failed (lg_stats s))) @ '' frames='' @ format_nat (unat (lg_frames (lg_stats s))) @
     '' transcripts='' @ format_nat (unat (lg_transcripts (lg_stats s))) @ pollStats get (lf_stats f)"

text \<open>
  \<open>main\<close>: without an encoder it ends at once; otherwise the sessions run, and when every one of them
  has returned the summary is printed.
\<close>

datatype lg_exit = LgFatal string | LgPanic | LgRunning loadgen | LgSummary "int \<times> u64 \<times> u64 \<times> u64"

definition loadgen_main ::
  "(go_error + 'e) \<Rightarrow> ('e \<Rightarrow> i16 list \<Rightarrow> bytes option \<times> 'e) \<Rightarrow> i16 list \<Rightarrow> lg_flags \<Rightarrow> lg_event list \<Rightarrow> lg_exit" where
  "loadgen_main newEncoder encode tone f es =
     (case newEncoder of
        Inl err \<Rightarrow> LgFatal (''loadgen: encoder: '' @ err)
      | Inr e \<Rightarrow>
          (case run (loadgen_step (preEncode encode e tone 0)) (Some (lg_start (nat (lf_n f)))) es of
             None \<Rightarrow> LgPanic
           | Some s \<Rightarrow>
               (if list_all lg_done (lg_sessions s) then LgSummary (lg_summary (nat (lf_n f)) s) else LgRunning s)))"

text \<open>Without a signal every session starts by the end of the ramp, one gap after the other.\<close>

lemma schedule_even:
  assumes "0 \<le> gap" and "now + int k * gap \<le> done"
  shows "lg_schedule done gap k now = map (\<lambda>i. now + (int i + 1) * gap) [0 ..< k]"
  using assms(2)
proof (induction k arbitrary: now)
  case (Suc k)
  have le: "now + gap + int k * gap \<le> done" using Suc.prems by (simp add: algebra_simps)
  have "0 \<le> int k * gap" using assms(1) by simp
  then have "now + gap \<le> done" using le by linarith
  then have "(if done \<le> now then now else min done (now + max gap 0)) = now + gap" using assms(1) by auto
  moreover have "map (\<lambda>i. now + gap + (int i + 1) * gap) [0 ..< k] = map (\<lambda>i. now + (int i + 1) * gap) (map Suc [0 ..< k])"
    by (simp add: algebra_simps)
  ultimately show ?case
    using Suc.IH[OF le] by (simp add: Let_def upt_conv_Cons map_Suc_upt del: upt_Suc map_map)
qed simp

text \<open>
  The comment of \<open>main\<close>: the sessions live for the ramp and the hold time.  Each of them has at least the
  hold time left when it starts.
\<close>

lemma sessions_hold:
  assumes "0 \<le> lf_ramp f" and "0 \<le> lf_duration f" and "t \<in> set (lg_starts f start None)"
  shows "t + lf_duration f \<le> lg_deadline f start None"
proof -
  let ?n = "lf_n f" and ?gap = "start_gap (lf_ramp f) (lf_n f)"
  have n: "0 < ?n" using assms(3) by (cases "nat ?n") (auto simp: lg_starts_def)
  have last: "0 \<le> (?n - 1 + 1) * ?gap \<and> (?n - 1 + 1) * ?gap \<le> lf_ramp f"
    using starts_within_ramp[of "lf_ramp f" ?n "?n - 1"] assms(1) n by simp
  then have gap: "0 \<le> ?gap" using n by (simp add: zero_le_mult_iff)
  have "start + int (nat ?n) * ?gap \<le> lg_deadline f start None"
    using last n assms(2) by (simp add: lg_deadline_def)
  from schedule_even[OF gap this] assms(3) obtain i where "i < nat ?n" "t = start + (int i + 1) * ?gap"
    by (auto simp: lg_starts_def)
  then show ?thesis using starts_within_ramp[of "lf_ramp f" ?n "int i"] assms(1) n by (simp add: lg_deadline_def)
qed

text \<open>After a signal the rest is started at once, on a context that has ended, and fails.\<close>

lemma signal_starts_rest:
  "signal \<le> now \<Longrightarrow> lg_schedule signal gap k now = replicate k now"
  by (induction k) (simp_all add: Let_def)

lemma main_without_frames:
  assumes "\<And>e xs. fst (encode e xs) = None" and "0 < lf_n f"
  shows "loadgen_main (Inr e) encode tone f (StartSession 0 # replicate 8 (Return 0 True) @ [Tick 0 True]) = LgPanic"
proof -
  obtain k where n: "nat (lf_n f) = Suc k" using assms(2) by (cases "nat (lf_n f)") auto
  show ?thesis
    by (simp add: loadgen_main_def preEncode_none[OF assms(1)] n loadgen_step_def lg_start_def set_session_def lg_calls_def
        lg_return_def lg_tick_def eval_nat_numeral)
qed

end
