(* ===== verification/Codec.thy ===== *)
theory Codec
  imports Audio
begin

text \<open>
  The Opus codec of a session, \<open>internal/audio/opus.go\<close>, around the library libopus, which is a parameter:
  the buffers an encoder and a decoder reuse from call to call, and the live complexity that every
  encoder follows.  A result is a slice of the internal buffer; it is modelled by its length, and
  reading it gives what the buffer holds at that moment.
\<close>

subsection \<open>The live complexity\<close>

text \<open>An \<open>atomic.Int32\<close>: the store truncates.\<close>

type_synonym i32 = "32 word"

definition SetEncoderComplexity :: "int \<Rightarrow> i32" where
  "SetEncoderComplexity c = word_of_int c"

definition EncoderComplexity :: "i32 \<Rightarrow> int" where
  "EncoderComplexity v = sint v"

lemma complexity_roundtrip: "- (2 ^ 31) \<le> c \<Longrightarrow> c < 2 ^ 31 \<Longrightarrow> EncoderComplexity (SetEncoderComplexity c) = c"
  by (simp add: EncoderComplexity_def SetEncoderComplexity_def signed_of_int signed_take_bit_int_eq_self)

subsection \<open>The library\<close>

text \<open>
  \<open>Encode\<close> and \<open>Decode\<close> write into the buffer they are given: the bytes or samples written, which never
  exceed it, or an error.
\<close>

record ('e, 'd) opus_lib =
  ol_NewEncoder :: "'e option"
  ol_SetInBandFEC :: "bool \<Rightarrow> 'e \<Rightarrow> 'e"
  ol_SetPacketLossPerc :: "int \<Rightarrow> 'e \<Rightarrow> 'e"
  ol_SetDTX :: "bool \<Rightarrow> 'e \<Rightarrow> 'e"
  ol_SetComplexity :: "int \<Rightarrow> 'e \<Rightarrow> 'e"
  ol_Encode :: "'e \<Rightarrow> i16 list \<Rightarrow> bytes option \<times> 'e"
  ol_NewDecoder :: "'d option"
  ol_Decode :: "'d \<Rightarrow> bytes \<Rightarrow> i16 list option \<times> 'd"

definition maxFrameSamples :: nat where
  "maxFrameSamples = 48000 * 60 div 1000"

definition maxPacketBytes :: nat where
  "maxPacketBytes = 1275"

definition fits :: "('e, 'd) opus_lib \<Rightarrow> bool" where
  "fits lib \<longleftrightarrow>
     (\<forall>e pcm p. fst (ol_Encode lib e pcm) = Some p \<longrightarrow> length p \<le> maxPacketBytes) \<and>
     (\<forall>d x pcm. fst (ol_Decode lib d x) = Some pcm \<longrightarrow> length pcm \<le> maxFrameSamples)"

text \<open>Writing at the front of a buffer.\<close>

definition write_front :: "'a list \<Rightarrow> 'a list \<Rightarrow> 'a list" where
  "write_front xs buf = xs @ drop (length xs) buf"

lemma write_front_simps [simp]:
  "length xs \<le> length buf \<Longrightarrow> length (write_front xs buf) = length buf"
  "take (length xs) (write_front xs buf) = xs"
  by (simp_all add: write_front_def)

subsection \<open>The encoder\<close>

record 'e encoder =
  en_e :: 'e
  en_buf :: bytes
  en_applied :: int

definition apply_complexity :: "('e, 'd) opus_lib \<Rightarrow> i32 \<Rightarrow> 'e encoder \<Rightarrow> 'e encoder" where
  "apply_complexity lib live enc =
     (case applyComplexity (EncoderComplexity live) (en_applied enc) of
        (Some c, applied) \<Rightarrow> enc\<lparr>en_e := ol_SetComplexity lib c (en_e enc), en_applied := applied\<rparr>
      | (None, applied) \<Rightarrow> enc)"

definition NewEncoder :: "('e, 'd) opus_lib \<Rightarrow> i32 \<Rightarrow> 'e encoder option" where
  "NewEncoder lib live =
     (case ol_NewEncoder lib of
        None \<Rightarrow> None
      | Some e \<Rightarrow>
          Some (apply_complexity lib live
            \<lparr>en_e = ol_SetDTX lib True (ol_SetPacketLossPerc lib 10 (ol_SetInBandFEC lib True e)),
             en_buf = replicate maxPacketBytes 0, en_applied = - 1\<rparr>))"

text \<open>The length of the slice returned, or the error.\<close>

definition Encode :: "('e, 'd) opus_lib \<Rightarrow> i32 \<Rightarrow> 'e encoder \<Rightarrow> i16 list \<Rightarrow> nat option \<times> 'e encoder" where
  "Encode lib live enc pcm =
     (let enc1 = apply_complexity lib live enc;
          (r, e') = ol_Encode lib (en_e enc1) pcm in
      case r of
        None \<Rightarrow> (None, enc1\<lparr>en_e := e'\<rparr>)
      | Some packet \<Rightarrow> (Some (length packet), enc1\<lparr>en_e := e', en_buf := write_front packet (en_buf enc1)\<rparr>))"

definition packet_slice :: "nat \<Rightarrow> 'e encoder \<Rightarrow> bytes" where
  "packet_slice n enc = take n (en_buf enc)"

subsection \<open>The decoder\<close>

record 'd decoder =
  de_d :: 'd
  de_pcm :: "i16 list"

definition NewDecoder :: "('e, 'd) opus_lib \<Rightarrow> 'd decoder option" where
  "NewDecoder lib =
     map_option (\<lambda>d. \<lparr>de_d = d, de_pcm = replicate maxFrameSamples 0\<rparr>) (ol_NewDecoder lib)"

definition Decode :: "('e, 'd) opus_lib \<Rightarrow> 'd decoder \<Rightarrow> bytes \<Rightarrow> nat option \<times> 'd decoder" where
  "Decode lib dec payload =
     (let (r, d') = ol_Decode lib (de_d dec) payload in
      case r of
        None \<Rightarrow> (None, dec\<lparr>de_d := d'\<rparr>)
      | Some pcm \<Rightarrow> (Some (length pcm), dec\<lparr>de_d := d', de_pcm := write_front pcm (de_pcm dec)\<rparr>))"

definition pcm_slice :: "nat \<Rightarrow> 'd decoder \<Rightarrow> i16 list" where
  "pcm_slice n dec = take n (de_pcm dec)"

subsection \<open>What a slice holds\<close>

definition encoder_ok :: "'e encoder \<Rightarrow> bool" where
  "encoder_ok enc = (length (en_buf enc) = maxPacketBytes)"

definition decoder_ok :: "'d decoder \<Rightarrow> bool" where
  "decoder_ok dec = (length (de_pcm dec) = maxFrameSamples)"

lemma apply_complexity_simps [simp]:
  "en_buf (apply_complexity lib live enc) = en_buf enc"
  "en_applied (apply_complexity lib live enc) =
     (if 0 \<le> EncoderComplexity live then EncoderComplexity live else en_applied enc)"
  by (auto simp: apply_complexity_def applyComplexity_def)

lemma Encode_ok:
  assumes "fits lib" and "encoder_ok enc"
  shows "encoder_ok (snd (Encode lib live enc pcm))"
proof -
  obtain r e' where r: "ol_Encode lib (en_e (apply_complexity lib live enc)) pcm = (r, e')" by fastforce
  then have "\<forall>p. r = Some p \<longrightarrow> length p \<le> maxPacketBytes" using assms(1) unfolding fits_def by (metis fst_conv)
  then show ?thesis using assms(2) r by (auto simp: Encode_def encoder_ok_def Let_def split: option.split)
qed

lemma Decode_ok:
  assumes "fits lib" and "decoder_ok dec"
  shows "decoder_ok (snd (Decode lib dec x))"
proof -
  obtain r d' where r: "ol_Decode lib (de_d dec) x = (r, d')" by fastforce
  then have "\<forall>p. r = Some p \<longrightarrow> length p \<le> maxFrameSamples" using assms(1) unfolding fits_def by (metis fst_conv)
  then show ?thesis using assms(2) r by (auto simp: Decode_def decoder_ok_def split: option.split)
qed

text \<open>
  The stream of packets as a client sees it that reads each slice before the next call: with the live
  complexity at each frame.
\<close>

fun encode_stream ::
  "('e, 'd) opus_lib \<Rightarrow> 'e encoder \<Rightarrow> (i32 \<times> i16 list) list \<Rightarrow> bytes option list" where
  "encode_stream lib enc [] = []"
| "encode_stream lib enc ((live, pcm) # frames) =
     (let (n, enc') = Encode lib live enc pcm in
      map_option (\<lambda>n. packet_slice n enc') n # encode_stream lib enc' frames)"

text \<open>The library alone, its complexity set whenever a new one that is not negative has been stored.\<close>

fun library_stream ::
  "('e, 'd) opus_lib \<Rightarrow> int \<Rightarrow> 'e \<Rightarrow> (i32 \<times> i16 list) list \<Rightarrow> bytes option list" where
  "library_stream lib applied e [] = []"
| "library_stream lib applied e ((live, pcm) # frames) =
     (let c = EncoderComplexity live;
          e1 = (if 0 \<le> c \<and> c \<noteq> applied then ol_SetComplexity lib c e else e);
          (r, e') = ol_Encode lib e1 pcm in
      r # library_stream lib (if 0 \<le> c then c else applied) e' frames)"

lemma apply_complexity_e:
  "en_e (apply_complexity lib live enc) =
    (if 0 \<le> EncoderComplexity live \<and> EncoderComplexity live \<noteq> en_applied enc
     then ol_SetComplexity lib (EncoderComplexity live) (en_e enc) else en_e enc)"
  by (auto simp: apply_complexity_def applyComplexity_def)

lemma encode_stream_library:
  assumes "fits lib" and "encoder_ok enc"
  shows "encode_stream lib enc frames = library_stream lib (en_applied enc) (en_e enc) frames \<and>
    (\<forall>p. Some p \<in> set (encode_stream lib enc frames) \<longrightarrow> length p \<le> maxPacketBytes)"
  using assms(2)
proof (induction frames arbitrary: enc)
  case (Cons f frames)
  obtain live pcm where f: "f = (live, pcm)" by (cases f)
  let ?e1 = "en_e (apply_complexity lib live enc)"
  obtain r e' where r: "ol_Encode lib ?e1 pcm = (r, e')" by fastforce
  obtain n enc' where n: "Encode lib live enc pcm = (n, enc')" by fastforce
  have len: "\<forall>p. r = Some p \<longrightarrow> length p \<le> maxPacketBytes" using assms(1) r unfolding fits_def by (metis fst_conv)
  have enc': "en_e enc' = e'" "en_applied enc' = en_applied (apply_complexity lib live enc)"
    "map_option (\<lambda>n. packet_slice n enc') n = r"
    using n r by (auto simp: Encode_def packet_slice_def Let_def split: option.splits)
  have "encoder_ok enc'" using Encode_ok[OF assms(1) Cons.prems, of live pcm] n by simp
  from Cons.IH[OF this] show ?case
    using n r enc' len by (auto simp: f apply_complexity_e)
qed simp

text \<open>
  Reusing the buffer is invisible to a client that reads each packet before the next call: the
  encoder gives the library's packets, with the most recent complexity that is not negative applied
  before the frame, and every packet and its buffer within 1275 bytes.
\<close>

theorem encoder_transparent:
  assumes "fits lib" and "encoder_ok enc"
  shows "encode_stream lib enc frames = library_stream lib (en_applied enc) (en_e enc) frames \<and>
    (\<forall>p. Some p \<in> set (encode_stream lib enc frames) \<longrightarrow> length p \<le> maxPacketBytes)"
  by (rule encode_stream_library[OF assms])

definition demo_opus :: "(nat, nat) opus_lib" where
  "demo_opus =
     \<lparr>ol_NewEncoder = Some 0, ol_SetInBandFEC = (\<lambda>b e. e), ol_SetPacketLossPerc = (\<lambda>p e. e), ol_SetDTX = (\<lambda>b e. e),
      ol_SetComplexity = (\<lambda>c e. nat c),
      ol_Encode = (\<lambda>e pcm. (if length pcm = 960 then Some (replicate (e mod 8) 7) else None, e)),
      ol_NewDecoder = Some 0, ol_Decode = (\<lambda>d x. (if x = [] then None else Some (replicate 960 1), d))\<rparr>"

definition demo_encoder :: "nat encoder" where
  "demo_encoder = \<lparr>en_e = 0, en_buf = replicate maxPacketBytes 0, en_applied = - 1\<rparr>"

lemma demo_fits: "fits demo_opus"
  by (auto simp: fits_def demo_opus_def maxPacketBytes_def maxFrameSamples_def split: if_splits)

theorem encoder_transparent_witness:
  "encode_stream demo_opus demo_encoder [(5, replicate 960 0), (- 1, replicate 960 0)] =
    [Some (replicate 5 7), Some (replicate 5 7)]"
proof -
  have ok: "encoder_ok demo_encoder" by (simp add: encoder_ok_def demo_encoder_def)
  have "encode_stream demo_opus demo_encoder [(5, replicate 960 0), (- 1, replicate 960 0)] =
      library_stream demo_opus (en_applied demo_encoder) (en_e demo_encoder) [(5, replicate 960 0), (- 1, replicate 960 0)]"
    by (rule conjunct1[OF encoder_transparent[OF demo_fits ok]])
  also have "\<dots> = [Some (replicate 5 7), Some (replicate 5 7)]"
    by (simp add: demo_opus_def demo_encoder_def EncoderComplexity_def)
  finally show ?thesis .
qed

text \<open>A slice kept across a call changes under the client: it reads the new packet's first bytes.\<close>

lemma kept_slice_changes:
  assumes "Encode lib live enc pcm = (Some m, enc')" and "n \<le> m"
  shows "\<exists>packet. fst (ol_Encode lib (en_e (apply_complexity lib live enc)) pcm) = Some packet \<and>
    length packet = m \<and> packet_slice n enc' = take n packet"
  using assms by (auto simp: Encode_def packet_slice_def write_front_def Let_def split: prod.splits option.splits)

text \<open>The same for the decoder: the samples of a packet, at most 60 ms of them.\<close>

lemma decoder_slice:
  assumes "fits lib" and "decoder_ok dec" and "Decode lib dec x = (Some n, dec')"
  shows "fst (ol_Decode lib (de_d dec) x) = Some (pcm_slice n dec') \<and> n \<le> maxFrameSamples"
proof -
  obtain r d' where r: "ol_Decode lib (de_d dec) x = (r, d')" by fastforce
  then have "\<forall>p. r = Some p \<longrightarrow> length p \<le> maxFrameSamples" using assms(1) unfolding fits_def by (metis fst_conv)
  then show ?thesis using assms(3) r by (auto simp: Decode_def pcm_slice_def split: option.splits)
qed

lemma new_codecs_ok:
  "NewEncoder lib live = Some enc \<Longrightarrow> encoder_ok enc" "NewDecoder lib = Some dec \<Longrightarrow> decoder_ok dec"
  by (auto simp: NewEncoder_def NewDecoder_def encoder_ok_def decoder_ok_def split: option.splits)

end
