(* ===== verification/Doubaosession.thy ===== *)
theory Doubaosession
  imports Doubao Adapter
begin

text \<open>
  The session of the Doubao adapter, \<open>internal/model/doubao/doubao.go\<close>: its set-up frames, the read loop's
  handler for the messages of the server, the transcript reader, the upstream and its keep-alive.  The
  channels and the interleaving are those of \<open>Adapter\<close>.

  JSON decoding and gzip are parameters, and so is the 16-bit value a NaN sample converts to.
\<close>

subsection \<open>The read loop\<close>

record db_transcript =
  dt_Role :: string
  dt_Text :: string
  dt_Final :: bool

record db_codec =
  cd_gunzip :: "bytes \<Rightarrow> bytes option"
  cd_asr :: "bytes \<Rightarrow> (string \<times> bool) list option"
  cd_chat :: "bytes \<Rightarrow> string option"
  cd_nan :: i16

definition emitTranscript :: "string \<Rightarrow> string \<Rightarrow> bool \<Rightarrow> db_transcript action list" where
  "emitTranscript role t final =
     (if t = '''' \<and> \<not> final then []
      else [PushText \<lparr>dt_Role = role, dt_Text = t, dt_Final = final\<rparr>])"

text \<open>A result is its text and whether it is interim.\<close>

definition handleASR :: "db_codec \<Rightarrow> bytes \<Rightarrow> db_transcript action list" where
  "handleASR c payload =
     (case cd_asr c payload of
        None \<Rightarrow> []
      | Some results \<Rightarrow> concat (map (\<lambda>(t, interim). emitTranscript ''user'' t (\<not> interim)) results))"

definition handleChat :: "db_codec \<Rightarrow> string \<Rightarrow> bytes \<Rightarrow> db_transcript action list \<times> string" where
  "handleChat c modelBuf payload =
     (case cd_chat c payload of
        None \<Rightarrow> ([], modelBuf)
      | Some content \<Rightarrow> (emitTranscript ''model'' (modelBuf @ content) False, modelBuf @ content))"

definition db_payload :: "db_codec \<Rightarrow> db_frame \<Rightarrow> bytes" where
  "db_payload c f =
     (if fr_compress f = dbCompressGzip \<and> 0 < length (fr_payload f)
      then (case cd_gunzip c (fr_payload f) of Some dec \<Rightarrow> dec | None \<Rightarrow> fr_payload f)
      else fr_payload f)"

definition db_handle :: "db_codec \<Rightarrow> (bytes, db_transcript, string) handler" where
  "db_handle c modelBuf raw =
     (case dbParseFrame raw of
        Panic \<Rightarrow> ([Crash], modelBuf)
      | ShortFrame \<Rightarrow> ([], modelBuf)
      | Parsed f \<Rightarrow>
          (let payload = db_payload c f; ev = fr_event f in
           if ev = dbEvTTSResponse then
             (case ttsToModelPCM (cd_nan c) payload of
                None \<Rightarrow> ([Crash], modelBuf) | Some samples \<Rightarrow> ([PushAudio samples], modelBuf))
           else if ev = dbEvASRInfo then ([Barge], modelBuf)
           else if ev = dbEvASRResponse then (handleASR c payload, modelBuf)
           else if ev = dbEvChatResponse then handleChat c modelBuf payload
           else if ev = dbEvChatEnded then (emitTranscript ''model'' modelBuf True, '''')
           else if ev = dbEvSessionFailed \<or> ev = dbEvConnectionFailed \<or> ev = dbEvSessionFinished
             then ([Finish], modelBuf)
           else ([], modelBuf)))"

lemma no_end_emit [simp]: "no_end (emitTranscript r t f)"
  by (simp add: no_end_def emitTranscript_def)

lemma no_end_ASR [simp]: "no_end (handleASR c p)"
  by (auto simp: no_end_def handleASR_def emitTranscript_def split: option.splits if_splits)

lemma no_end_Chat [simp]: "no_end (fst (handleChat c b p))"
  by (auto simp: no_end_def handleChat_def emitTranscript_def split: option.splits)

lemmas no_crash = no_end_emit[unfolded no_end_def] no_end_ASR[unfolded no_end_def] no_end_Chat[unfolded no_end_def]

interpretation db: message_handler "db_handle c" for c
proof
  fix b m
  show "ends_last (fst (db_handle c b m))"
  proof (cases "dbParseFrame m")
    case (Parsed f)
    have e: "ends_last (handleASR c p)" "ends_last (fst (handleChat c b p))" "ends_last (emitTranscript r t fin)" for p r t fin
      by (simp_all add: no_end_ends_last)
    show ?thesis
      by (auto simp: db_handle_def Parsed Let_def e ends_last_Cons split: option.split)
  qed (simp_all add: db_handle_def ends_last_Cons)
qed

text \<open>With Doubao's fixed rates neither the parser nor the resampler ends the process.\<close>

lemma tts_total: "length p \<le> 2 ^ 32 \<Longrightarrow> \<exists>ys. ttsToModelPCM n p = Some ys"
  unfolding ttsToModelPCM_def doubaoOutRate_def OpusRate_def
  using resample_bounded[of 24000 48000 "f32leToPCM n p"] length_dec_all[of 4 from_le32 p]
  by (fastforce simp: f32leToPCM_def)

lemma db_never_crashes:
  assumes "\<And>f. dbParseFrame m = Parsed f \<Longrightarrow> length (db_payload c f) \<le> 2 ^ 32"
  shows "Crash \<notin> set (fst (db_handle c b m))"
proof (cases "dbParseFrame m")
  case (Parsed f)
  from tts_total[OF assms[OF Parsed]] obtain ys where "ttsToModelPCM (cd_nan c) (db_payload c f) = Some ys" by blast
  with Parsed show ?thesis by (simp add: db_handle_def Let_def no_crash)
qed (simp_all add: db_handle_def dbParseFrame_no_panic)


subsection \<open>What the transcripts say\<close>

text \<open>
  The contract, without the buffer: the deltas of the chat messages since the last end of a reply, and
  from them what each message tells the bridge.
\<close>

definition chat_delta :: "db_codec \<Rightarrow> bytes \<Rightarrow> string" where
  "chat_delta c raw =
     (case dbParseFrame raw of
        Parsed f \<Rightarrow>
          (if fr_event f = dbEvChatResponse
           then (case cd_chat c (db_payload c f) of Some content \<Rightarrow> content | None \<Rightarrow> '''') else '''')
      | _ \<Rightarrow> '''')"

definition ends_reply :: "bytes \<Rightarrow> bool" where
  "ends_reply raw = (case dbParseFrame raw of Parsed f \<Rightarrow> fr_event f = dbEvChatEnded | _ \<Rightarrow> False)"

definition reply :: "db_codec \<Rightarrow> bytes list \<Rightarrow> string" where
  "reply c ms = concat (map (chat_delta c) (rev (takeWhile (\<lambda>m. \<not> ends_reply m) (rev ms))))"

definition told :: "db_codec \<Rightarrow> bytes list \<Rightarrow> bytes \<Rightarrow> db_transcript list" where
  "told c before raw =
     (case dbParseFrame raw of
        Parsed f \<Rightarrow>
          (let p = db_payload c f; model = (\<lambda>t fin. \<lparr>dt_Role = ''model'', dt_Text = t, dt_Final = fin\<rparr>) in
           if fr_event f = dbEvASRResponse then
             (case cd_asr c p of
                None \<Rightarrow> []
              | Some rs \<Rightarrow> map (\<lambda>(t, interim). \<lparr>dt_Role = ''user'', dt_Text = t, dt_Final = (\<not> interim)\<rparr>)
                               (filter (\<lambda>(t, interim). t \<noteq> '''' \<or> \<not> interim) rs))
           else if fr_event f = dbEvChatResponse then
             (if cd_chat c p = None \<or> reply c (before @ [raw]) = '''' then []
              else [model (reply c (before @ [raw])) False])
           else if fr_event f = dbEvChatEnded then [model (reply c before) True]
           else [])
      | _ \<Rightarrow> [])"

fun told_all :: "db_codec \<Rightarrow> bytes list \<Rightarrow> bytes list \<Rightarrow> db_transcript list" where
  "told_all c before [] = []"
| "told_all c before (m # ms) = told c before m @ told_all c (before @ [m]) ms"

lemma reply_snoc:
  "reply c (ms @ [m]) = (if ends_reply m then '''' else reply c ms @ chat_delta c m)"
  by (simp add: reply_def)

lemma db_event_distinct:
  "dbEvChatResponse \<noteq> dbEvTTSResponse" "dbEvChatResponse \<noteq> dbEvASRInfo" "dbEvChatResponse \<noteq> dbEvASRResponse"
  "dbEvChatEnded \<noteq> dbEvTTSResponse" "dbEvChatEnded \<noteq> dbEvASRInfo" "dbEvChatEnded \<noteq> dbEvASRResponse"
  "dbEvChatEnded \<noteq> dbEvChatResponse" "dbEvASRResponse \<noteq> dbEvTTSResponse" "dbEvASRResponse \<noteq> dbEvASRInfo"
  "dbEvChatResponse \<noteq> dbEvChatEnded" "dbEvASRResponse \<noteq> dbEvChatResponse" "dbEvASRResponse \<noteq> dbEvChatEnded"
  "dbEvTTSResponse \<noteq> dbEvASRInfo" "dbEvTTSResponse \<noteq> dbEvASRResponse" "dbEvTTSResponse \<noteq> dbEvChatResponse"
  "dbEvTTSResponse \<noteq> dbEvChatEnded" "dbEvASRInfo \<noteq> dbEvASRResponse" "dbEvASRInfo \<noteq> dbEvChatResponse"
  "dbEvASRInfo \<noteq> dbEvChatEnded" "dbEvASRInfo \<noteq> dbEvTTSResponse"
  by (simp_all add: db_events)

lemma texts_asr:
  "texts (concat (map (\<lambda>(t, interim). emitTranscript ''user'' t (\<not> interim)) rs)) =
     map (\<lambda>(t, interim). \<lparr>dt_Role = ''user'', dt_Text = t, dt_Final = (\<not> interim)\<rparr>)
       (filter (\<lambda>(t, interim). t \<noteq> '''' \<or> \<not> interim) rs)"
  by (induction rs) (auto simp: emitTranscript_def)

lemma db_handle_told:
  "texts (fst (db_handle c (reply c before) m)) = told c before m \<and>
   snd (db_handle c (reply c before) m) = reply c (before @ [m])"
proof (cases "dbParseFrame m")
  case (Parsed f)
  show ?thesis
    by (auto simp: db_handle_def told_def reply_snoc ends_reply_def chat_delta_def Parsed Let_def handleASR_def
        handleChat_def texts_asr db_event_distinct split: option.splits)
      (auto simp: emitTranscript_def)
qed (auto simp: db_handle_def told_def reply_snoc ends_reply_def chat_delta_def dbParseFrame_no_panic)

lemma handle_all_told:
  "texts (fst (handle_all (db_handle c) (reply c before) ms)) = told_all c before ms"
proof (induction ms arbitrary: before)
  case (Cons m ms)
  then show ?case
    using db_handle_told[of c before m] by (simp add: handle_all_fst_Cons del: handle_all.simps(2))
qed simp

text \<open>The items received from the channel and those still to come are what the messages tell.\<close>

lemma channel_transcripts:
  assumes "Cancel \<notin> set es" and "collect (ad_step (db_handle c)) (new_adapter []) es = (os, s)"
  shows "texts_got os @ pending_texts s = told_all c [] (messages_read os)"
proof -
  have "pending_texts (new_adapter '''' :: (db_transcript, string) adapter) = []"
    by (simp add: pending_texts_def new_adapter_def todo_def)
  then show ?thesis
    using db.texts_exact[OF adapter_ok_new _ assms] handle_all_told[of c "[]" "messages_read os"]
    by (simp add: reply_def new_adapter_def)
qed

text \<open>
  C31: A barge-in silences the model at once: when the reader has handled the server's speech event, no
  audio received before the event is delivered any more, and the bridge's next poll reports the
  interruption.
\<close>

theorem doubao_barge_in:
  assumes "adapter_ok s" and "ad_reader s = Some (fst (db_handle c b m))" and "dbParseFrame m = Parsed f"
    and "fr_event f = dbEvASRInfo" and "collect (ad_step (db_handle c)) s (Reader ctx # es) = (os, s')"
    and "\<not> ad_cancelled s"
  shows "subseq (audio_got os) (audios (fst (handle_all (db_handle c) (ad_buf s) (messages_read os))))
    \<and> fst (RecvInterrupted False (snd (ad_step (db_handle c) s (Reader ctx)))) = Some True"
proof -
  let ?s = "snd (ad_step (db_handle c) s (Reader ctx))"
  have r: "ad_reader s = Some [Barge]" using assms(2-4) by (simp add: db_handle_def db_event_distinct)
  have nc: "\<not> ad_crashed s" using assms(1) r by (auto simp: adapter_ok_def)
  then have q: "fst (ad_step (db_handle c) s (Reader ctx)) = Quiet" by (simp add: ad_step_def)
  obtain os' where os: "os = Quiet # os'" "collect (ad_step (db_handle c)) ?s es = (os', s')"
    using assms(5) q by (auto simp: split_beta Let_def prod_eq_iff)
  from db.barge_in[OF assms(1) r os(2)]
  have "subseq (audio_got os') (audios (fst (handle_all (db_handle c) (ad_buf s) (messages_read os'))))"
    and i: "ch_items (ad_irq ?s) = [()]" by auto
  moreover have "\<not> ad_cancelled ?s"
    using assms(6) nc r by (simp add: ad_step_def reader_step_def act_def signalInterrupted_def Let_def)
  ultimately show ?thesis using os(1) by (simp add: RecvInterrupted_def ch_ready_def)
qed


text \<open>A server that streams two pieces of a reply, ends it, and detects speech.\<close>

definition demo_codec :: db_codec where
  "demo_codec = \<lparr>cd_gunzip = (\<lambda>_. None), cd_asr = (\<lambda>_. None), cd_chat = (\<lambda>p. Some (replicate (length p) CHR ''a'')), cd_nan = 0\<rparr>"

definition server_frame :: "u32 \<Rightarrow> bytes \<Rightarrow> bytes" where
  "server_frame ev payload = dbBuildFrame 9 dbSerialRaw 0 ev ''s'' payload"

lemma parse_server_frame:
  assumes "\<not> dbIsConnectionEvent ev" and "length payload < 2 ^ 32"
  shows "dbParseFrame (server_frame ev payload) = Parsed \<lparr>fr_msgType = 9, fr_flags = dbFlagWithEvent, fr_serial = dbSerialRaw,
    fr_compress = 0, fr_event = ev, fr_sessionID = ''s'', fr_errorCode = 0, fr_payload = payload\<rparr>"
proof -
  have "dbParseFrame (dbBuildFrame 9 dbSerialRaw 0 ev ''s'' payload) = Parsed \<lparr>fr_msgType = 9, fr_flags = dbFlagWithEvent,
    fr_serial = dbSerialRaw, fr_compress = 0, fr_event = ev,
    fr_sessionID = (if dbIsConnectionEvent ev then '''' else ''s''), fr_errorCode = 0, fr_payload = payload\<rparr>"
    using assms by (intro parse_build) (auto simp: db_consts)
  then show ?thesis using assms(1) by (simp add: server_frame_def)
qed

lemma demo_handle:
  "length p < 2 ^ 32 \<Longrightarrow> db_handle demo_codec b (server_frame dbEvChatResponse p) =
     (emitTranscript ''model'' (b @ replicate (length p) CHR ''a'') False, b @ replicate (length p) CHR ''a'')"
  "db_handle demo_codec b (server_frame dbEvChatEnded []) = (emitTranscript ''model'' b True, '''')"
  "db_handle demo_codec b (server_frame dbEvASRInfo []) = ([Barge], b)"
proof -
  have ne: "\<not> dbIsConnectionEvent dbEvChatResponse" "\<not> dbIsConnectionEvent dbEvChatEnded" "\<not> dbIsConnectionEvent dbEvASRInfo"
    by (simp_all add: dbIsConnectionEvent_def db_events)
  note f = parse_server_frame[OF ne(1)] parse_server_frame[OF ne(2)] parse_server_frame[OF ne(3)]
  note [simp] = db_handle_def Let_def db_payload_def db_event_distinct handleChat_def demo_codec_def dbCompressGzip_def
  show "length p < 2 ^ 32 \<Longrightarrow> db_handle demo_codec b (server_frame dbEvChatResponse p) =
     (emitTranscript ''model'' (b @ replicate (length p) CHR ''a'') False, b @ replicate (length p) CHR ''a'')" by (simp add: f)
  show "db_handle demo_codec b (server_frame dbEvChatEnded []) = (emitTranscript ''model'' b True, '''')" by (simp add: f)
  show "db_handle demo_codec b (server_frame dbEvASRInfo []) = ([Barge], b)" by (simp add: f)
qed

theorem doubao_barge_in_witness:
  "fst (RecvInterrupted False (snd (ad_step (db_handle demo_codec)
     ((new_adapter '''')\<lparr>ad_audio := (make_chan 64)\<lparr>ch_items := [[1, 2]]\<rparr>, ad_reader := Some [Barge]\<rparr>) (Reader False)))) = Some True"
proof -
  let ?s = "(new_adapter '''')\<lparr>ad_audio := (make_chan 64)\<lparr>ch_items := [[1, 2]]\<rparr>, ad_reader := Some [Barge]\<rparr>
    :: (db_transcript, string) adapter"
  let ?m = "server_frame dbEvASRInfo []"
  have ok: "adapter_ok ?s" by (simp add: adapter_ok_def new_adapter_def todo_def make_chan_def ends_last_def)
  have rd: "ad_reader ?s = Some (fst (db_handle demo_codec (ad_buf ?s) ?m))" by (simp add: demo_handle(3))
  have p: "dbParseFrame ?m = Parsed \<lparr>fr_msgType = 9, fr_flags = dbFlagWithEvent, fr_serial = dbSerialRaw,
    fr_compress = 0, fr_event = dbEvASRInfo, fr_sessionID = ''s'', fr_errorCode = 0, fr_payload = []\<rparr>"
    by (rule parse_server_frame) (simp_all add: dbIsConnectionEvent_def db_events)
  obtain os s' where r: "collect (ad_step (db_handle demo_codec)) ?s [Reader False] = (os, s')" by fastforce
  have nc: "\<not> ad_cancelled ?s" by (simp add: new_adapter_def)
  from doubao_barge_in[OF ok rd p _ r nc] show ?thesis by simp
qed


subsection \<open>The bridge's transcript reader\<close>

text \<open>
  \<open>RecvTranscript\<close> loops over turns with an empty text; \<open>k\<close> says at which iteration a cancelled context wins
  over a ready channel.  A \<^const>\<open>Blocked\<close> result is a call that waits.
\<close>

function RecvTranscript ::
  "nat \<Rightarrow> (db_transcript, 'b) adapter \<Rightarrow> model_transcript got \<times> (db_transcript, 'b) adapter" where
  "RecvTranscript k s =
     (case recvTranscript (k = 0) s of
        (Got t, s') \<Rightarrow>
          (if dt_Text t = '''' then RecvTranscript (k - 1) s'
           else (Got \<lparr>tr_Role = dt_Role t, tr_Text = dt_Text t\<rparr>, s'))
      | (EOF, s') \<Rightarrow> (EOF, s')
      | (Blocked, s') \<Rightarrow> (Blocked, s'))"
  by auto
termination
  by (relation "measure (\<lambda>(k, s). length (ch_items (ad_text s)))")
    (auto simp: recvTranscript_def ch_recv_def split_beta split: list.splits if_splits)

declare RecvTranscript.simps [simp del]

text \<open>The call returns the first turn with text and leaves the turns after it.\<close>

lemma recv_transcript_skips:
  assumes "\<not> ad_cancelled s"
  shows "RecvTranscript k s =
    (case dropWhile (\<lambda>t. dt_Text t = '''') (ch_items (ad_text s)) of
       [] \<Rightarrow> (if ch_closed (ad_text s) then EOF else Blocked, s\<lparr>ad_text := (ad_text s)\<lparr>ch_items := []\<rparr>\<rparr>)
     | t # ts \<Rightarrow> (Got \<lparr>tr_Role = dt_Role t, tr_Text = dt_Text t\<rparr>, s\<lparr>ad_text := (ad_text s)\<lparr>ch_items := ts\<rparr>\<rparr>))"
  using assms
proof (induction "ch_items (ad_text s)" arbitrary: s k)
  case Nil
  then show ?case
    by (subst RecvTranscript.simps) (simp add: recvTranscript_def ch_recv_def)
next
  case (Cons t ts)
  let ?s = "s\<lparr>ad_text := (ad_text s)\<lparr>ch_items := ts\<rparr>\<rparr>"
  have r: "recvTranscript (k = 0) s = (Got t, ?s)"
    using Cons.hyps(2)[symmetric] Cons.prems by (simp add: recvTranscript_def ch_recv_def)
  have "RecvTranscript (k - 1) ?s =
    (case dropWhile (\<lambda>t. dt_Text t = '''') ts of
       [] \<Rightarrow> (if ch_closed (ad_text ?s) then EOF else Blocked, ?s\<lparr>ad_text := (ad_text ?s)\<lparr>ch_items := []\<rparr>\<rparr>)
     | t # ts \<Rightarrow> (Got \<lparr>tr_Role = dt_Role t, tr_Text = dt_Text t\<rparr>, ?s\<lparr>ad_text := (ad_text ?s)\<lparr>ch_items := ts\<rparr>\<rparr>))"
    using Cons.hyps(1)[of ?s "k - 1"] Cons.prems by simp
  then show ?case
    by (subst RecvTranscript.simps, cases "dropWhile (\<lambda>t. dt_Text t = '''') ts")
      (simp_all add: r Cons.hyps(2)[symmetric] del: dropWhile_eq_Nil_conv)
qed

text \<open>
  The session as the bridge drives it: the steps of the reader and of the other calls, and calls of
  \<open>RecvTranscript\<close>.  (The receives that one call makes are taken together.)
\<close>

definition public_step ::
  "db_codec \<Rightarrow> (db_transcript, string) adapter \<Rightarrow> bytes event + nat
     \<Rightarrow> ((bytes, db_transcript) out + model_transcript got) \<times> (db_transcript, string) adapter" where
  "public_step c s e =
     (case e of
        Inl e \<Rightarrow> map_prod Inl id (ad_step (db_handle c) s e)
      | Inr k \<Rightarrow> (if ad_crashed s then (Inr Blocked, s) else map_prod Inr id (RecvTranscript k s)))"

fun public_lines :: "((bytes, db_transcript) out + model_transcript got) list \<Rightarrow> model_transcript list" where
  "public_lines [] = []"
| "public_lines (Inr (Got t) # os) = t # public_lines os"
| "public_lines (_ # os) = public_lines os"

fun public_messages :: "((bytes, db_transcript) out + model_transcript got) list \<Rightarrow> bytes list" where
  "public_messages [] = []"
| "public_messages (Inl x # os) = messages_read [x] @ public_messages os"
| "public_messages (Inr g # os) = public_messages os"

text \<open>The turns with a text, as the bridge gets them.\<close>

definition with_text :: "db_transcript list \<Rightarrow> model_transcript list" where
  "with_text ts = map (\<lambda>t. \<lparr>tr_Role = dt_Role t, tr_Text = dt_Text t\<rparr>) (filter (\<lambda>t. dt_Text t \<noteq> '''') ts)"

lemma with_text_append [simp]: "with_text (xs @ ys) = with_text xs @ with_text ys" "with_text [] = []"
  by (simp_all add: with_text_def)

lemma recv_simulated:
  assumes "\<not> ad_crashed s" and "RecvTranscript k s = (g, s')"
  shows "\<exists>es os. collect (ad_step h) s es = (os, s') \<and> Cancel \<notin> set es \<and> messages_read os = [] \<and>
    with_text (texts_got os) = (case g of Got t \<Rightarrow> [t] | _ \<Rightarrow> [])"
  using assms
proof (induction k s rule: RecvTranscript.induct)
  case (1 k s)
  obtain r s1 where r: "recvTranscript (k = 0) s = (r, s1)" by fastforce
  have nc: "\<not> ad_crashed s1" using 1(2) r by (auto simp: recvTranscript_def split_beta)
  have st: "ad_step h s (CallRecvTranscript (k = 0)) = (GotText r, s1)" using 1(2) r by (simp add: ad_step_def)
  show ?case
  proof (cases "\<exists>t. r = Got t \<and> dt_Text t = ''''")
    case True
    then obtain t where t: "r = Got t" "dt_Text t = ''''" by blast
    then have "RecvTranscript (k - 1) s1 = (g, s')" using 1(3) r by (subst (asm) RecvTranscript.simps) simp
    from 1(1)[OF r[symmetric] t(1,2) nc this] obtain es os where
      e: "collect (ad_step h) s1 es = (os, s')" "Cancel \<notin> set es" "messages_read os = []"
        "with_text (texts_got os) = (case g of Got t \<Rightarrow> [t] | _ \<Rightarrow> [])" by blast
    then show ?thesis using st t
      by (intro exI[of _ "CallRecvTranscript (k = 0) # es"] exI[of _ "GotText r # os"]) (simp add: with_text_def)
  next
    case False
    then have "s1 = s' \<and> with_text (texts_got [GotText r]) = (case g of Got t \<Rightarrow> [t] | _ \<Rightarrow> [])"
      using 1(3) r by (subst (asm) RecvTranscript.simps) (auto simp: with_text_def split: got.splits if_splits)
    then show ?thesis using st
      by (intro exI[of _ "[CallRecvTranscript (k = 0)]"] exI[of _ "[GotText r]"]) simp
  qed
qed

lemma public_simulated:
  assumes "collect (public_step c) s es = (os, s')" and "Inl Cancel \<notin> set es"
    and "\<forall>ctx. Inl (CallRecvTranscript ctx) \<notin> set es"
  shows "\<exists>es1 os1. collect (ad_step (db_handle c)) s es1 = (os1, s') \<and> Cancel \<notin> set es1 \<and>
    messages_read os1 = public_messages os \<and> with_text (texts_got os1) = public_lines os"
  using assms
proof (induction es arbitrary: s os)
  case (Cons e es)
  obtain v s1 where v: "public_step c s e = (v, s1)" by fastforce
  obtain vs where vs: "collect (public_step c) s1 es = (vs, s')" "os = v # vs"
    using Cons.prems(1) v by (auto simp: Let_def split: prod.splits)
  obtain es1 os1 where i: "collect (ad_step (db_handle c)) s1 es1 = (os1, s')" "Cancel \<notin> set es1"
      "messages_read os1 = public_messages vs" "with_text (texts_got os1) = public_lines vs"
    using Cons.IH[OF vs(1)] Cons.prems(2,3) by auto
  have "\<exists>es0 os0. collect (ad_step (db_handle c)) s es0 = (os0, s1) \<and> Cancel \<notin> set es0 \<and>
      messages_read os0 = public_messages [v] \<and> with_text (texts_got os0) = public_lines [v]"
  proof (cases e)
    case (Inl a)
    then obtain x where x: "ad_step (db_handle c) s a = (x, s1)" "v = Inl x"
      using v by (cases "ad_step (db_handle c) s a") (simp add: public_step_def)
    have "\<nexists>t. x = GotText t"
    proof
      assume "\<exists>t. x = GotText t"
      then have "\<exists>ctx. a = CallRecvTranscript ctx" using x(1)
        by (cases a) (auto simp: ad_step_def map_prod_def split_beta split: if_splits option.splits)
      then show False using Cons.prems(3) Inl by auto
    qed
    then show ?thesis using x Inl Cons.prems(2)
      by (intro exI[of _ "[a]"] exI[of _ "[x]"]) (cases x; auto)
  next
    case (Inr k)
    then show ?thesis
    proof (cases "ad_crashed s")
      case True
      then have "v = Inr Blocked" "s1 = s" using v Inr by (simp_all add: public_step_def)
      then show ?thesis by (intro exI[of _ "[]"]) simp
    next
      case False
      then obtain g where g: "RecvTranscript k s = (g, s1)" "v = Inr g"
        using v Inr by (cases "RecvTranscript k s") (simp add: public_step_def)
      from recv_simulated[OF False g(1), of "db_handle c"] show ?thesis
        using g(2) by (cases g) auto
    qed
  qed
  then obtain es0 os0 where o: "collect (ad_step (db_handle c)) s es0 = (os0, s1)" "Cancel \<notin> set es0"
      "messages_read os0 = public_messages [v]" "with_text (texts_got os0) = public_lines [v]" by blast
  have "public_messages (v # vs) = public_messages [v] @ public_messages vs"
    "public_lines (v # vs) = public_lines [v] @ public_lines vs"
    by (cases v; simp; cases "projr v"; simp)+
  then show ?case using o i vs(2)
    by (intro exI[of _ "es0 @ es1"] exI[of _ "os0 @ os1"]) (simp add: collect_append)
qed (auto intro: exI[of _ "[]"])

text \<open>
  C30: While the session is live, the transcripts that \<open>RecvTranscript\<close> hands to the bridge are, in order
  and without loss or duplication, those with a text among what the server's messages tell: for the user
  one per recognition result, interim results included; for the model the whole of the reply so far at
  each piece of it and again at its end.  (An empty final result and the end of an empty reply are told
  with an empty text, which \<open>RecvTranscript\<close> skips.)  What has not been received yet is waiting in the
  channel or in the reader.
\<close>

theorem doubao_transcripts:
  assumes "Inl Cancel \<notin> set es" and "\<forall>ctx. Inl (CallRecvTranscript ctx) \<notin> set es"
    and "collect (public_step c) (new_adapter '''') es = (os, s)"
  shows "public_lines os @ with_text (pending_texts s) = with_text (told_all c [] (public_messages os))"
proof -
  obtain es1 os1 where r: "collect (ad_step (db_handle c)) (new_adapter '''') es1 = (os1, s)" "Cancel \<notin> set es1"
      "messages_read os1 = public_messages os" "with_text (texts_got os1) = public_lines os"
    using public_simulated[OF assms(3,1,2)] by blast
  from channel_transcripts[OF r(2,1)] have "with_text (texts_got os1 @ pending_texts s) = with_text (told_all c [] (messages_read os1))"
    by simp
  then show ?thesis by (simp add: r(3,4))
qed

theorem doubao_transcripts_witness:
  "with_text (told_all demo_codec [] [server_frame dbEvChatResponse [72], server_frame dbEvChatEnded []]) =
    [\<lparr>tr_Role = ''model'', tr_Text = ''a''\<rparr>, \<lparr>tr_Role = ''model'', tr_Text = ''a''\<rparr>]"
proof -
  let ?f = "server_frame dbEvChatResponse [72]" and ?g = "server_frame dbEvChatEnded []"
  let ?es = "[Inl (Message ?f), Inl (Reader False), Inl (Message ?g), Inl (Reader False), Inr 1, Inr 1]"
  obtain os s where r: "collect (public_step demo_codec) (new_adapter '''') ?es = (os, s)" by fastforce
  have h: "db_handle demo_codec '''' ?f = ([PushText \<lparr>dt_Role = ''model'', dt_Text = ''a'', dt_Final = False\<rparr>], ''a'')"
    "db_handle demo_codec ''a'' ?g = ([PushText \<lparr>dt_Role = ''model'', dt_Text = ''a'', dt_Final = True\<rparr>], '''')"
    using demo_handle(1)[of "[72]" "''''"] demo_handle(2)[of "''a''"]
    by (simp_all add: emitTranscript_def)
  have "os = fst (collect (public_step demo_codec) (new_adapter '''') ?es)"
    "s = snd (collect (public_step demo_codec) (new_adapter '''') ?es)" using r by simp_all
  then have "public_messages os = [?f, ?g]" "public_lines os =
      [\<lparr>tr_Role = ''model'', tr_Text = ''a''\<rparr>, \<lparr>tr_Role = ''model'', tr_Text = ''a''\<rparr>]" "pending_texts s = []"
    by (simp_all add: public_step_def new_adapter_def ad_step_def h reader_step_def act_def recv_transcript_skips ch_full_def
        pending_texts_def todo_def Let_def)
  with doubao_transcripts[OF _ _ r] show ?thesis by simp
qed

subsection \<open>The end of the session\<close>

text \<open>
  \<open>Close\<close> returns: once it has cancelled the context, the reader's remaining operations never block,
  whatever the bridge does meanwhile, and when the read of the closed connection fails the reader has
  returned.
\<close>

theorem doubao_close_returns:
  assumes "adapter_ok s" and "ad_cancelled s" and "\<forall>e \<in> set es. \<not> is_message e"
    and "length (todo s) \<le> length (filter is_reader es)"
  shows "ad_reader (snd (collect (ad_step (db_handle c)) s (es @ [ReadError]))) = None"
  by (rule db.close_returns[OF assms])

theorem doubao_close_returns_witness:
  "ad_reader (snd (collect (ad_step (db_handle demo_codec))
     ((new_adapter '''')\<lparr>ad_cancelled := True, ad_reader := Some [PushAudio [1], Barge]\<rparr>)
     [Reader False, CallRecv True, Reader False, ReadError])) = None"
proof -
  let ?s = "(new_adapter '''')\<lparr>ad_cancelled := True, ad_reader := Some [PushAudio [1], Barge]\<rparr> :: (db_transcript, string) adapter"
  have "adapter_ok ?s" by (simp add: adapter_ok_def new_adapter_def todo_def ends_last_def)
  from doubao_close_returns[OF this, of "[Reader False, CallRecv True, Reader False]"]
  show ?thesis by (simp add: todo_def)
qed

definition Doubao_Close ::
  "db_codec \<Rightarrow> nat \<Rightarrow> (db_transcript, string) adapter \<Rightarrow> (db_transcript, string) adapter option" where
  "Doubao_Close c = adapter_Close (db_handle c)"

lemma Doubao_Close_ok:
  assumes "adapter_ok s" and "length (todo s) \<le> n"
  shows "\<exists>s'. Doubao_Close c n s = Some s' \<and> ad_cancelled s' \<and> ad_reader s' = None"
  unfolding Doubao_Close_def by (rule db.adapter_close[OF assms])

text \<open>
  When the server ends the session, the reader closes the channels while the context stays live.  From
  then on every poll of the interruption signal reports a barge-in, and handling it never returns.
\<close>

lemma server_end_hangs_interruption:
  fixes c ctx
  assumes "adapter_ok s" and "\<not> ad_cancelled s" and "ad_reader s = Some (Finish # rest)"
  defines "s' \<equiv> snd (ad_step (db_handle c) s (Reader ctx))"
  shows "fst (RecvInterrupted False s') = Some True" and "HandleInterrupted fuel s' = None"
proof -
  have "s' = end_reader s"
    using assms(1,3) by (auto simp: s'_def ad_step_def reader_step_def act_def Let_def adapter_ok_def)
  then show "fst (RecvInterrupted False s') = Some True" "HandleInterrupted fuel s' = None"
    using assms(2) by (simp_all add: RecvInterrupted_def ch_ready_def HandleInterrupted_def drain_closed end_reader_def)
qed

subsection \<open>Set-up\<close>

text \<open>
  What the constructor meets: the environment, the random ids, and whether the dial and the two writes
  succeed.  \<open>json.Marshal\<close> and gzip are parameters.
\<close>

record doubao_env =
  de_appID :: string
  de_token :: string
  de_botName :: string
  de_connectID :: string
  de_sid :: string
  de_dial :: "string \<Rightarrow> (string \<times> string) list \<Rightarrow> bool"
  de_startConnection :: bool
  de_startSession :: bool
  de_marshal :: "json \<Rightarrow> string"
  de_gzip :: "bytes \<Rightarrow> bytes"

definition writeFrame :: "u8 \<Rightarrow> u8 \<Rightarrow> u32 \<Rightarrow> bytes \<Rightarrow> string \<Rightarrow> bytes" where
  "writeFrame msgType serial event payload sid = dbBuildFrame msgType serial dbCompressGzip event sid payload"

definition startConnection_frame :: "doubao_env \<Rightarrow> bytes" where
  "startConnection_frame e =
     writeFrame dbMsgFullClient dbSerialJSON dbEvStartConnection (de_gzip e (map u8_of_char ''{}'')) (de_sid e)"

definition startSession_frame :: "doubao_env \<Rightarrow> doubao_config \<Rightarrow> restored_turn list \<Rightarrow> bytes" where
  "startSession_frame e cfg history =
     writeFrame dbMsgFullClient dbSerialJSON dbEvStartSession
       (de_gzip e (map u8_of_char (de_marshal e (buildStartSession cfg history)))) (de_sid e)"

text \<open>
  The result, with the frames written, and whether a connection that was dialled has been closed again.
\<close>

datatype doubao_new =
  NewError go_error "bytes list" bool
| NewSession string "bytes list"

definition doubaoURL :: string where
  "doubaoURL = ''wss://openspeech.bytedance.com/api/v3/realtime/dialogue''"

definition doubaoPublicAppKey :: string where
  "doubaoPublicAppKey = ''PlgvMymc7f3tQnJ6''"

definition doubao_header :: "doubao_env \<Rightarrow> (string \<times> string) list" where
  "doubao_header e =
     [(''X-Api-App-ID'', de_appID e), (''X-Api-Access-Key'', de_token e), (''X-Api-Resource-Id'', ''volc.speech.dialog''),
      (''X-Api-App-Key'', doubaoPublicAppKey), (''X-Api-Connect-Id'', de_connectID e)]"

definition Doubao_NewWithConfig :: "doubao_env \<Rightarrow> doubao_config \<Rightarrow> restored_turn list \<Rightarrow> doubao_new" where
  "Doubao_NewWithConfig e cfg0 history =
     (if de_appID e = '''' \<or> de_token e = ''''
      then NewError ''doubao: set DOUBAO_APP_ID and DOUBAO_ACCESS_TOKEN'' [] False
      else
        (let cfg = resolve_config (de_botName e) cfg0 in
         if \<not> de_dial e doubaoURL (doubao_header e) then NewError ''doubao: dial'' [] False
         else if \<not> de_startConnection e then NewError ''doubao: start connection'' [] True
         else if \<not> de_startSession e
              then NewError ''doubao: start session'' [startConnection_frame e] True
         else NewSession (de_sid e) [startConnection_frame e, startSession_frame e cfg history]))"

text \<open>The two short constructors, with the zero configuration, and the text input that does nothing.\<close>

definition zero_config :: doubao_config where
  "zero_config =
     \<lparr>dc_ModelVersion = '''', dc_BotName = '''', dc_SystemRole = '''', dc_SpeakingStyle = '''', dc_Voice = '''',
      dc_ASRTwopass = False, dc_ASREndSmoothMs = 0, dc_Hotwords = []\<rparr>"

definition Doubao_New :: "doubao_env \<Rightarrow> doubao_new" where
  "Doubao_New e = Doubao_NewWithConfig e zero_config []"

definition Doubao_NewWithHistory :: "doubao_env \<Rightarrow> restored_turn list \<Rightarrow> doubao_new" where
  "Doubao_NewWithHistory e history = Doubao_NewWithConfig e zero_config history"

lemma NewWithHistory_empty: "Doubao_NewWithHistory e [] = Doubao_New e"
  by (simp add: Doubao_New_def Doubao_NewWithHistory_def)

definition Doubao_SendText :: "string \<Rightarrow> bytes list" where
  "Doubao_SendText t = []"

definition Doubao_SupportsInterruption :: bool where
  "Doubao_SupportsInterruption = True"

text \<open>A history of a reconnect reaches the server in the start payload, in order, and only then.\<close>

lemma history_in_start:
  assumes "Doubao_NewWithConfig e cfg history = NewSession sid ws" and "history \<noteq> []"
  shows "\<exists>start dialog. ws = [startConnection_frame e,
      writeFrame dbMsgFullClient dbSerialJSON dbEvStartSession (de_gzip e (map u8_of_char (de_marshal e (JObj start)))) sid]
    \<and> (''dialog'', JObj dialog) \<in> set start
    \<and> (''dialog_context'', JArr (dialogContext history)) \<in> set dialog"
proof -
  from assms(1) have "ws = [startConnection_frame e, startSession_frame e (resolve_config (de_botName e) cfg) history]"
    "sid = de_sid e" by (auto simp: Doubao_NewWithConfig_def Let_def split: if_splits)
  with assms(2) show ?thesis
    unfolding startSession_frame_def buildStartSession_def Let_def by (auto simp: dialogContext_def)
qed

subsection \<open>The upstream and its keep-alive\<close>

definition Doubao_SendAudio :: "(bytes \<Rightarrow> bytes) \<Rightarrow> string \<Rightarrow> i16 list \<Rightarrow> bytes option" where
  "Doubao_SendAudio gzip sid samples =
     map_option (\<lambda>i. writeFrame dbMsgAudioClient dbSerialRaw dbEvTaskRequest (gzip (ToBytes i)) sid)
       (ResampleLinear samples OpusRate doubaoInRate)"

definition silence_bytes :: bytes where
  "silence_bytes = replicate (nat (doubaoInRate div 10 * 2)) 0"

definition keepAlive_frame :: "(bytes \<Rightarrow> bytes) \<Rightarrow> string \<Rightarrow> bytes" where
  "keepAlive_frame gzip sid = writeFrame dbMsgAudioClient dbSerialRaw dbEvTaskRequest (gzip silence_bytes) sid"

text \<open>The events of the upstream, with their times: audio from the bridge and the ticks of the keep-alive.\<close>

datatype upstream = SendAudio_at time | Tick_at time

text \<open>\<open>lastSend\<close>, and the times at which something was written.\<close>

fun up_step :: "time \<times> time list \<Rightarrow> upstream \<Rightarrow> time \<times> time list" where
  "up_step (lastSend, sent) (SendAudio_at now) = (now, sent @ [now])"
| "up_step (lastSend, sent) (Tick_at now) =
     (if now - lastSend < 5 * second then (lastSend, sent) else (now, sent @ [now]))"

text \<open>Ticks come every second, and sends in between.\<close>

fun ticking :: "time \<Rightarrow> upstream list \<Rightarrow> bool" where
  "ticking t [] = True"
| "ticking t (SendAudio_at now # es) = (t \<le> now \<and> now \<le> t + second \<and> ticking t es)"
| "ticking t (Tick_at now # es) = (now \<le> t + second \<and> ticking now es)"

fun gaps_below :: "time \<Rightarrow> time list \<Rightarrow> bool" where
  "gaps_below d (a # b # ts) = (b - a < d \<and> gaps_below d (b # ts))"
| "gaps_below d ts = True"

lemma gaps_below_snoc: "gaps_below d (xs @ [a, b]) \<longleftrightarrow> gaps_below d (xs @ [a]) \<and> b - a < d"
  by (induction d xs rule: gaps_below.induct) auto

lemma keep_alive_gaps:
  assumes "ticking t es" and "t - l < 5 * second" and "gaps_below (6 * second) (xs @ [l])"
    and "foldl up_step (l, xs @ [l]) es = (l', sent)"
  shows "gaps_below (6 * second) sent"
  using assms
proof (induction es arbitrary: t l xs)
  case (Cons e es)
  show ?case
  proof (cases e)
    case (SendAudio_at now)
    with Cons.prems have now: "t \<le> now" "now \<le> t + second" "ticking t es" by auto
    have "t - now < 5 * second" "now - l < 6 * second" using now(1,2) Cons.prems(2) second_pos by linarith+
    with Cons.IH[OF now(3), of now "xs @ [l]"] Cons.prems(3,4) SendAudio_at show ?thesis
      by (simp add: gaps_below_snoc)
  next
    case (Tick_at now)
    with Cons.prems have now: "now \<le> t + second" "ticking now es" by auto
    show ?thesis
    proof (cases "now - l < 5 * second")
      case True
      with Cons.IH[OF now(2) True Cons.prems(3)] Cons.prems(4) Tick_at show ?thesis by simp
    next
      case False
      have "now - l < 6 * second" using now(1) Cons.prems(2) by linarith
      with Cons.IH[OF now(2), of now "xs @ [l]"] Cons.prems(3,4) Tick_at False show ?thesis
        by (simp add: gaps_below_snoc)
    qed
  qed
qed simp

text \<open>
  While ticks come every second and writes succeed, the upstream is never silent for six seconds:
  from the session's start on, two consecutive frames written are less than six seconds apart, whatever
  audio the bridge sends in between.
\<close>

theorem keep_alive:
  assumes "ticking t0 es" and "foldl up_step (t0, [t0]) es = (l, sent)"
  shows "gaps_below (6 * second) sent"
  using keep_alive_gaps[OF assms(1), of t0 "[]"] assms(2) by simp

theorem keep_alive_witness:
  "snd (foldl up_step (0, [0]) [Tick_at second, SendAudio_at (second + 5), Tick_at (2 * second)]) = [0, second + 5] \<and>
   gaps_below (6 * second) [0, second + 5]"
proof -
  let ?es = "[Tick_at second, SendAudio_at (second + 5), Tick_at (2 * second)]"
  have "ticking 0 ?es" by (simp add: second_def millisecond_def)
  moreover have r: "foldl up_step (0, [0]) ?es = (second + 5, [0, second + 5])" by (simp add: second_def millisecond_def)
  ultimately have "gaps_below (6 * second) [0, second + 5]" by (rule keep_alive)
  with r show ?thesis by simp
qed

end
