(* ===== verification/Session.thy ===== *)
theory Session
  imports Bridge Gemini Doubaosession
begin

text \<open>
  A session as a whole: the callbacks of the peer connection (theory Bridge) decide which pumps run, and
  the pumps are the only callers of an adapter's receiving operations (theory Adapter).  What the
  browser opens therefore decides whether the model can be heard at all.
\<close>

subsection \<open>The calls the pumps make\<close>

text \<open>
  \<open>forwardTranscripts\<close> is the only caller of \<open>RecvTranscript\<close> and \<open>forwardToolCalls\<close> the only one of
  \<open>RecvToolCall\<close>; the other calls are made by pumps that \<open>Serve\<close> starts itself.
\<close>

definition called_by :: "bridge_act list \<Rightarrow> 'm event \<Rightarrow> bool" where
  "called_by acts e =
     (case e of
        CallRecvTranscript ctx \<Rightarrow> transcript_channels acts \<noteq> []
      | CallRecvToolCall ctx \<Rightarrow> tool_channels acts \<noteq> []
      | _ \<Rightarrow> True)"

fun asks_text :: "'m event \<Rightarrow> bool" where
  "asks_text (CallRecvTranscript ctx) = True"
| "asks_text _ = False"

lemma no_channel_no_transcripts:
  assumes "opened [] bes = []" and "list_all (called_by (br_log (run bridge_step (bridge_start caps replay) bes))) es"
    and "cp_Transcriber caps"
  shows "list_all (\<lambda>e. \<not> asks_text e) es"
proof -
  have "br_caps (bridge_start caps replay) = caps" "br_waiting (bridge_start caps replay) = []"
    "transcript_channels (br_log (bridge_start caps replay)) = []"
    by (simp_all add: bridge_start_def act_views)
  then have "transcript_channels (br_log (run bridge_step (bridge_start caps replay) bes)) = []"
    using channels_run[of "bridge_start caps replay" bes] assms(1,3) by simp
  then have "called_by (br_log (run bridge_step (bridge_start caps replay) bes)) e \<Longrightarrow> \<not> asks_text e" for e :: "'a event"
    by (cases e) (simp_all add: called_by_def)
  then show ?thesis using assms(2) by (auto simp: list_all_iff)
qed

subsection \<open>Nobody receives the transcripts\<close>

lemma new_adapter_empty:
  "pending_texts (new_adapter b) = []" "pending_audio (new_adapter b) = []" "ad_buf (new_adapter b) = b"
  "\<not> ad_cancelled (new_adapter b)"
  by (simp_all add: pending_texts_def pending_audio_def new_adapter_def todo_def)

context message_handler
begin

lemma no_text_got:
  "list_all (\<lambda>e. \<not> asks_text e) es \<Longrightarrow> texts_got (fst (collect (ad_step handle) s es)) = []"
proof (induction es arbitrary: s)
  case (Cons e es)
  have "texts_got [fst (ad_step handle s e)] = []"
    using Cons.prems by (cases e) (auto simp: ad_step_def split_beta split: option.split)
  then show ?case using Cons
    by (simp add: split_beta Let_def texts_got_Cons[of _ "fst (collect _ _ _)"])
qed simp

text \<open>
  A message is only read when the reader is idle, so everything told before it is in the channel, which
  holds 64: the last message read came after at most 64 transcripts.
\<close>

lemma unread_bound:
  assumes "Cancel \<notin> set es" and "list_all (\<lambda>e. \<not> asks_text e) es"
    and "collect (ad_step handle) (new_adapter b) es = (os, s')" and "messages_read os = ms @ [m]"
  shows "length (texts (fst (handle_all handle b ms))) \<le> 64"
  using assms
proof (induction es arbitrary: os s' rule: rev_induct)
  case (snoc e es)
  obtain os0 s0 where r0: "collect (ad_step handle) (new_adapter b) es = (os0, s0)" by fastforce
  obtain out where st: "ad_step handle s0 e = (out, s')" and os: "os = os0 @ [out]"
    using snoc.prems(3) r0 by (auto simp: collect_append Let_def split: prod.splits)
  show ?case
  proof (cases "messages_read [out]")
    case Nil
    then show ?thesis using snoc.IH[OF _ _ r0] snoc.prems os by simp
  next
    case (Cons m' rest)
    then have "\<exists>m'. out = Accepted m'" by (cases out) auto
    then obtain m' where m': "out = Accepted m'" by blast
    then have idle: "ad_reader s0 = Some []"
      using st by (auto simp: ad_step_def map_prod_def split_beta split: if_splits event.splits option.splits)
    have ms: "messages_read os0 = ms" using snoc.prems(4) by (simp add: os m')
    have "texts_got os0 @ pending_texts s0 = texts (fst (handle_all handle b (messages_read os0)))"
      using texts_exact[OF adapter_ok_new _ _ r0] snoc.prems(1) by (simp add: new_adapter_empty)
    moreover have "texts_got os0 = []"
      using no_text_got[of es "new_adapter b"] snoc.prems(2) r0 by simp
    moreover have "adapter_ok s0" using collect_ok[OF adapter_ok_new, of b es] r0 by simp
    then have "length (pending_texts s0) \<le> 64"
      using idle by (simp add: pending_texts_def todo_def adapter_ok_def)
    ultimately show ?thesis by (simp add: ms)
  qed
qed simp

text \<open>And what the user hears was told by the messages read.\<close>

lemma heard_bound:
  assumes "collect (ad_step handle) (new_adapter b) es = (os, s')"
  shows "subseq (audio_got os) (audios (fst (handle_all handle b (messages_read os))))"
proof -
  have "subseq (audio_got os) (audio_got os @ pending_audio s')" by (auto intro: prefix_imp_subseq)
  from subseq_order.trans[OF this audio_ordered[OF adapter_ok_new assms]] show ?thesis by (simp add: new_adapter_empty)
qed

end

text \<open>
  A browser that opens no data channel, in a session with a model that transcribes: the pump that would
  receive the transcripts is never started, and however long the call lasts, the model is heard at most
  until its server has told 64 transcripts; the message after these is the last one read.
\<close>

theorem gemini_falls_silent:
  assumes "opened [] bes = []" and "cp_Transcriber caps"
    and "list_all (called_by (br_log (run bridge_step (bridge_start caps replay) bes))) es" and "Cancel \<notin> set es"
    and "collect (ad_step (gm_handle decode)) (new_adapter ('''', '''')) es = (os, s)"
    and "messages_read os = ms @ [m]"
  shows "length (told_pieces [] (concat (map (pieces_in decode) ms))) \<le> 64 \<and>
    subseq (audio_got os) (audios (fst (handle_all (gm_handle decode) ('''', '''') (ms @ [m]))))"
proof -
  have b: "('''', '''') = bufs_after []" by (simp add: bufs_after_def utterance_def joined_simps)
  have "list_all (\<lambda>e. \<not> asks_text e) es" by (rule no_channel_no_transcripts[OF assms(1,3,2)])
  from gm.unread_bound[OF assms(4) this assms(5,6)] gm.heard_bound[OF assms(5)] assms(6)
  show ?thesis using gm_all_told[of decode "[]" ms] by (simp add: b)
qed

theorem doubao_falls_silent:
  assumes "opened [] bes = []" and "cp_Transcriber caps"
    and "list_all (called_by (br_log (run bridge_step (bridge_start caps replay) bes))) es" and "Cancel \<notin> set es"
    and "collect (ad_step (db_handle c)) (new_adapter '''') es = (os, s)" and "messages_read os = ms @ [m]"
  shows "length (told_all c [] ms) \<le> 64 \<and>
    subseq (audio_got os) (audios (fst (handle_all (db_handle c) '''' (ms @ [m]))))"
proof -
  have "list_all (\<lambda>e. \<not> asks_text e) es" by (rule no_channel_no_transcripts[OF assms(1,3,2)])
  from db.unread_bound[OF assms(4) this assms(5,6)] db.heard_bound[OF assms(5)] assms(6)
  show ?thesis using handle_all_told[of c "[]" ms] by (simp add: reply_def)
qed


subsection \<open>The pumps keep up\<close>

context message_handler
begin

lemma round_keeps:
  assumes "\<not> ad_cancelled s"
  shows "\<not> ad_cancelled (snd (collect (ad_step handle) s round))" and "messages_read (fst (collect (ad_step handle) s round)) = []"
  using assms
  by (auto simp: round_def ad_step_def Recv_def recvTranscript_def RecvToolCall_def reader_step_def act_def
      end_reader_def signalInterrupted_def split_beta Let_def split: option.split list.split action.split)

lemma never_cancelled:
  assumes "adapter_ok s" and "\<not> ad_cancelled s" and "Cancel \<notin> set es" and "collect (ad_step handle) s es = (os, s')"
  shows "\<not> ad_cancelled s'"
  using assms
proof (induction es arbitrary: s os)
  case (Cons e es)
  obtain o1 s1 where st: "ad_step handle s e = (o1, s1)" by fastforce
  obtain os1 where r: "collect (ad_step handle) s1 es = (os1, s')"
    using Cons.prems(4) st by (auto simp: Let_def split: prod.splits)
  have "adapter_ok s1" using step_ok[OF Cons.prems(1), of e] st by simp
  moreover have "\<not> ad_cancelled s1" using step_texts[OF Cons.prems(1,2) _ st] Cons.prems(3) by auto
  ultimately show ?case using Cons.IH[OF _ _ _ r] Cons.prems(3) by simp
qed simp

lemma rounds_finish:
  assumes "adapter_ok s" and "\<not> ad_cancelled s"
  shows "\<exists>n \<le> length (todo s). todo (snd (collect (ad_step handle) s (concat (replicate n round)))) = [] \<and>
    messages_read (fst (collect (ad_step handle) s (concat (replicate n round)))) = []"
  using assms
proof (induction "length (todo s)" arbitrary: s rule: less_induct)
  case less
  show ?case
  proof (cases "todo s = []")
    case True
    then show ?thesis by (intro exI[of _ 0]) simp
  next
    case False
    then have nc: "\<not> ad_crashed s" using less.prems(1) by (auto simp: adapter_ok_def todo_def)
    let ?s = "snd (collect (ad_step handle) s round)"
    have le: "length (todo ?s) \<le> length (todo s) - 1" by (rule round_progress[OF less.prems nc])
    moreover have "adapter_ok ?s" by (rule collect_ok[OF less.prems(1)])
    ultimately obtain n where n: "n \<le> length (todo ?s)"
      "todo (snd (collect (ad_step handle) ?s (concat (replicate n round)))) = []"
      "messages_read (fst (collect (ad_step handle) ?s (concat (replicate n round)))) = []"
      using less.hyps[of ?s] False round_keeps(1)[OF less.prems(2)] by (cases "todo s") auto
    then show ?thesis using le False round_keeps(2)[OF less.prems(2)]
      by (intro exI[of _ "Suc n"]) (cases "todo s", auto simp: collect_append split_beta Let_def)
  qed
qed

end

text \<open>
  C33: With the pumps of audio, transcripts and tool calls the session keeps up.  After any call so far that was not cancelled, a
  bounded number of rounds, in which each of the three pumps receives once and the reader goes on, carries out
  everything the server's messages asked for: the reader is ready for the next message or has returned,
  and every transcript told so far has been delivered in order or lies in the channel.
\<close>

theorem gemini_keeps_up:
  assumes "Cancel \<notin> set es" and "collect (ad_step (gm_handle decode)) (new_adapter ('''', '''')) es = (os, s)"
  shows "\<exists>n \<le> length (todo s). \<exists>os' s'.
    collect (ad_step (gm_handle decode)) s (concat (replicate n round)) = (os', s') \<and> todo s' = [] \<and>
    texts_got (os @ os') @ ch_items (ad_text s') = told_pieces [] (concat (map (pieces_in decode) (messages_read os)))"
proof -
  let ?step = "ad_step (gm_handle decode)"
  have b: "('''', '''') = bufs_after []" by (simp add: bufs_after_def utterance_def joined_simps)
  have ok: "adapter_ok s" using gm.collect_ok[OF adapter_ok_new, of decode "('''', '''')" es] assms(2) by simp
  have live: "\<not> ad_cancelled s"
    using gm.never_cancelled[OF adapter_ok_new _ assms] by (simp add: new_adapter_empty)
  obtain n where n: "n \<le> length (todo s)" "todo (snd (collect ?step s (concat (replicate n round)))) = []"
    "messages_read (fst (collect ?step s (concat (replicate n round)))) = []"
    using gm.rounds_finish[OF ok live, of decode] by blast
  obtain os' s' where r: "collect ?step s (concat (replicate n round)) = (os', s')" by fastforce
  have "collect ?step (new_adapter ('''', '''')) (es @ concat (replicate n round)) = (os @ os', s')"
    using assms(2) r by (simp add: collect_append)
  moreover have "Cancel \<notin> set (es @ concat (replicate n round))"
    using assms(1) by (auto simp: round_def)
  ultimately have "texts_got (os @ os') @ pending_texts s' =
      told_pieces [] (concat (map (pieces_in decode) (messages_read (os @ os'))))"
    using gm.texts_exact[OF adapter_ok_new _ _, of "('''', '''')" "es @ concat (replicate n round)" decode "os @ os'" s']
      gm_all_told[of decode "[]" "messages_read (os @ os')"]
    by (simp add: b new_adapter_empty)
  then show ?thesis using n r by (intro exI[of _ n]) (simp add: pending_texts_def)
qed


theorem gemini_keeps_up_witness:
  "\<exists>n os' s'. collect (ad_step (gm_handle Some))
      (snd (collect (ad_step (gm_handle Some)) (new_adapter ('''', '''')) [Message (demo_said ''a'' False)]))
      (concat (replicate n round)) = (os', s') \<and>
    texts_got os' @ ch_items (ad_text s') = [\<lparr>tr_Role = ''model'', tr_Text = ''a''\<rparr>]"
proof -
  let ?f = "demo_said ''a'' False" and ?st = "ad_step (gm_handle Some)"
  obtain os s where r: "collect ?st (new_adapter ('''', '''')) [Message ?f] = (os, s)" by fastforce
  then have os: "os = [Accepted ?f]" and s: "s = snd (collect ?st (new_adapter ('''', '''')) [Message ?f])"
    by (auto simp: ad_step_def new_adapter_def)
  have "told_pieces [] (concat (map (pieces_in Some) [?f])) = [\<lparr>tr_Role = ''model'', tr_Text = ''a''\<rparr>]"
    by (simp add: pieces_in_def pieces_def demo_said_def piece_of_def utterance_def joined_simps joined_def
        normalizeModelTranscriptionDelta_def Let_def)
  with gemini_keeps_up[OF _ r] show ?thesis by (auto simp: os s)
qed

end
