(* ===== verification/Cascadelines.thy ===== *)
theory Cascadelines
  imports Cascade Adapter
begin

text \<open>
  The transcript channel of the cascade with its capacity (\<open>emitTranscript\<close> and \<open>RecvTranscript\<close> of
  \<open>internal/model/cascade/model.go\<close>).  Theory Cascade takes the channel to be unbounded; here the
  goroutine \<open>run\<close> stops at an \<open>emitTranscript\<close> while the channel is full, and everything else goes on.  No
  line is lost, whenever the reader receives, and with fewer than 64 lines unread \<open>run\<close> does not wait; without
  a reader it stops for good.
\<close>

subsection \<open>The code before and after an emit\<close>

text \<open>
  Every case of \<open>run\<close> emits at most once.  \<open>emit_point\<close> gives the state at the emit, the line, and where
  the case goes on; \<open>after_emit\<close> is the rest of the case.
\<close>

datatype after = AfterPartial time bool string | AfterFinal string | AfterText | AfterModel

definition user_line :: "string \<Rightarrow> model_transcript" where
  "user_line t = \<lparr>tr_Role = ''user'', tr_Text = t\<rparr>"

definition emit_asr :: "time \<Rightarrow> bool \<Rightarrow> asr_event \<Rightarrow> cascade \<Rightarrow> (cascade \<times> model_transcript \<times> after) option" where
  "emit_asr now race ev s =
     (case ev_Kind ev of
        ASRPartial \<Rightarrow> Some (s, user_line (ev_Text ev), AfterPartial now race (ev_Text ev))
      | ASRSpeechStarted \<Rightarrow> None
      | ASRFinal \<Rightarrow>
          (if duplicate (ev_Text ev) (cs_lastUserText s) then None
           else
             (let s1 = cancelPending s in
              if cs_speculativeActive s1 \<and> duplicate (ev_Text ev) (ms_Text (last (cs_history s1))) then None
              else
                (let s2 = (if cs_speculativeActive s1 then removeSpeculative s1 else s1) in
                 Some (add_turn (user_turn (ev_Text ev)) s2, user_line (ev_Text ev), AfterFinal (ev_Text ev))))))"

definition emit_text :: "cascade \<Rightarrow> (cascade \<times> model_transcript \<times> after) option" where
  "emit_text s =
     (case cs_textIn s of
        [] \<Rightarrow> None
      | t # rest \<Rightarrow>
          (let s1 = s\<lparr>cs_textIn := rest\<rparr> in
           if duplicate t (cs_lastUserText s1) then None
           else Some (add_turn (user_turn t) (s1\<lparr>cs_lastUserText := t\<rparr>), user_line t, AfterText)))"

definition emit_model :: "cascade \<Rightarrow> (cascade \<times> model_transcript \<times> after) option" where
  "emit_model s =
     (case cs_modelTurnCh s of
        [] \<Rightarrow> None
      | t # rest \<Rightarrow>
          Some (add_turn (model_turn t) (s\<lparr>cs_modelTurnCh := rest\<rparr>), \<lparr>tr_Role = ''model'', tr_Text = t\<rparr>, AfterModel))"

definition emit_point :: "cascade_event \<Rightarrow> cascade \<Rightarrow> (cascade \<times> model_transcript \<times> after) option" where
  "emit_point e s =
     (if cs_run s \<noteq> Looping then None
      else
        (case e of
           AsrEvent now race ev \<Rightarrow> emit_asr now race ev s
         | TypedTurn \<Rightarrow> emit_text s
         | ModelTurn \<Rightarrow> emit_model s
         | _ \<Rightarrow> None))"

fun after_emit :: "after \<Rightarrow> cascade \<Rightarrow> cascade" where
  "after_emit (AfterPartial now race t) s =
     (let (complete, s2) = isPotentialSentence now t (removeSpeculative (cancelPending s)) in
      if complete then scheduleSpeculative race ((add_turn (user_turn t) s2)\<lparr>cs_speculativeActive := True\<rparr>) else s2)"
| "after_emit (AfterFinal t) s = (schedulePending s)\<lparr>cs_lastUserText := t\<rparr>"
| "after_emit AfterText s = startRespond s"
| "after_emit AfterModel s = s"

definition log_line :: "model_transcript \<Rightarrow> cascade \<Rightarrow> cascade" where
  "log_line l s = s\<lparr>cs_transcripts := cs_transcripts s @ [l]\<rparr>"

text \<open>The two halves around the emit are the case.\<close>

lemma partial_keeps_last: "cs_lastUserText (after_emit (AfterPartial now race t) s) = cs_lastUserText s"
  by (simp add: split_beta Let_def isPotentialSentence_def removeSpeculative_def cancelPending_def
      scheduleSpeculative_def add_turn_def)

lemma handle_partial:
  assumes "ev_Kind ev = ASRPartial"
  shows "cascade_handleASR now race ev l s = (l, after_emit (AfterPartial now race (ev_Text ev)) (log_line (user_line (ev_Text ev)) s))"
  using assms by (simp add: cascade_handleASR_def log_line_def user_line_def cascade_emitTranscript_def split_beta Let_def)

lemma emit_splits_step:
  assumes "emit_point e s = Some (s1, l, k)"
  shows "cascade_step env s e = after_emit k (log_line l s1)"
proof -
  have run: "cs_run s = Looping" using assms by (simp add: emit_point_def split: if_splits)
  show ?thesis
  proof (cases e)
    case (AsrEvent now race ev)
    then have a: "emit_asr now race ev s = Some (s1, l, k)" using assms run by (simp add: emit_point_def)
    show ?thesis
    proof (cases "ev_Kind ev")
      case ASRPartial
      let ?t = "after_emit (AfterPartial now race (ev_Text ev)) (log_line (user_line (ev_Text ev)) s)"
      have "cs_lastUserText ?t = cs_lastUserText s" by (simp only: partial_keeps_last) (simp add: log_line_def)
      then have "?t\<lparr>cs_lastUserText := cs_lastUserText s\<rparr> = ?t"
        by (metis cascade.surjective cascade.update_convs(5) cascade.select_convs(5))
      then have "run_asr now race ev s = ?t" by (simp only: run_asr_def handle_partial[OF ASRPartial] Let_def prod.case)
      then show ?thesis using a run ASRPartial by (auto simp: AsrEvent loop_case_def emit_asr_def)
    next
      case ASRFinal
      then show ?thesis using a run
        by (auto simp: AsrEvent loop_case_def run_asr_def emit_asr_def cascade_handleASR_def user_line_def
            log_line_def cascade_emitTranscript_def Let_def split: if_splits)
    next
      case ASRSpeechStarted
      then show ?thesis using a by (simp add: emit_asr_def)
    qed
  next
    case TypedTurn
    then show ?thesis using assms run
      by (auto simp: emit_point_def emit_text_def loop_case_def run_text_def user_line_def log_line_def
          cascade_emitTranscript_def Let_def split: list.splits if_splits)
  next
    case ModelTurn
    then show ?thesis using assms run
      by (auto simp: emit_point_def emit_model_def loop_case_def run_model_def log_line_def
          cascade_emitTranscript_def Let_def split: list.splits)
  qed (use assms run in \<open>simp_all add: emit_point_def\<close>)
qed

text \<open>A case that does not emit leaves the log as it is.\<close>

lemma no_emit_log:
  assumes "emit_point e s = None"
  shows "cs_transcripts (cascade_step env s e) = cs_transcripts s"
proof -
  note simps = small_steps gen_steps removeSpeculative_def isPotentialSentence_def
  show ?thesis
  proof (cases e)
    case (AsrEvent now race ev)
    then show ?thesis using assms
      by (cases "ev_Kind ev")
        (auto simp: emit_point_def emit_asr_def loop_case_def run_asr_def cascade_handleASR_def simps
          split: if_splits option.splits)
  next
    case TypedTurn
    then show ?thesis using assms
      by (auto simp: emit_point_def emit_text_def loop_case_def run_text_def Let_def split: list.splits if_splits)
  next
    case ModelTurn
    then show ?thesis using assms
      by (auto simp: emit_point_def emit_model_def loop_case_def run_model_def split: list.splits if_splits)
  qed (auto simp: simps loop_case_def run_pending_def run_restore_def split: run_state.split option.split list.split)
qed


subsection \<open>The machine with the bounded channel\<close>

text \<open>
  \<open>ls_stuck\<close>: the line \<open>run\<close> is about to send, and the rest of its case; while it is set \<open>run\<close> takes no
  other event.  The other goroutines go on.  \<open>cs_transcripts\<close> is the log of the lines sent.
\<close>

record cascade_lines =
  ls_cascade :: cascade
  ls_chan :: "model_transcript chan"
  ls_stuck :: "(model_transcript \<times> after) option"

definition transcriptCap :: nat where
  "transcriptCap = 64"

definition lines_start :: "cascade \<Rightarrow> cascade_lines" where
  "lines_start s = \<lparr>ls_cascade = s, ls_chan = make_chan transcriptCap, ls_stuck = None\<rparr>"

text \<open>The events that \<open>run\<close> itself takes.\<close>

fun loop_event :: "cascade_event \<Rightarrow> bool" where
  "loop_event (AsrEvent now race ev) = True"
| "loop_event AsrClosed = True"
| "loop_event PendingSignal = True"
| "loop_event RestoreTurns = True"
| "loop_event TypedTurn = True"
| "loop_event ModelTurn = True"
| "loop_event CtxDone = True"
| "loop_event Drained = True"
| "loop_event _ = False"

definition take_event :: "cascade_env \<Rightarrow> cascade_event \<Rightarrow> cascade_lines \<Rightarrow> cascade_lines" where
  "take_event env e s =
     (if ls_stuck s \<noteq> None \<and> loop_event e then s
      else
        (case emit_point e (ls_cascade s) of
           None \<Rightarrow> s\<lparr>ls_cascade := cascade_step env (ls_cascade s) e\<rparr>
         | Some (s1, l, k) \<Rightarrow> s\<lparr>ls_cascade := s1, ls_stuck := Some (l, k)\<rparr>))"

text \<open>\<open>emitTranscript\<close>: the send, or the cancelled context; \<open>ctx\<close> chooses when both are ready.\<close>

definition emit_now :: "bool \<Rightarrow> cascade_lines \<Rightarrow> cascade_lines" where
  "emit_now ctx s =
     (case ls_stuck s of
        None \<Rightarrow> s
      | Some (l, k) \<Rightarrow>
          (if cs_closing (ls_cascade s) \<and> (ctx \<or> ch_full (ls_chan s))
           then s\<lparr>ls_cascade := after_emit k (ls_cascade s), ls_stuck := None\<rparr>
           else if ch_full (ls_chan s) then s
           else s\<lparr>ls_cascade := after_emit k (log_line l (ls_cascade s)), ls_chan := ch_put l (ls_chan s),
                  ls_stuck := None\<rparr>))"

definition cascade_RecvTranscript :: "bool \<Rightarrow> cascade_lines \<Rightarrow> model_transcript got \<times> cascade_lines" where
  "cascade_RecvTranscript ctx s =
     (let (r, c) = ch_recv (cs_closing (ls_cascade s)) ctx (ls_chan s) in (r, s\<lparr>ls_chan := c\<rparr>))"

datatype lines_event = Take cascade_event | Emit bool | Receive bool

definition lines_step :: "cascade_env \<Rightarrow> cascade_lines \<Rightarrow> lines_event \<Rightarrow> model_transcript got option \<times> cascade_lines" where
  "lines_step env s e =
     (case e of
        Take ce \<Rightarrow> (None, take_event env ce s)
      | Emit ctx \<Rightarrow> (None, emit_now ctx s)
      | Receive ctx \<Rightarrow> map_prod Some id (cascade_RecvTranscript ctx s))"

fun lines_got :: "model_transcript got option list \<Rightarrow> model_transcript list" where
  "lines_got [] = []"
| "lines_got (Some (Got l) # os) = l # lines_got os"
| "lines_got (_ # os) = lines_got os"

lemma lines_got_append [simp]: "lines_got (os @ ps) = lines_got os @ lines_got ps"
  by (induction os rule: lines_got.induct) auto

subsection \<open>Nothing is lost in the channel\<close>

text \<open>The log is what has been received and what is in the channel.\<close>

definition lines_ok :: "model_transcript list \<Rightarrow> cascade_lines \<Rightarrow> bool" where
  "lines_ok got s \<longleftrightarrow>
     cs_transcripts (ls_cascade s) = got @ ch_items (ls_chan s) \<and>
     length (ch_items (ls_chan s)) \<le> transcriptCap \<and> ch_cap (ls_chan s) = transcriptCap \<and> \<not> ch_closed (ls_chan s)"

lemma emit_point_log: "emit_point e s = Some (s1, l, k) \<Longrightarrow> cs_transcripts s1 = cs_transcripts s"
  by (auto simp: emit_point_def emit_asr_def emit_text_def emit_model_def add_turn_def cancelPending_def removeSpeculative_def Let_def
      split: if_splits cascade_event.splits asr_kind.splits list.splits)

lemma after_emit_log: "cs_transcripts (after_emit k s) = cs_transcripts s"
  by (cases k) (auto simp: small_steps removeSpeculative_def isPotentialSentence_def)

lemma lines_step_ok:
  assumes "lines_ok got s" and "lines_step env s e = (r, s')"
  shows "lines_ok (got @ lines_got [r]) s'"
proof (cases e)
  case (Take ce)
  then have "cs_transcripts (ls_cascade s') = cs_transcripts (ls_cascade s) \<and> ls_chan s' = ls_chan s \<and> r = None"
    using assms(2) no_emit_log[of ce "ls_cascade s" env] emit_point_log
    by (auto simp: lines_step_def take_event_def split: option.splits)
  then show ?thesis using assms(1) by (simp add: lines_ok_def)
next
  case (Emit ctx)
  then show ?thesis using assms
    by (auto simp: lines_ok_def lines_step_def emit_now_def after_emit_log log_line_def ch_full_def split: option.splits if_splits)
next
  case (Receive ctx)
  obtain g c where rc: "ch_recv (cs_closing (ls_cascade s)) ctx (ls_chan s) = (g, c)" by fastforce
  then have "r = Some g" "s' = s\<lparr>ls_chan := c\<rparr>"
    using assms(2) by (auto simp: Receive lines_step_def cascade_RecvTranscript_def)
  then show ?thesis using assms(1) rc by (cases g) (auto simp: lines_ok_def ch_recv_def split: if_splits list.splits)
qed

lemma lines_run_ok:
  assumes "lines_ok got s" and "collect (lines_step env) s es = (os, s')"
  shows "lines_ok (got @ lines_got os) s'"
  using assms
proof (induction es arbitrary: s os got)
  case (Cons e es)
  obtain r s1 where st: "lines_step env s e = (r, s1)" by fastforce
  obtain os1 where c: "collect (lines_step env) s1 es = (os1, s')" "os = r # os1"
    using Cons.prems(2) st by (auto simp: Let_def split: prod.splits)
  have "lines_ok ((got @ lines_got [r]) @ lines_got os1) s'" by (rule Cons.IH[OF lines_step_ok[OF Cons.prems(1) st] c(1)])
  then show ?case using lines_got_append[of "[r]" os1] c(2) by simp
qed simp


subsection \<open>The reader of a live session\<close>

text \<open>The line \<open>run\<close> is waiting to send, and the cascade as it is once the case of that line is over.\<close>

definition unsent :: "cascade_lines \<Rightarrow> model_transcript list" where
  "unsent s = (case ls_stuck s of None \<Rightarrow> [] | Some (l, k) \<Rightarrow> [l])"

definition resumed :: "cascade_lines \<Rightarrow> cascade" where
  "resumed s = (case ls_stuck s of None \<Rightarrow> ls_cascade s | Some (l, k) \<Rightarrow> after_emit k (log_line l (ls_cascade s)))"

text \<open>The lines that become due in a schedule: those of the emits that \<open>run\<close> comes to.\<close>

definition due_now :: "cascade_lines \<Rightarrow> lines_event \<Rightarrow> model_transcript list" where
  "due_now s e =
     (case e of
        Take ce \<Rightarrow>
          (if ls_stuck s \<noteq> None \<and> loop_event ce then []
           else (case emit_point ce (ls_cascade s) of None \<Rightarrow> [] | Some (s1, l, k) \<Rightarrow> [l]))
      | _ \<Rightarrow> [])"

fun due_lines :: "cascade_env \<Rightarrow> cascade_lines \<Rightarrow> lines_event list \<Rightarrow> model_transcript list" where
  "due_lines env s [] = []"
| "due_lines env s (e # es) = due_now s e @ due_lines env (snd (lines_step env s e)) es"

text \<open>The events of a schedule, and schedules in which nothing else happens while \<open>run\<close> waits at an emit.\<close>

fun scheduled :: "lines_event list \<Rightarrow> cascade_event list" where
  "scheduled [] = []"
| "scheduled (Take ce # es) = ce # scheduled es"
| "scheduled (_ # es) = scheduled es"

fun unhurried :: "cascade_env \<Rightarrow> cascade_lines \<Rightarrow> lines_event list \<Rightarrow> bool" where
  "unhurried env s [] = True"
| "unhurried env s (e # es) =
     ((case e of Take ce \<Rightarrow> ls_stuck s = None | _ \<Rightarrow> True) \<and> unhurried env (snd (lines_step env s e)) es)"

lemma small_closing:
  "cs_closing (cascade_emitTranscript r t s) = cs_closing s" "cs_closing (add_turn m s) = cs_closing s"
  "cs_closing (startRespond s) = cs_closing s" "cs_closing (cancelPending s) = cs_closing s"
  "cs_closing (schedulePending s) = cs_closing s" "cs_closing (scheduleSpeculative race s) = cs_closing s"
  "cs_closing (removeSpeculative s) = cs_closing s" "cs_closing (snd (isPotentialSentence now t s)) = cs_closing s"
  "cs_closing (bargeIn s) = cs_closing s" "cs_closing (barge_drain s) = cs_closing s"
  by (simp_all add: small_steps isPotentialSentence_def removeSpeculative_def split: option.split)

lemma handle_closing: "cs_closing (snd (cascade_handleASR now race ev l s)) = cs_closing s"
  by (cases "ev_Kind ev") (simp_all add: cascade_handleASR_def small_closing split_beta Let_def)

lemma gen_closing:
  "cs_closing (setGenCancel i s) = cs_closing s" "cs_closing (gen_reply env i res s) = cs_closing s"
  "cs_closing (gen_audio i s) = cs_closing s" "cs_closing (gen_finish i n d s) = cs_closing s"
  "cs_closing (caller (cascade_SendText b t s) s) = cs_closing s"
  "cs_closing (caller (cascade_RestoreContext b turns s) s) = cs_closing s"
  by (simp_all add: gen_steps split: option.split list.split)

lemma step_keeps_open:
  assumes "ce \<noteq> CloseBegin"
  shows "cs_closing (cascade_step env s ce) = cs_closing s"
  using assms
  by (cases ce) (simp_all add: gen_closing loop_case_def run_asr_def handle_closing split_beta Let_def small_closing run_pending_def
      run_restore_def run_text_def run_model_def split: run_state.split list.split)

lemma emit_closing:
  "emit_point e s = Some (s1, l, k) \<Longrightarrow> cs_closing s1 = cs_closing s" "cs_closing (after_emit k s) = cs_closing s"
  "cs_closing (log_line l s) = cs_closing s"
proof -
  show "emit_point e s = Some (s1, l, k) \<Longrightarrow> cs_closing s1 = cs_closing s"
    by (auto simp: emit_point_def emit_asr_def emit_text_def emit_model_def small_closing Let_def
        split: if_splits cascade_event.splits asr_kind.splits list.splits)
  show "cs_closing (after_emit k s) = cs_closing s"
    by (cases k) (simp_all add: small_closing split_beta Let_def)
qed (simp add: log_line_def)

text \<open>A step of another goroutine leaves what \<open>run\<close> owns alone.\<close>

lemma gen_keeps:
  "cs_history (setGenCancel i s) = cs_history s" "cs_history (gen_reply env i res s) = cs_history s"
  "cs_history (gen_audio i s) = cs_history s" "cs_history (gen_finish i n d s) = cs_history s"
  "cs_history (caller (cascade_SendText b t s) s) = cs_history s"
  "cs_history (caller (cascade_RestoreContext b turns s) s) = cs_history s"
  by (simp_all add: gen_steps split: option.split list.split)

lemma others_keep:
  "\<not> loop_event ce \<Longrightarrow> cs_history (cascade_step env s ce) = cs_history s"
  "\<not> loop_event ce \<Longrightarrow> emit_point ce s = None"
  by (cases ce; simp add: gen_keeps emit_point_def)+

text \<open>One step of a live session: no line is lost, and the cascade is where it would be without a bound.\<close>

definition live_lines :: "cascade_lines \<Rightarrow> bool" where
  "live_lines s \<longleftrightarrow> \<not> cs_closing (ls_cascade s) \<and> \<not> ch_closed (ls_chan s) \<and> ch_cap (ls_chan s) = 64"

lemma live_step:
  assumes "live_lines s" and "e \<noteq> Take CloseBegin" and "lines_step env s e = (r, s')"
  shows "live_lines s'" and "lines_got [r] @ ch_items (ls_chan s') @ unsent s' = ch_items (ls_chan s) @ unsent s @ due_now s e"
    and "(case e of Take ce \<Rightarrow> ls_stuck s = None | _ \<Rightarrow> True) \<Longrightarrow>
      resumed s' = run (cascade_step env) (resumed s) (scheduled [e])"
proof -
  note live = assms(1)[unfolded live_lines_def]
  have "live_lines s' \<and> lines_got [r] @ ch_items (ls_chan s') @ unsent s' = ch_items (ls_chan s) @ unsent s @ due_now s e \<and>
    ((case e of Take ce \<Rightarrow> ls_stuck s = None | _ \<Rightarrow> True) \<longrightarrow> resumed s' = run (cascade_step env) (resumed s) (scheduled [e]))"
  proof (cases e)
    case (Take ce)
    show ?thesis
    proof (cases "ls_stuck s \<noteq> None \<and> loop_event ce")
      case True
      then have "s' = s" "r = None" "due_now s e = []" using assms(3) Take by (auto simp: lines_step_def take_event_def due_now_def)
      then show ?thesis using assms(1) Take True by auto
    next
      case False
      show ?thesis
      proof (cases "emit_point ce (ls_cascade s)")
        case None
        then have "s' = s\<lparr>ls_cascade := cascade_step env (ls_cascade s) ce\<rparr>" "r = None" "due_now s e = []"
          using assms(3) Take False by (auto simp: lines_step_def take_event_def due_now_def)
        then show ?thesis using live assms(2) Take step_keeps_open[of ce env "ls_cascade s"]
          by (auto simp: live_lines_def unsent_def resumed_def)
      next
        case (Some x)
        then obtain s1 l k where x: "emit_point ce (ls_cascade s) = Some (s1, l, k)" by (cases x) auto
        have ns: "ls_stuck s = None" using False x others_keep(2) by fastforce
        then have "s' = s\<lparr>ls_cascade := s1, ls_stuck := Some (l, k)\<rparr>" "r = None" "due_now s e = [l]"
          using assms(3) Take x by (auto simp: lines_step_def take_event_def due_now_def)
        then show ?thesis using live ns Take emit_closing(1)[OF x] emit_splits_step[OF x, of env]
          by (simp add: live_lines_def unsent_def resumed_def)
      qed
    qed
  next
    case (Emit ctx)
    then have "r = None" "s' = emit_now ctx s" "due_now s e = []" using assms(3) by (auto simp: lines_step_def due_now_def)
    then show ?thesis using live Emit
      by (cases "ls_stuck s")
        (auto simp: emit_now_def live_lines_def unsent_def resumed_def ch_put_def emit_closing split: if_splits)
  next
    case (Receive ctx)
    obtain g c where g: "ch_recv False ctx (ls_chan s) = (g, c)" by fastforce
    then have "r = Some g" "s' = s\<lparr>ls_chan := c\<rparr>" "due_now s e = []"
      using assms(3) Receive live by (auto simp: lines_step_def cascade_RecvTranscript_def due_now_def)
    moreover have "lines_got [Some g] @ ch_items c = ch_items (ls_chan s)" "ch_closed c = ch_closed (ls_chan s)"
      "ch_cap c = ch_cap (ls_chan s)"
      using g live by (auto simp: ch_recv_def split: list.splits)
    ultimately show ?thesis using live Receive
      by (cases "ls_stuck s") (auto simp: live_lines_def unsent_def resumed_def simp flip: append_assoc)
  qed
  then show "live_lines s'" "lines_got [r] @ ch_items (ls_chan s') @ unsent s' = ch_items (ls_chan s) @ unsent s @ due_now s e"
    "(case e of Take ce \<Rightarrow> ls_stuck s = None | _ \<Rightarrow> True) \<Longrightarrow>
      resumed s' = run (cascade_step env) (resumed s) (scheduled [e])" by blast+
qed

lemma live_run:
  assumes "live_lines s" and "Take CloseBegin \<notin> set es" and "collect (lines_step env) s es = (os, s')"
  shows "live_lines s' \<and>
    lines_got os @ ch_items (ls_chan s') @ unsent s' = ch_items (ls_chan s) @ unsent s @ due_lines env s es \<and>
    (unhurried env s es \<longrightarrow> resumed s' = run (cascade_step env) (resumed s) (scheduled es))"
  using assms
proof (induction es arbitrary: s os)
  case (Cons e es)
  obtain r s1 where st: "lines_step env s e = (r, s1)" by fastforce
  obtain os1 where c: "collect (lines_step env) s1 es = (os1, s')" "os = r # os1"
    using Cons.prems(3) st by (auto simp: Let_def split: prod.splits)
  have ne: "e \<noteq> Take CloseBegin" using Cons.prems(2) by auto
  note one = live_step[OF Cons.prems(1) ne st]
  note rest = Cons.IH[OF one(1) _ c(1)]
  have "lines_got os @ ch_items (ls_chan s') @ unsent s' = lines_got [r] @ lines_got os1 @ ch_items (ls_chan s') @ unsent s'"
    using lines_got_append[of "[r]" os1] c(2) by simp
  also have "\<dots> = lines_got [r] @ ch_items (ls_chan s1) @ unsent s1 @ due_lines env s1 es" using rest Cons.prems(2) by simp
  also have "\<dots> = (ch_items (ls_chan s) @ unsent s @ due_now s e) @ due_lines env s1 es" using one(2) by (metis append_assoc)
  finally have "lines_got os @ ch_items (ls_chan s') @ unsent s' = ch_items (ls_chan s) @ unsent s @ due_lines env s (e # es)"
    by (simp add: st)
  moreover have "resumed s' = run (cascade_step env) (resumed s) (scheduled (e # es))" if u: "unhurried env s (e # es)"
  proof -
    have "resumed s' = run (cascade_step env) (resumed s1) (scheduled es)" using rest Cons.prems(2) u st by simp
    moreover have "resumed s1 = run (cascade_step env) (resumed s) (scheduled [e])" using one(3) u by simp
    ultimately show ?thesis by (cases e) simp_all
  qed
  ultimately show ?case using rest Cons.prems(2) by auto
qed simp

text \<open>
  C18: The capacity of the transcript channel in a live session, whatever the schedule of the events, of the
  sends and of the reader's receives.  No line is lost, repeated or overtaken: the lines the reader has
  received, those in the channel (at most 64) and the one \<open>run\<close> is waiting to send are all the lines that
  have become due, in order.  With fewer than 64 lines unread \<open>run\<close> does not wait.  And a wait changes
  nothing if nothing else happens meanwhile: once the wait is over the cascade is in the state, and has
  emitted the lines, that it has after the same events with an unbounded channel.
\<close>

theorem reader_hides_capacity:
  assumes "\<not> cs_closing s" and "Take CloseBegin \<notin> set es"
    and "collect (lines_step env) (lines_start s) es = (os, s')"
  shows "lines_got os @ ch_items (ls_chan s') @ unsent s' = due_lines env (lines_start s) es \<and>
    length (ch_items (ls_chan s')) \<le> 64 \<and>
    (length (ch_items (ls_chan s')) < 64 \<longrightarrow> ls_stuck (emit_now ctx s') = None) \<and>
    (unhurried env (lines_start s) es \<longrightarrow>
       resumed s' = run (cascade_step env) s (scheduled es) \<and>
       cs_transcripts (run (cascade_step env) s (scheduled es)) =
         cs_transcripts s @ lines_got os @ ch_items (ls_chan s') @ unsent s')"
proof -
  have start: "live_lines (lines_start s)" "resumed (lines_start s) = s" "unsent (lines_start s) = []"
      "ch_items (ls_chan (lines_start s)) = []"
    using assms(1) by (simp_all add: live_lines_def lines_start_def make_chan_def transcriptCap_def resumed_def unsent_def)
  note r = live_run[OF start(1) assms(2,3), unfolded start(2-4)]
  have "lines_ok (cs_transcripts s) (lines_start s)" by (simp add: lines_ok_def lines_start_def make_chan_def)
  from lines_run_ok[OF this assms(3)] have ok: "cs_transcripts (ls_cascade s') = cs_transcripts s @ lines_got os @ ch_items (ls_chan s')"
    "length (ch_items (ls_chan s')) \<le> 64" by (simp_all add: lines_ok_def transcriptCap_def)
  have "cs_transcripts (resumed s') = cs_transcripts (ls_cascade s') @ unsent s'"
    by (auto simp: resumed_def unsent_def after_emit_log log_line_def split: option.split)
  moreover have "length (ch_items (ls_chan s')) < 64 \<Longrightarrow> ls_stuck (emit_now ctx s') = None"
    using r by (auto simp: emit_now_def live_lines_def ch_full_def split: option.split)
  ultimately show ?thesis using r ok by auto
qed

subsection \<open>Nobody reads\<close>

fun unread :: "lines_event \<Rightarrow> bool" where
  "unread (Receive ctx) = False"
| "unread (Take ce) = (ce \<noteq> CloseBegin)"
| "unread (Emit ctx) = True"

definition halted :: "model_transcript \<Rightarrow> after \<Rightarrow> cascade_lines \<Rightarrow> bool" where
  "halted l k s \<longleftrightarrow> ls_stuck s = Some (l, k) \<and> ch_full (ls_chan s) \<and> \<not> cs_closing (ls_cascade s)"

lemma halted_step:
  assumes "halted l k s" and "unread e"
  shows "halted l k (snd (lines_step env s e)) \<and>
    cs_history (ls_cascade (snd (lines_step env s e))) = cs_history (ls_cascade s) \<and>
    ls_chan (snd (lines_step env s e)) = ls_chan s"
proof (cases e)
  case (Take ce)
  then show ?thesis using assms others_keep(1)[of ce env "ls_cascade s"] others_keep(2)[of ce "ls_cascade s"] step_keeps_open[of ce env "ls_cascade s"]
    by (cases "loop_event ce") (auto simp: halted_def lines_step_def take_event_def)
qed (use assms in \<open>auto simp: halted_def lines_step_def emit_now_def\<close>)

text \<open>
  Once the channel is full and the next line is due, \<open>run\<close> stands still until somebody receives or the
  session is closed: no speech interrupts the bot, no final and no typed turn is taken into the
  history, no reply is added to it.
\<close>

theorem unread_lines_halt:
  assumes "halted l k s" and "list_all unread es"
  shows "halted l k (snd (collect (lines_step env) s es)) \<and>
    cs_history (ls_cascade (snd (collect (lines_step env) s es))) = cs_history (ls_cascade s) \<and>
    ls_chan (snd (collect (lines_step env) s es)) = ls_chan s"
  using assms
proof (induction es arbitrary: s)
  case (Cons e es)
  have "halted l k (snd (lines_step env s e))" using halted_step[OF Cons.prems(1)] Cons.prems(2) by simp
  then show ?case using Cons.IH[of "snd (lines_step env s e)"] Cons.prems halted_step[OF Cons.prems(1), of e env]
    by (simp add: split_beta Let_def)
qed simp

text \<open>Closing ends it: the emit takes the cancelled context, and \<open>run\<close> is back in its loop.\<close>

lemma closing_frees:
  assumes "halted l k s"
  shows "ls_stuck (snd (collect (lines_step env) s [Take CloseBegin, Emit True])) = None"
  using assms by (simp add: halted_def lines_step_def take_event_def emit_now_def emit_point_def)


text \<open>
  Live captions are lines too, so in a call without a data channel, where nobody receives, 64 captions
  are enough: the next one halts \<open>run\<close> for the rest of the call.
\<close>

definition caption_event :: "time \<Rightarrow> string \<Rightarrow> cascade_event" where
  "caption_event now t = AsrEvent now False \<lparr>ev_Kind = ASRPartial, ev_Text = t\<rparr>"

definition listening :: "nat \<Rightarrow> cascade_lines \<Rightarrow> bool" where
  "listening n s \<longleftrightarrow>
     ls_stuck s = None \<and> length (ch_items (ls_chan s)) = n \<and> ch_cap (ls_chan s) = transcriptCap \<and>
     cs_run (ls_cascade s) = Looping \<and> \<not> cs_closing (ls_cascade s)"

lemma caption_point: "cs_run s = Looping \<Longrightarrow>
    emit_point (caption_event now t) s = Some (s, user_line t, AfterPartial now False t)"
  by (simp add: emit_point_def emit_asr_def caption_event_def)

lemma after_caption:
  "cs_run (after_emit (AfterPartial now False t) s) = cs_run s"
  "cs_closing (after_emit (AfterPartial now False t) s) = cs_closing s"
  by (simp_all add: small_closing split_beta Let_def)
    (simp add: isPotentialSentence_def removeSpeculative_def cancelPending_def scheduleSpeculative_def add_turn_def Let_def)

lemma caption_fits:
  assumes "listening n s" and "n < transcriptCap"
  shows "listening (Suc n) (snd (collect (lines_step env) s [Take (caption_event now t), Emit False]))"
  using assms
  by (simp add: listening_def lines_step_def take_event_def caption_point emit_now_def ch_full_def after_caption
      del: after_emit.simps) (simp add: log_line_def)

lemma captions_fit:
  "listening n s \<Longrightarrow> n + k \<le> transcriptCap \<Longrightarrow>
    listening (n + k) (snd (collect (lines_step env) s (concat (replicate k [Take (caption_event now t), Emit False]))))"
proof (induction k arbitrary: n s)
  case (Suc k)
  have "listening (Suc n) (snd (collect (lines_step env) s [Take (caption_event now t), Emit False]))"
    using Suc.prems by (intro caption_fits) auto
  from Suc.IH[OF this] Suc.prems(2) show ?case by (simp add: split_beta Let_def)
qed simp

theorem captions_halt:
  assumes "cascade_New asr llm tts system = Inr c"
  shows "halted (user_line t) (AfterPartial now False t)
    (snd (collect (lines_step env) (lines_start c)
      (concat (replicate 64 [Take (caption_event now t), Emit False]) @ [Take (caption_event now t)])))"
proof -
  have "listening 0 (lines_start c)"
    using assms by (auto simp: cascade_New_def listening_def lines_start_def split: if_splits)
  from captions_fit[OF this, of 64 env now t]
  have "listening 64 (snd (collect (lines_step env) (lines_start c)
      (concat (replicate 64 [Take (caption_event now t), Emit False]))))" by (simp add: transcriptCap_def)
  then show ?thesis
    by (simp add: collect_append split_beta Let_def listening_def halted_def lines_step_def take_event_def caption_point
        ch_full_def transcriptCap_def)
qed


text \<open>Two captions, of which the reader has received one.\<close>

theorem reader_hides_capacity_witness:
  "\<exists>os s'. collect (lines_step demo_env) (lines_start demo_cascade)
      [Take (caption_event 0 ''a''), Emit True, Take (caption_event 1 ''b''), Receive False] = (os, s') \<and>
    lines_got os @ ch_items (ls_chan s') @ unsent s' = [user_line ''a'', user_line ''b'']"
proof -
  let ?s = "lines_start demo_cascade"
  let ?es = "[Take (caption_event 0 ''a''), Emit True, Take (caption_event 1 ''b''), Receive False]"
  let ?s1 = "\<lparr>ls_cascade = after_emit (AfterPartial 0 False ''a'') (log_line (user_line ''a'') demo_cascade),
      ls_chan = ch_put (user_line ''a'') (make_chan transcriptCap), ls_stuck = None\<rparr>"
  obtain os s' where r: "collect (lines_step demo_env) ?s ?es = (os, s')" by fastforce
  have "snd (lines_step demo_env ?s (Take (caption_event 0 ''a''))) =
      ?s\<lparr>ls_stuck := Some (user_line ''a'', AfterPartial 0 False ''a'')\<rparr>"
    by (simp add: lines_step_def take_event_def lines_start_def caption_point)
  moreover have "snd (lines_step demo_env (?s\<lparr>ls_stuck := Some (user_line ''a'', AfterPartial 0 False ''a'')\<rparr>) (Emit True)) = ?s1"
    by (simp add: lines_step_def emit_now_def lines_start_def ch_full_def make_chan_def transcriptCap_def del: after_emit.simps)
  moreover have "cs_run (ls_cascade ?s1) = Looping" by (simp add: after_caption log_line_def del: after_emit.simps)
  ultimately have "due_lines demo_env ?s ?es = [user_line ''a'', user_line ''b'']"
    by (simp add: due_now_def lines_start_def caption_point del: after_emit.simps)
  moreover have "\<not> cs_closing demo_cascade" by (simp add: demo_cascade_def cascade_New_def)
  moreover have "Take CloseBegin \<notin> set ?es" by (simp add: caption_event_def)
  ultimately show ?thesis using reader_hides_capacity[OF _ _ r] r by auto
qed

subsection \<open>The rest of the seam\<close>

text \<open>
  \<open>SendAudio\<close> hands the samples to the recogniser.  The bridge polls a model that supports interruption;
  the cascade says so, but its barge-in comes from the recogniser inside \<open>run\<close>, and the poll is always
  negative: the monitor of the bridge never handles an interruption.
\<close>

definition cascade_SendAudio :: "(i16 list \<Rightarrow> 'a) \<Rightarrow> i16 list \<Rightarrow> 'a" where
  "cascade_SendAudio asr_Write pcm = asr_Write pcm"

definition cascade_RecvInterrupted :: "bool option" where
  "cascade_RecvInterrupted = Some False"

definition cascade_SupportsInterruption :: bool where
  "cascade_SupportsInterruption = True"

end
