(* ===== verification/Stageloops.thy ===== *)
theory Stageloops
  imports Stages Adapter
begin

text \<open>
  The live half of the cascade's stages: the request and the cancellable reader of the streamed speech
  (\<open>tts/xtts.go\<close>), the goroutines that deliver recognition events (\<open>asr/whisper.go\<close>, the demo recogniser of
  \<open>fakestage\<close>), the request of the turn detector (\<open>turndetect/http.go\<close>), and the constructors.  The HTTP
  and WebSocket transports are parameters.
\<close>

subsection \<open>Constructors\<close>

text \<open>A client of \<open>net/http\<close> is represented by its timeout, 0 for none.\<close>

record coqui_stage =
  cq_baseURL :: string
  cq_timeout :: duration

definition NewCoqui :: "string \<Rightarrow> coqui_stage" where
  "NewCoqui baseURL = \<lparr>cq_baseURL = trim_slashes baseURL, cq_timeout = 0\<rparr>"

record openai_stage =
  oa_baseURL :: string
  oa_model :: string
  oa_timeout :: duration

definition openai_New :: "string \<Rightarrow> string \<Rightarrow> openai_stage" where
  "openai_New baseURL model = \<lparr>oa_baseURL = trim_slashes baseURL, oa_model = model, oa_timeout = 0\<rparr>"

record turn_detector =
  td_url :: string
  td_timeout :: duration

definition NewHTTP :: "string \<Rightarrow> turn_detector" where
  "NewHTTP baseURL = \<lparr>td_url = trim_slashes baseURL @ ''/detect'', td_timeout = 200 * millisecond\<rparr>"

lemma trim_slashes_idem [simp]: "trim_slashes (trim_slashes s) = trim_slashes s"
proof -
  have "dropWhile P (dropWhile P xs) = dropWhile P xs" for P and xs :: string
    by (induction xs) auto
  then show ?thesis by (simp add: trim_slashes_def)
qed

lemma trim_slashes_end: "trim_slashes s = '''' \<or> last (trim_slashes s) \<noteq> CHR ''/''"
proof (cases "dropWhile (\<lambda>c. c = CHR ''/'') (rev s)")
  case (Cons c cs)
  then show ?thesis using hd_dropWhile[of "\<lambda>c. c = CHR ''/''" "rev s"] by (auto simp: trim_slashes_def)
qed (simp add: trim_slashes_def)

subsection \<open>The turn detector\<close>

text \<open>What becomes of the request; an answer has a status and a body.\<close>

datatype detect_reply = NoRequest | NoAnswer | DetectAnswer int string

definition turn_request :: "string \<Rightarrow> json" where
  "turn_request t = JObj [(''text'', JStr t)]"

definition HTTP_SuggestedPause ::
  "(string \<Rightarrow> json \<Rightarrow> duration \<Rightarrow> detect_reply) \<Rightarrow> (string \<Rightarrow> int option) \<Rightarrow> turn_detector \<Rightarrow> string \<Rightarrow> duration" where
  "HTTP_SuggestedPause post decode d t =
     (case post (td_url d) (turn_request t) (td_timeout d) of
        NoRequest \<Rightarrow> defaultPause
      | NoAnswer \<Rightarrow> defaultPause
      | DetectAnswer status body \<Rightarrow> SuggestedPause (decode body))"

definition NopTurnDetector_SuggestedPause :: "string \<Rightarrow> duration" where
  "NopTurnDetector_SuggestedPause t = 0"

text \<open>
  Every failure on the way gives the default; an answer whose status is an error does not: an object
  without the field decodes to 0, and the turn is committed without a pause.
\<close>

lemma pause_default:
  "(\<And>u r d. post u r d = NoAnswer \<or> post u r d = NoRequest \<or> (\<exists>st b. post u r d = DetectAnswer st b \<and> decode b = None)) \<Longrightarrow>
    HTTP_SuggestedPause post decode det t = defaultPause"
  by (auto simp: HTTP_SuggestedPause_def SuggestedPause_def split: detect_reply.split)
    (metis detect_reply.distinct(3,5) detect_reply.inject option.simps(4))

lemma error_status_no_pause:
  "HTTP_SuggestedPause (\<lambda>_ _ _. DetectAnswer 500 ''{}'') (\<lambda>_. Some 0) det t = NopTurnDetector_SuggestedPause t"
  by (simp add: HTTP_SuggestedPause_def SuggestedPause_def NopTurnDetector_SuggestedPause_def)

subsection \<open>XTTS: the request\<close>

text \<open>The conditioning of a voice is passed on as the JSON it came in: the embedding and the latent.\<close>

definition xtts_request :: "(json \<times> json) xtts_stage \<Rightarrow> string \<Rightarrow> string \<Rightarrow> json" where
  "xtts_request x t chunkSize =
     JObj [(''speaker_embedding'', fst (xs_voice x)), (''gpt_cond_latent'', snd (xs_voice x)), (''text'', JStr t),
           (''language'', JStr (xs_language x)), (''add_wav_header'', JBool False),
           (''stream_chunk_size'', JStr chunkSize)]"

text \<open>A body that is being read: the results of its reads, up to the first error.\<close>

datatype speech_reply = SpeechNotSent go_error | SpeechFailed go_error | SpeechAnswered int "bytes list"

text \<open>
  The goroutine of \<open>stream\<close> with its cancellation: \<open>k\<close> frames are sent before \<open>send\<close> finds the cancelled
  context ready and chooses it.  A cancelled context also makes the read fail: then the list of reads is shorter.
\<close>

fun xtts_pump :: "xtts \<Rightarrow> nat \<Rightarrow> bytes list \<Rightarrow> i16 list list option" where
  "xtts_pump s k [] = Some (if xt_pending s \<noteq> [] then take k [xt_pending s] else [])"
| "xtts_pump s k (buf # bufs) =
     (case xtts_read buf s of
        None \<Rightarrow> None
      | Some (fs, s') \<Rightarrow>
          (if length fs \<le> k then map_option (\<lambda>rest. fs @ rest) (xtts_pump s' (k - length fs) bufs)
           else Some (take k fs)))"

definition xtts_speak ::
  "(json \<Rightarrow> go_error + string) \<Rightarrow> (string \<Rightarrow> string \<Rightarrow> speech_reply) \<Rightarrow> nat \<Rightarrow> (json \<times> json) xtts_stage \<Rightarrow>
   string \<Rightarrow> string \<Rightarrow> go_error + i16 list list option" where
  "xtts_speak marshal post k x t chunkSize =
     (case marshal (xtts_request x t chunkSize) of
        Inl e \<Rightarrow> Inl (''xtts marshal: '' @ e)
      | Inr body \<Rightarrow>
          (case post (xs_baseURL x @ ''/tts_stream'') body of
             SpeechNotSent e \<Rightarrow> Inl (''xtts request: '' @ e)
           | SpeechFailed e \<Rightarrow> Inl (''xtts http: '' @ e)
           | SpeechAnswered st reads \<Rightarrow>
               (if st \<noteq> 200 then Inl (''xtts status '' @ format_int st)
                else Inr (xtts_pump xtts_start k reads))))"

definition xtts_Synthesize ::
  "(json \<Rightarrow> go_error + string) \<Rightarrow> (string \<Rightarrow> string \<Rightarrow> speech_reply) \<Rightarrow> nat \<Rightarrow> (json \<times> json) xtts_stage \<Rightarrow>
   string \<Rightarrow> go_error + i16 list list option" where
  "xtts_Synthesize marshal post k x t = xtts_speak marshal post k x t xttsFinalChunkSize"

definition xtts_SynthesizeQuick ::
  "(json \<Rightarrow> go_error + string) \<Rightarrow> (string \<Rightarrow> string \<Rightarrow> speech_reply) \<Rightarrow> nat \<Rightarrow> (json \<times> json) xtts_stage \<Rightarrow>
   string \<Rightarrow> go_error + i16 list list option" where
  "xtts_SynthesizeQuick marshal post k x t = xtts_speak marshal post k x t xttsQuickChunkSize"

text \<open>\<open>prewarm\<close>: one request for the whole process, \<open>prewarmOnce\<close>; the second component is the flag afterwards.\<close>

definition prewarm ::
  "(json \<Rightarrow> go_error + string) \<Rightarrow> (string \<Rightarrow> string \<Rightarrow> speech_reply) \<Rightarrow> nat \<Rightarrow> (json \<times> json) xtts_stage \<Rightarrow>
   bool \<Rightarrow> (go_error + i16 list list option) option \<times> bool" where
  "prewarm marshal post k x prewarmed =
     (if prewarmed then (None, True)
      else (Some (xtts_SynthesizeQuick marshal post k x ''Warming up the text to speech engine.''), True))"

lemma prewarm_once: "fst (prewarm marshal post k x (snd (prewarm marshal' post' k' x' b))) = None"
  by (simp add: prewarm_def)

subsection \<open>XTTS: a barge-in cuts the speech, and nothing else\<close>

lemma pump_take: "xtts_stream s bufs = Some fs \<Longrightarrow> xtts_pump s k bufs = Some (take k fs)"
proof (induction bufs arbitrary: s fs k)
  case (Cons buf bufs)
  then obtain gs s' rest where r: "xtts_read buf s = Some (gs, s')" "xtts_stream s' bufs = Some rest" "fs = gs @ rest"
    by (auto split: option.splits)
  show ?case using Cons.IH[OF r(2)] r by simp
qed auto

lemma stream_starts_with_pending:
  "xtts_stream s bufs = Some fs \<Longrightarrow> prefix (xt_pending s) (concat fs)"
proof (induction bufs arbitrary: s fs)
  case (Cons buf bufs)
  then obtain gs s' rest where r: "xtts_read buf s = Some (gs, s')" "xtts_stream s' bufs = Some rest" "fs = gs @ rest"
    by (auto split: option.splits)
  have "prefix (xt_pending s) (concat gs @ xt_pending s')"
    using r(1) by (auto simp: xtts_read_def Let_def split: if_splits prod.splits option.splits
        dest!: full_frames_spec)
  moreover obtain zs where "concat rest = xt_pending s' @ zs" using Cons.IH[OF r(2)] by (auto elim: prefixE)
  ultimately have "prefix (xt_pending s) ((concat gs @ xt_pending s') @ zs)" "concat fs = (concat gs @ xt_pending s') @ zs"
    using r(3) by (blast intro: prefix_prefix, simp)
  then show ?case by simp
qed (auto split: if_splits)

lemma stream_prefix:
  "xtts_stream s bufs = Some gs \<Longrightarrow> xtts_stream s (bufs @ later) = Some fs \<Longrightarrow> prefix (concat gs) (concat fs)"
proof (induction bufs arbitrary: s fs gs)
  case Nil
  then show ?case using stream_starts_with_pending[of s later fs] by (auto split: if_splits)
next
  case (Cons buf bufs)
  then show ?case by (fastforce split: option.splits)
qed

lemma concat_take_prefix: "prefix (concat (take k fs)) (concat fs)"
  by (metis append_take_drop_id concat_append prefixI)

text \<open>
  A barge-in that cancels the context, whether the pump sees it when it sends or when it reads, cuts
  the speech off: what was sent is the beginning of the whole speech, sample for sample.
\<close>

theorem barge_in_cuts_speech:
  assumes "xtts_stream xtts_start (reads @ unread) = Some fs" and "xtts_stream xtts_start reads = Some gs"
    and "xtts_pump xtts_start k reads = Some sent"
  shows "prefix (concat sent) (concat fs)"
proof -
  have "sent = take k gs" using assms(3) pump_take[OF assms(2)] by simp
  then show ?thesis using concat_take_prefix[of k gs] stream_prefix[OF assms(2,1)] by (metis prefix_order.trans)
qed

subsection \<open>Recognisers: a goroutine that delivers events\<close>

text \<open>
  \<open>Whisper.readLoop\<close> and \<open>loop\<close> of the demo recogniser have one shape: take an input, turn it into an event
  or skip it, put the event into a bounded channel unless the stop signal is chosen.  They differ in the
  capacity, in what an input becomes, in when the source may end (a failing connection at any time, the
  demo's ticker only by the stop signal) and in whether the channel is closed at the end.
\<close>

record ('n, 'm) recogniser_kind =
  rk_cap :: nat
  rk_event :: "'n \<Rightarrow> 'm \<Rightarrow> asr_event option \<times> 'n"
  rk_may_fail :: bool
  rk_closes :: bool

datatype asr_loop = Listening | Sending asr_event | Returned

record 'n recogniser =
  rg_events :: "asr_event chan"
  rg_loop :: asr_loop
  rg_stopped :: bool
  rg_n :: 'n

definition recogniser_start :: "('n, 'm) recogniser_kind \<Rightarrow> 'n \<Rightarrow> 'n recogniser" where
  "recogniser_start k n =
     \<lparr>rg_events = make_chan (rk_cap k), rg_loop = Listening, rg_stopped = False, rg_n = n\<rparr>"

text \<open>The deferred calls.\<close>

definition rg_end :: "('n, 'm) recogniser_kind \<Rightarrow> 'n recogniser \<Rightarrow> 'n recogniser" where
  "rg_end k s = s\<lparr>rg_events := (if rk_closes k then ch_close (rg_events s) else rg_events s), rg_loop := Returned\<rparr>"

text \<open>
  An input arrives; the source fails, or the stop signal is chosen while listening; the pending event is
  sent, or the stop signal chosen (\<open>ctx\<close>); the cascade receives; \<open>Close\<close> gives the stop signal.
\<close>

datatype 'm rg_event = Input 'm | SourceEnds | SendEvent bool | TakeEvent | StopRecogniser

datatype 'm rg_out = Heard 'm | Taken "asr_event got" | NoOut

definition rg_step ::
  "('n, 'm) recogniser_kind \<Rightarrow> 'n recogniser \<Rightarrow> 'm rg_event \<Rightarrow> 'm rg_out \<times> 'n recogniser" where
  "rg_step k s e =
     (case e of
        Input m \<Rightarrow>
          (if rg_loop s = Listening
           then (let (ev, n) = rk_event k (rg_n s) m in
                 (Heard m, s\<lparr>rg_n := n, rg_loop := (case ev of None \<Rightarrow> Listening | Some v \<Rightarrow> Sending v)\<rparr>))
           else (NoOut, s))
      | SourceEnds \<Rightarrow>
          (NoOut, if rg_loop s = Listening \<and> (rk_may_fail k \<or> rg_stopped s) then rg_end k s else s)
      | SendEvent ctx \<Rightarrow>
          (NoOut,
           case rg_loop s of
             Sending v \<Rightarrow>
               (if rg_stopped s \<and> (ctx \<or> ch_full (rg_events s)) then rg_end k s
                else if ch_full (rg_events s) then s
                else s\<lparr>rg_events := ch_put v (rg_events s), rg_loop := Listening\<rparr>)
           | _ \<Rightarrow> s)
      | TakeEvent \<Rightarrow>
          (let (r, c) = ch_recv False False (rg_events s) in (Taken r, s\<lparr>rg_events := c\<rparr>))
      | StopRecogniser \<Rightarrow> (NoOut, s\<lparr>rg_stopped := True\<rparr>))"

text \<open>What was heard and what was taken, the events of a list of inputs, and what is on its way.\<close>

definition heard :: "'m rg_out list \<Rightarrow> 'm list" where
  "heard os = List.map_filter (\<lambda>out. case out of Heard m \<Rightarrow> Some m | _ \<Rightarrow> None) os"

definition taken :: "'m rg_out list \<Rightarrow> asr_event list" where
  "taken os = List.map_filter (\<lambda>out. case out of Taken (Got v) \<Rightarrow> Some v | _ \<Rightarrow> None) os"

fun events_of :: "('n \<Rightarrow> 'm \<Rightarrow> asr_event option \<times> 'n) \<Rightarrow> 'n \<Rightarrow> 'm list \<Rightarrow> asr_event list" where
  "events_of f n [] = []"
| "events_of f n (m # ms) =
     (case f n m of (None, n') \<Rightarrow> events_of f n' ms | (Some v, n') \<Rightarrow> v # events_of f n' ms)"

definition in_flight :: "'n recogniser \<Rightarrow> asr_event list" where
  "in_flight s = ch_items (rg_events s) @ (case rg_loop s of Sending v \<Rightarrow> [v] | _ \<Rightarrow> [])"

lemma out_simps [simp]:
  "heard [] = []" "taken [] = []"
  "heard (Heard m # os) = m # heard os" "heard (NoOut # os) = heard os" "heard (Taken r # os) = heard os"
  "taken (Heard m # os) = taken os" "taken (NoOut # os) = taken os"
  "taken (Taken r # os) = (case r of Got v \<Rightarrow> v # taken os | _ \<Rightarrow> taken os)"
  by (simp_all add: heard_def taken_def map_filter_simps split: got.split)

lemma returned_stays:
  assumes "rg_loop s = Returned"
  shows "rg_loop (snd (rg_step k s e)) = Returned" and "heard (fst (rg_step k s e) # os) = heard os"
    and "rg_loop (snd (collect (rg_step k) s es)) = Returned" and "heard (fst (collect (rg_step k) s es)) = []"
proof -
  have one: "rg_loop (snd (rg_step k s e)) = Returned" "heard (fst (rg_step k s e) # os) = heard os"
    if "rg_loop s = Returned" for s :: "'a recogniser" and e os
    using that by (auto simp: rg_step_def split: rg_event.splits prod.splits)
  show "rg_loop (snd (rg_step k s e)) = Returned" "heard (fst (rg_step k s e) # os) = heard os"
    using one[OF assms] by blast+
  show "rg_loop (snd (collect (rg_step k) s es)) = Returned" "heard (fst (collect (rg_step k) s es)) = []"
    using assms by (induction es arbitrary: s) (auto simp: split_beta Let_def one)
qed

text \<open>One step moves events along, or ends the goroutine with the event it held.\<close>

lemma rg_step_moves:
  assumes "rg_step k s e = (out, s')"
  obtains (moves) "\<And>ms. taken [out] @ in_flight s' @ events_of (rk_event k) (rg_n s') ms =
      in_flight s @ events_of (rk_event k) (rg_n s) (heard [out] @ ms)"
  | (ends) "rg_loop s' = Returned" "rg_stopped s'" "taken [out] = []" "heard [out] = []"
      "prefix (in_flight s') (in_flight s)"
proof (cases e)
  case (SendEvent ctx)
  show thesis
  proof (cases "\<exists>v. rg_loop s = Sending v \<and> rg_stopped s \<and> (ctx \<or> ch_full (rg_events s))")
    case True
    then show thesis using assms SendEvent ends by (auto simp: rg_step_def rg_end_def in_flight_def)
  next
    case False
    then show thesis using assms SendEvent moves
      by (auto simp: rg_step_def in_flight_def split: asr_loop.splits if_splits)
  qed
next
  case TakeEvent
  then show thesis using assms moves
    by (auto simp: rg_step_def in_flight_def ch_recv_def split: list.splits if_splits)
qed (use assms moves in \<open>auto simp: rg_step_def rg_end_def in_flight_def Let_def split: if_splits prod.splits option.splits\<close>)


text \<open>
  Events are delivered in order, none lost, none twice: what was taken and what is on its way are the
  events of what was heard.  After the stop the event being sent may be dropped, and nothing more is heard.
\<close>

lemma recogniser_delivers:
  assumes "collect (rg_step k) s es = (os, s')"
  shows "prefix (taken os @ in_flight s') (in_flight s @ events_of (rk_event k) (rg_n s) (heard os))"
    and "\<not> rg_stopped s' \<Longrightarrow>
      taken os @ in_flight s' = in_flight s @ events_of (rk_event k) (rg_n s) (heard os)"
proof -
  have "prefix (taken os @ in_flight s') (in_flight s @ events_of (rk_event k) (rg_n s) (heard os)) \<and>
    (\<not> rg_stopped s' \<longrightarrow>
      taken os @ in_flight s' = in_flight s @ events_of (rk_event k) (rg_n s) (heard os)) \<and>
    (rg_stopped s \<longrightarrow> rg_stopped s')"
    using assms
  proof (induction es arbitrary: s os)
    case (Cons e es)
    obtain out s1 where st: "rg_step k s e = (out, s1)" by fastforce
    obtain os1 where c: "collect (rg_step k) s1 es = (os1, s')" "os = out # os1"
      using Cons.prems st by (auto simp: Let_def split: prod.splits)
    note ih = Cons.IH[OF c(1)]
    have taken: "taken os = taken [out] @ taken os1" and heard: "heard os = heard [out] @ heard os1"
      by (cases out; simp add: c(2) split: got.split)+
    have stop: "rg_stopped s \<longrightarrow> rg_stopped s1"
      using st by (auto simp: rg_step_def rg_end_def Let_def split: rg_event.splits asr_loop.splits if_splits prod.splits)
    from st show ?case
    proof (cases rule: rg_step_moves)
      case moves
      then have "in_flight s @ events_of (rk_event k) (rg_n s) (heard os) =
          taken [out] @ in_flight s1 @ events_of (rk_event k) (rg_n s1) (heard os1)" by (simp add: heard)
      then show ?thesis using ih stop by (simp add: taken)
    next
      case ends
      have none: "heard os1 = []" using returned_stays(4)[OF ends(1), of k es] c(1) by simp
      then have "prefix (taken os1 @ in_flight s') (in_flight s1)" using ih by simp
      then have "prefix (taken os1 @ in_flight s') (in_flight s)" using ends(5) by (metis prefix_order.trans)
      moreover have "heard os = []" "taken os = taken os1" "rg_stopped s'"
        using ends none ih by (simp_all add: taken heard)
      ultimately show ?thesis by simp
    qed
  qed simp
  then show "prefix (taken os @ in_flight s') (in_flight s @ events_of (rk_event k) (rg_n s) (heard os))"
    and "\<not> rg_stopped s' \<Longrightarrow>
      taken os @ in_flight s' = in_flight s @ events_of (rk_event k) (rg_n s) (heard os)" by blast+
qed

text \<open>The channel never holds more than its capacity and is closed, if at all, when the goroutine has returned.\<close>

definition recogniser_ok :: "('n, 'm) recogniser_kind \<Rightarrow> 'n recogniser \<Rightarrow> bool" where
  "recogniser_ok k s \<longleftrightarrow>
     length (ch_items (rg_events s)) \<le> ch_cap (rg_events s) \<and> ch_cap (rg_events s) = rk_cap k \<and>
     (ch_closed (rg_events s) \<longleftrightarrow> rk_closes k \<and> rg_loop s = Returned)"

interpretation recogniser: machine "\<lambda>s e. snd (rg_step k s e)" "recogniser_ok k" for k :: "('n, 'm) recogniser_kind"
proof
  fix s :: "'n recogniser" and e :: "'m rg_event"
  assume ok: "recogniser_ok k s"
  show "recogniser_ok k (snd (rg_step k s e))"
  proof (cases e)
    case (Input m)
    then show ?thesis using ok by (auto simp: recogniser_ok_def rg_step_def split: prod.splits option.splits)
  next
    case (SendEvent ctx)
    then show ?thesis using ok
      by (auto simp: recogniser_ok_def rg_step_def rg_end_def ch_full_def split: asr_loop.splits)
  next
    case TakeEvent
    then show ?thesis using ok
      by (auto simp: recogniser_ok_def rg_step_def ch_recv_def split: list.splits)
  qed (use ok in \<open>auto simp: recogniser_ok_def rg_step_def rg_end_def\<close>)
qed

text \<open>\<open>Close\<close> returns: whatever the goroutine was doing, after the stop signal its next two steps end it.\<close>

lemma stop_ends_recogniser:
  "rg_stopped s \<Longrightarrow>
    rg_loop (run (\<lambda>s e. snd (rg_step k s e)) s [SendEvent True, SourceEnds]) = Returned"
  by (cases "rg_loop s") (auto simp: rg_step_def rg_end_def)

subsection \<open>The two recognisers\<close>

definition whisper_kind :: "('m \<Rightarrow> whisper_msg option) \<Rightarrow> (unit, 'm) recogniser_kind" where
  "whisper_kind decode =
     \<lparr>rk_cap = 16, rk_event = (\<lambda>_ m. (whisper_event (decode m), ())), rk_may_fail = True, rk_closes = True\<rparr>"

text \<open>\<open>NewWhisper\<close>: the error of the dial, if any.\<close>

definition NewWhisper :: "(string \<Rightarrow> go_error option) \<Rightarrow> string \<Rightarrow> ('m \<Rightarrow> whisper_msg option) \<Rightarrow> go_error + unit recogniser" where
  "NewWhisper dial url decode =
     (case dial url of
        Some e \<Rightarrow> Inl (''whisper dial '' @ url @ '': '' @ e)
      | None \<Rightarrow> Inr (recogniser_start (whisper_kind decode) ()))"

definition demo_kind :: "(nat, unit) recogniser_kind" where
  "demo_kind =
     \<lparr>rk_cap = 4, rk_event = (\<lambda>n _. (Some (fake_event (n + 1)), n + 1)), rk_may_fail = False, rk_closes = False\<rparr>"

definition NewASR :: "nat recogniser" where
  "NewASR = recogniser_start demo_kind 0"

lemma events_of_whisper: "events_of (rk_event (whisper_kind decode)) u ms = whisper_readLoop decode ms"
  by (induction ms arbitrary: u)
    (auto simp: whisper_kind_def whisper_readLoop_def map_filter_simps split: option.split)

lemma events_of_demo: "events_of (rk_event demo_kind) n ms = map fake_event [n + 1 ..< n + 1 + length ms]"
proof (induction ms arbitrary: n)
  case (Cons m ms)
  have "events_of (rk_event demo_kind) n (m # ms) = fake_event (n + 1) # events_of (rk_event demo_kind) (n + 1) ms"
    by (simp add: demo_kind_def)
  then show ?case unfolding Cons by (simp add: upt_conv_Cons del: upt_Suc)
qed simp

text \<open>
  The cascade receives exactly the events of the messages the server sent, in order; those it has not
  yet taken are in the channel or being sent, and only the end of the session may cut them off.
\<close>

theorem whisper_delivers:
  assumes "NewWhisper dial url decode = Inr s" and "collect (rg_step (whisper_kind decode)) s es = (os, s')"
  shows "prefix (taken os @ in_flight s') (whisper_readLoop decode (heard os)) \<and>
    (\<not> rg_stopped s' \<longrightarrow> taken os @ in_flight s' = whisper_readLoop decode (heard os)) \<and>
    length (ch_items (rg_events s')) \<le> 16 \<and> (ch_closed (rg_events s') \<longleftrightarrow> rg_loop s' = Returned)"
proof -
  have s: "s = recogniser_start (whisper_kind decode) ()"
    using assms(1) by (simp add: NewWhisper_def split: option.splits)
  have start: "in_flight s = []" "recogniser_ok (whisper_kind decode) s"
    by (simp_all add: s recogniser_start_def in_flight_def recogniser_ok_def)
  have "snd (collect (rg_step (whisper_kind decode)) t fs) = run (\<lambda>s e. snd (rg_step (whisper_kind decode) s e)) t fs"
    for t and fs :: "'a rg_event list"
    by (induction fs arbitrary: t) (simp_all add: split_beta Let_def)
  then have "s' = run (\<lambda>s e. snd (rg_step (whisper_kind decode) s e)) s es" by (metis assms(2) snd_conv)
  then have "recogniser_ok (whisper_kind decode) s'" using recogniser.run_inv[OF start(2)] by simp
  then have "length (ch_items (rg_events s')) \<le> 16 \<and> (ch_closed (rg_events s') \<longleftrightarrow> rg_loop s' = Returned)"
    by (simp add: recogniser_ok_def whisper_kind_def)
  then show ?thesis using recogniser_delivers[OF assms(2), unfolded events_of_whisper start(1) append_Nil] by blast
qed

theorem whisper_delivers_witness:
  "\<exists>s. NewWhisper (\<lambda>_. None) ''ws://asr'' (\<lambda>m. Some m) = Inr s \<and>
    prefix (taken (fst (collect (rg_step (whisper_kind (\<lambda>m. Some m))) s
        [Input \<lparr>wm_Type = ''final'', wm_Text = ''yes''\<rparr>, SendEvent False, TakeEvent])))
      [\<lparr>ev_Kind = ASRFinal, ev_Text = ''yes''\<rparr>]"
proof -
  let ?k = "whisper_kind (\<lambda>m :: whisper_msg. Some m)" and ?m = "\<lparr>wm_Type = ''final'', wm_Text = ''yes''\<rparr>"
  let ?s = "recogniser_start ?k ()" and ?es = "[Input ?m, SendEvent False, TakeEvent]"
  have s: "NewWhisper (\<lambda>_. None) ''ws://asr'' (\<lambda>m. Some m) = Inr ?s" by (simp add: NewWhisper_def)
  obtain os s' where c: "collect (rg_step ?k) ?s ?es = (os, s')" by fastforce
  then have "heard os = [?m]"
    by (auto simp: rg_step_def recogniser_start_def whisper_kind_def whisper_event_def Let_def split: if_splits prod.splits)
  then have "prefix (taken os @ in_flight s') [\<lparr>ev_Kind = ASRFinal, ev_Text = ''yes''\<rparr>]"
    using whisper_delivers[OF s c] by (simp add: whisper_readLoop_def map_filter_simps whisper_event_def)
  then have "prefix (taken os) [\<lparr>ev_Kind = ASRFinal, ev_Text = ''yes''\<rparr>]" by (metis append_prefixD)
  then show ?thesis using s c by (intro exI[of _ ?s]) simp
qed

text \<open>
  \<open>Close\<close> of Whisper, when nobody else acts meanwhile: the cancel, the send the goroutine may be at, the
  read error of the closed connection, and the wait; \<^const>\<open>None\<close> while the goroutine runs.  The demo's
  only gives the stop signal, again and again if it is called again.
\<close>

definition whisper_Close ::
  "(string \<Rightarrow> whisper_msg option) \<Rightarrow> unit recogniser \<Rightarrow> unit recogniser option" where
  "whisper_Close decode s =
     (let s' = snd (collect (rg_step (whisper_kind decode)) s [StopRecogniser, SendEvent True, SourceEnds]) in
      if rg_loop s' = Returned then Some s' else None)"

definition fake_Close :: "nat recogniser \<Rightarrow> nat recogniser" where
  "fake_Close s = snd (rg_step demo_kind s StopRecogniser)"

lemma recogniser_close:
  "\<exists>s'. whisper_Close decode s = Some s' \<and> rg_loop s' = Returned" "fake_Close (fake_Close n) = fake_Close n"
  by (cases "rg_loop s"; simp add: whisper_Close_def rg_step_def rg_end_def)
    (simp add: fake_Close_def rg_step_def)

text \<open>The demo speaks its turns in order, from the first, without a gap.\<close>

lemma demo_turns:
  "collect (rg_step demo_kind) NewASR es = (os, s') \<Longrightarrow>
    prefix (taken os) (map fake_event [1 ..< 1 + length (heard os)])"
proof -
  assume c: "collect (rg_step demo_kind) NewASR es = (os, s')"
  have "in_flight NewASR = []" "rg_n NewASR = 0"
    by (simp_all add: NewASR_def recogniser_start_def in_flight_def)
  then show ?thesis
    using recogniser_delivers(1)[OF c, unfolded events_of_demo] by (simp del: upt_Suc) (rule append_prefixD)
qed

subsection \<open>The demo voice\<close>

definition toneDur :: duration where "toneDur = 600 * millisecond"

text \<open>The sine is a parameter: the value of sample \<open>i\<close> before the conversion.\<close>

definition fake_Synthesize :: "(nat \<Rightarrow> int) \<Rightarrow> string \<Rightarrow> i16 list list" where
  "fake_Synthesize tone t = [map (\<lambda>i. word_of_int (tone i)) [0 ..< nat (48000 * toneDur div second)]]"

lemma fake_speech_length: "length (concat (fake_Synthesize tone t)) = 28800"
  by (simp add: fake_Synthesize_def toneDur_def second_def millisecond_def)


subsection \<open>Cancellation of the other two readers\<close>

text \<open>
  As in \<^const>\<open>xtts_pump\<close>, \<open>k\<close> sends succeed before the goroutine finds the cancelled context ready and
  chooses it.
\<close>

fun coqui_pump :: "nat \<Rightarrow> i16 list \<Rightarrow> i16 list list" where
  "coqui_pump 0 pcm = []"
| "coqui_pump (Suc k) pcm =
     (if 0 < length pcm
      then (let n = min chunkSamples (length pcm) in take n pcm # coqui_pump k (drop n pcm))
      else [])"

fun sse_pump :: "(string \<Rightarrow> string list option) \<Rightarrow> nat \<Rightarrow> string list \<Rightarrow> string list" where
  "sse_pump decode k [] = []"
| "sse_pump decode k (l # ls) =
     (if \<not> has_prefix l ''data: '' then sse_pump decode k ls
      else
        (let payload = drop 6 l in
         if payload = ''[DONE]'' then []
         else
           (case decode payload of
              None \<Rightarrow> sse_pump decode k ls
            | Some [] \<Rightarrow> sse_pump decode k ls
            | Some (t # _) \<Rightarrow>
                (if t = '''' then sse_pump decode k ls
                 else (case k of 0 \<Rightarrow> [] | Suc j \<Rightarrow> t # sse_pump decode j ls)))))"

lemma coqui_pump_take: "coqui_pump k pcm = take k (coqui_chunks pcm)"
proof (induction k arbitrary: pcm)
  case (Suc k)
  show ?case unfolding coqui_chunks.simps[of pcm] using Suc by (simp add: Let_def)
qed simp

lemma sse_pump_take: "sse_pump decode k ls = take k (sse_tokens decode ls)"
  by (induction decode k ls rule: sse_pump.induct) (auto simp: Let_def split: option.split list.split nat.split)

text \<open>The addresses the two stages call; \<open>escape\<close> is \<open>url.QueryEscape\<close>.\<close>

definition coqui_endpoint :: "(string \<Rightarrow> string) \<Rightarrow> coqui_stage \<Rightarrow> string \<Rightarrow> string" where
  "coqui_endpoint escape c t = cq_baseURL c @ ''/api/tts?text='' @ escape t"

definition openai_endpoint :: "openai_stage \<Rightarrow> string" where
  "openai_endpoint d = oa_baseURL d @ ''/v1/chat/completions''"

text \<open>A base address may be written with or without slashes at its end.\<close>

lemma endpoints_trimmed:
  "coqui_endpoint escape (NewCoqui (trim_slashes u)) t = coqui_endpoint escape (NewCoqui u) t"
  "openai_endpoint (openai_New (trim_slashes u) m) = openai_endpoint (openai_New u m)"
  "NewHTTP (trim_slashes u) = NewHTTP u"
  by (simp_all add: coqui_endpoint_def NewCoqui_def openai_endpoint_def openai_New_def NewHTTP_def)

end
