(* ===== verification/Mediapath.thy ===== *)
theory Mediapath
  imports Pumps Bridge Codec Doubaosession Gemini Stages Cascadelines
begin

text \<open>
  The media of a session from end to end: the pumps of the bridge (theories Pumps and Bridge) with the
  codec of \<open>internal/audio\<close> (theory Codec) and the adapters of the providers.  Downwards, the model's
  samples become Opus packets; upwards, the browser's packets become the samples a provider's server
  reads out of the frames sent to it.
\<close>

subsection \<open>The codec as the pumps use it\<close>

text \<open>
  The state of the encoder a pump holds, with the number of the frame; \<open>lives k\<close> is the live complexity
  when frame \<open>k\<close> is encoded.  The packet is read before the next call.
\<close>

definition codec_encode ::
  "('e, 'd) opus_lib \<Rightarrow> (nat \<Rightarrow> i32) \<Rightarrow> 'e encoder \<times> nat \<Rightarrow> i16 list \<Rightarrow> bytes option \<times> 'e encoder \<times> nat" where
  "codec_encode lib lives st pcm =
     (case st of (enc, k) \<Rightarrow>
        (let (n, enc') = Encode lib (lives k) enc pcm in
         (map_option (\<lambda>n. packet_slice n enc') n, (enc', Suc k))))"

definition codec_decode ::
  "('e, 'd) opus_lib \<Rightarrow> 'd decoder \<Rightarrow> bytes \<Rightarrow> i16 list option \<times> 'd decoder" where
  "codec_decode lib dec payload =
     (let (n, dec') = Decode lib dec payload in (map_option (\<lambda>n. pcm_slice n dec') n, dec'))"

text \<open>What an encoder makes of a list of frames, and the packets among it.\<close>

fun encoded :: "('s \<Rightarrow> i16 list \<Rightarrow> bytes option \<times> 's) \<Rightarrow> 's \<Rightarrow> i16 list list \<Rightarrow> bytes option list" where
  "encoded encode e [] = []"
| "encoded encode e (f # fs) = (let (d, e') = encode e f in d # encoded encode e' fs)"

fun encoder_after :: "('s \<Rightarrow> i16 list \<Rightarrow> bytes option \<times> 's) \<Rightarrow> 's \<Rightarrow> i16 list list \<Rightarrow> 's" where
  "encoder_after encode e [] = e"
| "encoder_after encode e (f # fs) = encoder_after encode (snd (encode e f)) fs"

definition packets :: "bytes option list \<Rightarrow> bytes list" where
  "packets outs = List.map_filter (\<lambda>x. x) outs"

lemma packets_simps [simp]:
  "packets [] = []" "packets (None # outs) = packets outs" "packets (Some p # outs) = p # packets outs"
  "packets (xs @ ys) = packets xs @ packets ys"
  by (simp_all add: packets_def map_filter_simps) (simp add: map_filter_def)

lemma encoded_append:
  "encoded encode e (fs @ gs) = encoded encode e fs @ encoded encode (encoder_after encode e fs) gs"
  "encoder_after encode e (fs @ gs) = encoder_after encode (encoder_after encode e fs) gs"
  by (induction fs arbitrary: e) (auto simp: split_beta Let_def)

lemma encoded_codec:
  "encoded (codec_encode lib lives) (enc, k) fs =
    encode_stream lib enc (zip (map lives [k ..< k + length fs]) fs)"
proof (induction fs arbitrary: enc k)
  case (Cons f fs)
  obtain n enc' where n: "Encode lib (lives k) enc f = (n, enc')" by fastforce
  have "[k ..< k + length (f # fs)] = k # [Suc k ..< Suc k + length fs]" by (simp add: upt_conv_Cons del: upt_Suc)
  then show ?case using Cons.IH[of enc' "Suc k"] n by (simp add: codec_encode_def del: upt_Suc)
qed simp

subsection \<open>Down: what is written to the browser\<close>

text \<open>The packets written are those of the frames encoded; only the last one may fail to be written.\<close>

definition written_ok :: "'e outbound_env \<Rightarrow> 'e \<Rightarrow> 'e outbound \<Rightarrow> bool" where
  "written_ok env e0 s \<longleftrightarrow>
     ob_enc s = encoder_after (oe_encode env) e0 (ob_frames s) \<and>
     (let ps = packets (encoded (oe_encode env) e0 (ob_frames s)) in
      ob_written s = ps \<or> ob_exit s = Some ''write_sample'' \<and> ps \<noteq> [] \<and> ob_written s = butlast ps)"

lemma emit_frame_written:
  assumes "written_ok env e0 s" and "ob_exit s = None"
  shows "written_ok env e0 (emit_frame env s)"
proof -
  let ?f = "take frameSamples (ob_buf s)"
  obtain data enc where e: "oe_encode env (ob_enc s) ?f = (data, enc)" by fastforce
  have s: "ob_written s = packets (encoded (oe_encode env) e0 (ob_frames s))"
    "ob_enc s = encoder_after (oe_encode env) e0 (ob_frames s)" using assms by (auto simp: written_ok_def)
  then have "packets (encoded (oe_encode env) e0 (ob_frames s @ [?f])) =
      ob_written s @ (case data of None \<Rightarrow> [] | Some d \<Rightarrow> [d])"
    "encoder_after (oe_encode env) e0 (ob_frames s @ [?f]) = enc"
    using e by (simp_all add: encoded_append split: option.split)
  then show ?thesis using e
    by (auto simp: emit_frame_def written_ok_def pump_exit_def Let_def split: option.split)
qed

lemma drain_buf_written: "written_ok env e0 s \<Longrightarrow> written_ok env e0 (drain_buf env s)"
proof (induction env s rule: drain_buf.induct)
  case (1 env s)
  show ?case
  proof (cases "ob_exit s \<noteq> None \<or> length (ob_buf s) < frameSamples")
    case True
    then show ?thesis using 1(2) by (auto simp: drain_buf.simps[of env s])
  next
    case False
    then have "written_ok env e0 (drain_buf env (emit_frame env s))"
      using 1(1)[OF False] emit_frame_written[OF 1(2)] by blast
    then show ?thesis using False by (simp add: drain_buf.simps[of env s])
  qed
qed

lemma pump_written: "written_ok env e0 s \<Longrightarrow> written_ok env e0 (writeOutboundLoop env report err chunks s)"
proof (induction chunks arbitrary: s)
  case Nil
  then show ?case by (auto simp: written_ok_def pump_exit_def Let_def)
next
  case (Cons pcm chunks)
  have "written_ok env e0 (drain_buf env (s\<lparr>ob_buf := ob_buf s @ pcm\<rparr>))"
    by (rule drain_buf_written) (use Cons.prems in \<open>simp add: written_ok_def\<close>)
  then show ?case using Cons by simp
qed

text \<open>
  C6: The browser hears the model.  The packets written to the track are the ones libopus makes of the
  model's samples, cut into consecutive frames of 20 ms, each encoded with the complexity set most recently,
  in order and none twice; nothing of the encoder's reused buffer shows.  A frame that libopus refuses
  is left out, at most the last packet is not written (when the track fails), and when the model's
  stream ends everything but an incomplete last frame has been written.  Every packet fits its buffer.
\<close>

theorem browser_hears_model:
  assumes "fits lib" and "NewEncoder lib live0 = Some enc" and "oe_encode env = codec_encode lib lives"
    and "writeOutbound (map_option (\<lambda>enc. (enc, 0)) (NewEncoder lib live0)) env report err chunks m = Some s"
  shows "\<exists>rest outs. concat chunks = concat (ob_frames s) @ ob_buf s @ rest \<and>
    (\<forall>f \<in> set (ob_frames s). length f = frameSamples) \<and>
    outs = packets (library_stream lib (en_applied enc) (en_e enc)
      (zip (map lives [0 ..< length (ob_frames s)]) (ob_frames s))) \<and>
    (ob_written s = outs \<or> ob_exit s = Some ''write_sample'' \<and> ob_written s = butlast outs) \<and>
    (ob_exit s = Some ''recv'' \<longrightarrow> rest = [] \<and> length (ob_buf s) < frameSamples) \<and>
    (\<forall>p \<in> set (ob_written s). length p \<le> maxPacketBytes)"
proof -
  have run: "writeOutboundLoop env report err chunks (pump_start (enc, 0) m) = s"
    using assms(2,4) by (simp add: writeOutbound_def)
  have "ob_exit (pump_start (enc, 0 :: nat) m) = None" "length (ob_buf (pump_start (enc, 0 :: nat) m)) < frameSamples"
    by (simp_all add: pump_start_def frameSamples_def)
  note frames = pump_run[OF pump_ok_start this run]
  let ?fs = "zip (map lives [0 ..< length (ob_frames s)]) (ob_frames s)"
  let ?outs = "packets (library_stream lib (en_applied enc) (en_e enc) ?fs)"
  note lib = encode_stream_library[OF assms(1) new_codecs_ok(1)[OF assms(2)], of ?fs]
  have "written_ok env (enc, 0) (pump_start (enc, 0) m)" by (simp add: written_ok_def pump_start_def)
  from pump_written[OF this, of report err chunks] have "written_ok env (enc, 0) s" by (simp add: run)
  then have w: "ob_written s = ?outs \<or> ob_exit s = Some ''write_sample'' \<and> ob_written s = butlast ?outs"
    using lib by (auto simp: written_ok_def assms(3) encoded_codec Let_def)
  have "p \<in> set ?outs \<Longrightarrow> length p \<le> maxPacketBytes" for p
    using lib by (auto simp: packets_def map_filter_def)
  then have small: "\<forall>p \<in> set (ob_written s). length p \<le> maxPacketBytes" using w by (metis in_set_butlastD)
  from frames obtain rest where "concat chunks = concat (ob_frames s) @ ob_buf s @ rest"
    "ob_exit s = Some ''recv'' \<longrightarrow> rest = [] \<and> length (ob_buf s) < frameSamples" "pump_ok m s"
    by (auto simp: pump_start_def)
  then show ?thesis using w small by (intro exI[of _ rest] exI[of _ ?outs]) (auto simp: pump_ok_def)
qed


definition demo_media_env :: "(nat encoder \<times> nat) outbound_env" where
  "demo_media_env =
     \<lparr>oe_encode = codec_encode demo_opus (\<lambda>k. SetEncoderComplexity 5), oe_write = (\<lambda>_. None), oe_now = (\<lambda>n. int n),
      oe_ctx = (\<lambda>_. False)\<rparr>"

theorem browser_hears_model_witness:
  "\<exists>s rest. writeOutbound (map_option (\<lambda>enc. (enc, 0)) (NewEncoder demo_opus (SetEncoderComplexity 5))) demo_media_env True
      ''EOF'' [replicate 1000 0] metrics_zero = Some s \<and>
    replicate 1000 0 = concat (ob_frames s) @ ob_buf s @ rest \<and> (\<forall>p \<in> set (ob_written s). length p \<le> maxPacketBytes)"
proof -
  obtain enc where enc: "NewEncoder demo_opus (SetEncoderComplexity 5) = Some enc"
    by (simp add: NewEncoder_def demo_opus_def)
  then obtain s where s: "writeOutbound (map_option (\<lambda>enc. (enc, 0)) (NewEncoder demo_opus (SetEncoderComplexity 5)))
      demo_media_env True ''EOF'' [replicate 1000 0] metrics_zero = Some s" by (simp add: writeOutbound_def)
  have "oe_encode demo_media_env = codec_encode demo_opus (\<lambda>k. SetEncoderComplexity 5)" by (simp add: demo_media_env_def)
  from browser_hears_model[OF demo_fits enc this s] s show ?thesis by auto
qed

subsection \<open>Up: what a provider hears\<close>

lemma decoded_codec:
  assumes "fits lib" and "decoder_ok dec"
  shows "decoded (codec_decode lib) dec pkts = decoded (ol_Decode lib) (de_d dec) pkts"
  using assms(2)
proof (induction pkts arbitrary: dec)
  case (Cons p pkts)
  obtain n dec' where n: "Decode lib dec p = (n, dec')" by fastforce
  obtain r d' where r: "ol_Decode lib (de_d dec) p = (r, d')" by fastforce
  have d': "de_d dec' = d'" "n = map_option length r" using n r by (auto simp: Decode_def split: option.splits)
  have ok: "decoder_ok dec'" using Decode_ok[OF assms(1) Cons.prems, of p] n by simp
  have "map_option (\<lambda>n. pcm_slice n dec') n = r"
    using decoder_slice[OF assms(1) Cons.prems, of p _ dec'] n r d'(2) by (cases r) auto
  then show ?case using Cons.IH[OF ok] n r d'(1) by (auto simp: codec_decode_def split: option.split)
qed simp

text \<open>Decoded chunks are short, and every Opus frame size at 48 kHz is a multiple of three.\<close>

definition opus_sizes :: "('e, 'd) opus_lib \<Rightarrow> bool" where
  "opus_sizes lib \<longleftrightarrow> (\<forall>d x pcm. fst (ol_Decode lib d x) = Some pcm \<longrightarrow> 3 dvd length pcm)"

lemma decoded_sizes:
  assumes "fits lib" and "opus_sizes lib" and "c \<in> set (decoded (ol_Decode lib) d pkts)"
  shows "3 dvd length c \<and> length c \<le> maxFrameSamples"
  using assms(3)
proof (induction pkts arbitrary: d)
  case (Cons p pkts)
  obtain r d' where r: "ol_Decode lib d p = (r, d')" by fastforce
  show ?case
  proof (cases "r = Some c")
    case True
    then have "fst (ol_Decode lib d p) = Some c" using r by simp
    then have "length c \<le> maxFrameSamples" "3 dvd length c" using assms(1,2) unfolding fits_def opus_sizes_def by blast+
    then show ?thesis by simp
  next
    case False
    then show ?thesis using Cons r by (auto split: option.splits)
  qed
qed simp

text \<open>Every third sample, and that it may be taken chunk by chunk.\<close>

definition thirds :: "i16 list \<Rightarrow> i16 list" where
  "thirds xs = map (\<lambda>i. xs ! (3 * i)) [0 ..< length xs div 3]"

lemma thirds_append:
  assumes "3 dvd length xs"
  shows "thirds (xs @ ys) = thirds xs @ thirds ys"
proof -
  obtain k where k: "length xs = 3 * k" using assms by (auto elim: dvdE)
  then have "[0 ..< length (xs @ ys) div 3] = [0 ..< k] @ map (\<lambda>i. i + k) [0 ..< length ys div 3]"
    using upt_add_eq_append[of 0 k "length ys div 3"] by (simp add: map_add_upt add.commute)
  then show ?thesis using k by (simp add: thirds_def nth_append algebra_simps)
qed

lemma thirds_concat: "\<forall>c \<in> set cs. 3 dvd length c \<Longrightarrow> concat (map thirds cs) = thirds (concat cs)"
  by (induction cs) (simp_all add: thirds_append, simp add: thirds_def)

lemma resample_thirds: "length c < 2 ^ 50 \<Longrightarrow> ResampleLinear c 48000 16000 = Some (thirds c)"
  using decimate_48k_16k[of c "[]"] by (simp add: thirds_def)

lemma FromBytes_ToBytes: "FromBytes (ToBytes xs) = xs"
  by (simp add: FromBytes_def ToBytes_def le16.dec_all_enc)

lemma length_ToBytes: "length (ToBytes xs) = 2 * length xs"
  by (simp add: ToBytes_def le16.length_enc_all)

text \<open>What the microphone delivers to the model: a prefix of what libopus decodes.\<close>

definition mic :: "('e, 'd) opus_lib \<Rightarrow> (nat \<Rightarrow> bool) \<Rightarrow> bytes list \<Rightarrow> i16 list list" where
  "mic lib takes pkts = readInbound (NewDecoder lib) (codec_decode lib) takes pkts"

lemma mic_decoded:
  assumes "fits lib" and "ol_NewDecoder lib = Some d"
  shows "\<exists>rest. decoded (ol_Decode lib) d (filter (\<lambda>p. p \<noteq> []) pkts) = mic lib takes pkts @ rest"
    and "(\<And>k. takes k) \<Longrightarrow> mic lib takes pkts = decoded (ol_Decode lib) d (filter (\<lambda>p. p \<noteq> []) pkts)"
proof -
  obtain dec where dec: "NewDecoder lib = Some dec" "de_d dec = d"
    using assms(2) by (auto simp: NewDecoder_def)
  note lib = decoded_codec[OF assms(1) new_codecs_ok(2)[OF dec(1)], unfolded dec(2)]
  show "\<exists>rest. decoded (ol_Decode lib) d (filter (\<lambda>p. p \<noteq> []) pkts) = mic lib takes pkts @ rest"
    using inbound_prefix[of "codec_decode lib" dec pkts takes 0] by (simp add: mic_def readInbound_def dec lib)
  show "(\<And>k. takes k) \<Longrightarrow> mic lib takes pkts = decoded (ol_Decode lib) d (filter (\<lambda>p. p \<noteq> []) pkts)"
    using inbound_exact[of takes "codec_decode lib" dec pkts 0] by (simp add: mic_def readInbound_def dec lib)
qed

lemma mic_sizes:
  assumes "fits lib" and "opus_sizes lib" and "ol_NewDecoder lib = Some d" and "c \<in> set (mic lib takes pkts)"
  shows "3 dvd length c \<and> length c \<le> maxFrameSamples"
proof -
  obtain rest where "decoded (ol_Decode lib) d (filter (\<lambda>p. p \<noteq> []) pkts) = mic lib takes pkts @ rest"
    using mic_decoded(1)[OF assms(1,3)] by blast
  then have "c \<in> set (decoded (ol_Decode lib) d (filter (\<lambda>p. p \<noteq> []) pkts))" using assms(4) by simp
  then show ?thesis by (rule decoded_sizes[OF assms(1,2)])
qed


text \<open>
  What the bridge relies on when it hands a chunk to a model: a frame is built, and the server at the
  other end reads every third sample of the chunk out of it.
\<close>

locale uplink =
  fixes send :: "i16 list \<Rightarrow> 'f option" and hears :: "'f \<Rightarrow> i16 list"
  assumes heard: "length c \<le> maxFrameSamples \<Longrightarrow> \<exists>f. send c = Some f \<and> hears f = thirds c"
begin

lemma whole:
  assumes "\<forall>c \<in> set cs. 3 dvd length c \<and> length c \<le> maxFrameSamples"
  shows "\<exists>frames. those (map send cs) = Some frames \<and> concat (map hears frames) = thirds (concat cs)"
  using assms
proof (induction cs)
  case Nil
  then show ?case by (simp add: thirds_def)
next
  case (Cons c cs)
  then obtain f frames where "send c = Some f" "hears f = thirds c" "those (map send cs) = Some frames"
    "concat (map hears frames) = thirds (concat cs)" using heard[of c] by auto
  then show ?case using Cons.prems by (simp add: thirds_append)
qed

end

text \<open>The microphone of a session through such a model.\<close>

lemma mic_heard:
  assumes "uplink send hears" and "fits lib" and "opus_sizes lib" and "ol_NewDecoder lib = Some d"
  shows "\<exists>frames rest. those (map send (mic lib takes pkts)) = Some frames \<and>
    concat (decoded (ol_Decode lib) d (filter (\<lambda>p. p \<noteq> []) pkts)) = concat (mic lib takes pkts) @ rest \<and>
    concat (map hears frames) = thirds (concat (mic lib takes pkts)) \<and> ((\<forall>k. takes k) \<longrightarrow> rest = [])"
proof -
  have "\<forall>c \<in> set (mic lib takes pkts). 3 dvd length c \<and> length c \<le> maxFrameSamples"
    using mic_sizes[OF assms(2-4)] by blast
  from uplink.whole[OF assms(1) this] obtain frames where "those (map send (mic lib takes pkts)) = Some frames"
    "concat (map hears frames) = thirds (concat (mic lib takes pkts))" by blast
  moreover obtain rest where rest: "decoded (ol_Decode lib) d (filter (\<lambda>p. p \<noteq> []) pkts) = mic lib takes pkts @ rest"
    using mic_decoded(1)[OF assms(2,4)] by blast
  moreover have "(\<forall>k. takes k) \<longrightarrow> rest = []" using mic_decoded(2)[OF assms(2,4), of takes pkts] rest by simp
  ultimately show ?thesis by (intro exI[of _ frames] exI[of _ "concat rest"]) simp
qed

subsection \<open>The three servers\<close>

text \<open>Whisper's server reads the samples of a binary message.\<close>

interpretation whisper_up: uplink whisper_Write FromBytes
proof
  fix c :: "i16 list"
  assume "length c \<le> maxFrameSamples"
  then show "\<exists>f. whisper_Write c = Some f \<and> FromBytes f = thirds c"
    using resample_thirds[of c] by (simp add: whisper_Write_def whisperRate_def maxFrameSamples_def FromBytes_ToBytes)
qed

text \<open>Gemini's server reads the base64 text of the message.\<close>

fun gemini_hears :: "json \<Rightarrow> i16 list" where
  "gemini_hears (JObj [(r, JObj [(a, JObj [(m, JStr mime), (d, JStr data)])])]) =
     (case b64_decode data of None \<Rightarrow> [] | Some bs \<Rightarrow> FromBytes (map u8_of_char bs))"
| "gemini_hears _ = []"

lemma u8_back: "u8_of_char (char_of_u8 w) = w"
proof -
  have "unat w < 256" using unsigned_less[of w] by simp
  moreover have "(of_char (char_of (unat w) :: char) :: u8) = of_nat (of_char (char_of (unat w) :: char))"
    by (simp only: of_nat_of_char)
  ultimately show ?thesis by (simp add: u8_of_char_def char_of_u8_def)
qed

interpretation gemini_up: uplink gemini_SendAudio gemini_hears
proof
  fix c :: "i16 list"
  assume "length c \<le> maxFrameSamples"
  then show "\<exists>f. gemini_SendAudio c = Some f \<and> gemini_hears f = thirds c"
    using resample_thirds[of c]
    by (simp add: gemini_SendAudio_def realtime_input_def gemini_blob_def OpusRate_def geminiInRate_def maxFrameSamples_def b64_decode_encode comp_def u8_back
        FromBytes_ToBytes)
qed

text \<open>Doubao's server decompresses the payload of a frame of the task-request event.\<close>

definition doubao_hears :: "(bytes \<Rightarrow> bytes) \<Rightarrow> bytes \<Rightarrow> i16 list" where
  "doubao_hears gunzip frame =
     (case dbParseFrame frame of
        Parsed f \<Rightarrow> (if fr_event f = dbEvTaskRequest then FromBytes (gunzip (fr_payload f)) else [])
      | _ \<Rightarrow> [])"

lemma SendAudio_thirds:
  assumes "length c \<le> maxFrameSamples"
  shows "Doubao_SendAudio gzip sid c =
    Some (writeFrame dbMsgAudioClient dbSerialRaw dbEvTaskRequest (gzip (ToBytes (thirds c))) sid)"
  using resample_thirds[of c] assms by (simp add: Doubao_SendAudio_def OpusRate_def doubaoInRate_def maxFrameSamples_def)

lemma hears_frame:
  assumes "\<And>b. gunzip (gzip b) = b" and "length (gzip (ToBytes xs)) < 2 ^ 32" and "sid \<noteq> ''''" and "length sid < 2 ^ 32"
  shows "doubao_hears gunzip (writeFrame dbMsgAudioClient dbSerialRaw dbEvTaskRequest (gzip (ToBytes xs)) sid) = xs"
proof -
  have "dbMsgAudioClient < 16" "dbMsgAudioClient \<noteq> dbMsgError" "dbSerialRaw < 16" "dbCompressGzip < 16"
    by (simp_all add: db_consts)
  note frame = parse_build[OF this assms(4) assms(2), of dbEvTaskRequest]
  then show ?thesis using assms(3) by (simp add: doubao_hears_def writeFrame_def assms(1) FromBytes_ToBytes)
qed

lemma doubao_up:
  assumes "\<And>b. gunzip (gzip b) = b" and "\<And>b. length b < 2 ^ 20 \<Longrightarrow> length (gzip b) < 2 ^ 32" and "sid \<noteq> ''''"
    and "length sid < 2 ^ 32"
  shows "uplink (Doubao_SendAudio gzip sid) (doubao_hears gunzip)"
proof
  fix c :: "i16 list"
  assume c: "length c \<le> maxFrameSamples"
  have "length c div 3 \<le> length c" by (rule div_le_dividend)
  also have "\<dots> \<le> 2880" using c by (simp add: maxFrameSamples_def)
  finally have "length (ToBytes (thirds c)) < 2 ^ 20" by (simp add: length_ToBytes thirds_def)
  from hears_frame[OF assms(1) assms(2)[OF this] assms(3,4)]
  show "\<exists>f. Doubao_SendAudio gzip sid c = Some f \<and> doubao_hears gunzip f = thirds c"
    by (simp add: SendAudio_thirds[OF c])
qed

text \<open>
  C7: The provider hears the microphone.  Whatever packets the browser sends, and whenever the session
  stops taking audio, no frame fails to build, and what the server reads out of the frames it is sent,
  put together, is every third sample of what libopus decodes from the browser's packets that are
  not empty, up to where the session stopped: no sample is lost or repeated at a border between
  chunks, and nothing of the decoder's reused buffer shows.  This holds for Gemini, for Doubao and for
  the recogniser of the cascade.
\<close>

theorem provider_hears_microphone:
  fixes takes :: "nat \<Rightarrow> bool" and pkts :: "bytes list" and lib :: "('e, 'd) opus_lib"
  assumes "fits lib" and "opus_sizes lib" and "ol_NewDecoder lib = Some d"
    and "\<And>b. gunzip (gzip b) = b" and "\<And>b. length b < 2 ^ 20 \<Longrightarrow> length (gzip b) < 2 ^ 32"
    and "sid \<noteq> ''''" and "length sid < 2 ^ 32"
  defines "heard \<equiv> thirds (concat (mic lib takes pkts))"
  shows "(\<exists>rest. concat (decoded (ol_Decode lib) d (filter (\<lambda>p. p \<noteq> []) pkts)) = concat (mic lib takes pkts) @ rest \<and>
      ((\<forall>k. takes k) \<longrightarrow> rest = [])) \<and>
    (\<exists>ms. those (map gemini_SendAudio (mic lib takes pkts)) = Some ms \<and> concat (map gemini_hears ms) = heard) \<and>
    (\<exists>fs. those (map (Doubao_SendAudio gzip sid) (mic lib takes pkts)) = Some fs \<and>
      concat (map (doubao_hears gunzip) fs) = heard) \<and>
    (\<exists>ws. those (map (cascade_SendAudio whisper_Write) (mic lib takes pkts)) = Some ws \<and> concat (map FromBytes ws) = heard)"
  using mic_heard[OF gemini_up.uplink_axioms assms(1-3), of takes pkts]
    mic_heard[OF doubao_up[OF assms(4-7)] assms(1-3), of takes pkts]
    mic_heard[OF whisper_up.uplink_axioms assms(1-3), of takes pkts]
  unfolding heard_def cascade_SendAudio_def[abs_def] by blast

lemma demo_sizes: "opus_sizes demo_opus"
  by (auto simp: opus_sizes_def demo_opus_def split: if_splits)

theorem provider_hears_microphone_witness:
  "\<exists>fs. those (map (Doubao_SendAudio id ''s'') (mic demo_opus (\<lambda>_. True) [[1], [], [2]])) = Some fs \<and>
    concat (map (doubao_hears id) fs) = thirds (replicate 960 1 @ replicate 960 1)"
proof -
  have "ol_NewDecoder demo_opus = Some 0" by (simp add: demo_opus_def)
  note d = provider_hears_microphone[OF demo_fits demo_sizes this, where gunzip = id and gzip = id and sid = "''s''"
      and takes = "\<lambda>_. True" and pkts = "[[1], [], [2]]"]
  have "concat (decoded (ol_Decode demo_opus) 0 (filter (\<lambda>p. p \<noteq> []) [[1], [], [2]])) = replicate 960 1 @ replicate 960 1"
    by (simp add: demo_opus_def)
  with d show ?thesis by auto
qed

subsection \<open>Interruptions the bridge polls for\<close>

text \<open>
  The bridge starts its monitor for the cascade, which says that it supports interruption, and never
  finds one to handle; for the loopback it starts none.
\<close>

lemma monitor_of_cascade: "monitorInterruption (replicate n cascade_RecvInterrupted) = 0"
  by (induction n) (simp_all add: cascade_RecvInterrupted_def)

lemma monitors_started:
  "mt_interrupter m \<Longrightarrow> mt_supportsInterruption m = cascade_SupportsInterruption \<Longrightarrow> cp_Interrupter (Resolve m)"
  "mt_supportsInterruption m = loopback_SupportsInterruption \<Longrightarrow> \<not> cp_Interrupter (Resolve m)"
  by (simp_all add: Resolve_def cascade_SupportsInterruption_def loopback_SupportsInterruption_def)

end
