(* ===== verification/Outage.thy ===== *)
theory Outage
  imports Proxyprocess
begin

text \<open>
  The process during the outage of a provider: the failed dials of its requests (theory Intake) drive the
  provider's breaker (theory Breaker), and the breaker keeps the later requests away from the provider.
\<close>

subsection \<open>What an offer tells the guard\<close>

lemma offer_events:
  assumes "ServeOffer it env req w = (r, w')"
  shows "\<exists>evs. wd_guard w' = run guard_step (wd_guard w) evs \<and>
    (\<forall>e \<in> set evs. ParseProvider (rq_Model req) = Inr (event_provider e) \<and>
       (\<forall>q t. e = EvAllow q t \<longrightarrow> t = en_now env) \<and> (\<forall>q st pr err t. e \<noteq> EvStream q st pr err t)) \<and>
    (\<forall>p. ir_Status r = 502 \<and> ParseProvider (rq_Model req) = Inr p \<longrightarrow>
       evs = [EvAllow p (en_now env), EvRecord p (Some (ir_Body r)) (en_now env)])"
  using assms
proof (cases rule: ServeOffer_cases)
  case (circuit provider d)
  then show ?thesis by (intro exI[of _ "[EvAllow provider (en_now env)]"]) (simp add: circuitReject_def Let_def)
next
  case (protocol provider headers d msg obs)
  then show ?thesis by (intro exI[of _ "[EvAllow provider (en_now env)]"]) (simp add: replayProtocolReject_def)
next
  case (dial provider headers d guard replay obs e)
  then show ?thesis
    by (intro exI[of _ "[EvAllow provider (en_now env), EvRecord provider (Some e) (en_now env)]"]) simp
next
  case (served provider headers d guard replay obs hub m x effects)
  then show ?thesis
    by (intro exI[of _ "[EvAllow provider (en_now env), EvRecord provider None (en_now env)]"]) (simp split: sum.splits)
qed (auto intro: exI[of _ "[]"])

text \<open>A rejected offer does not depend on what a dial would give.\<close>

lemma rejected_offer:
  assumes "ParseProvider (rq_Model req) = Inr p" and "AllowDial (wd_guard w) p (en_now env) = (d, g)" and "\<not> dec_Allowed d"
    and "ServeOffer it env req w = (r, w')"
  shows "(ir_Status r = 400 \<or> ir_Status r = 429 \<or> r = circuitReject d) \<and>
    ServeOffer it (env\<lparr>en_dial := dial\<rparr>) req w = (r, w')"
proof -
  obtain ok lerr redis where l: "Limiter_Allow (it_Limiter it) (en_redisFailure env) (rq_ClientIP req) (wd_redis w)
      = ((ok, lerr), redis)" by (metis surj_pair)
  show ?thesis using assms(4)
    by (cases ok; cases "offer_headers req") (auto simp: ServeOffer_def l assms(1-3) replayProtocolReject_def)
qed

subsection \<open>The circuit of a provider in the process\<close>

definition circuit_at :: "string \<Rightarrow> cb_config \<Rightarrow> circuit \<Rightarrow> 'r world \<Rightarrow> bool" where
  "circuit_at p c k w \<longleftrightarrow>
     (\<exists>m. wd_guard w = Some m \<and> bk_cfg (breaker_of m p) = c \<and> circuit_of (breaker_of m p) = k)"

lemma run_cfg: "bk_cfg (run breaker_event b es) = bk_cfg b"
  by (induction es arbitrary: b) simp_all

lemma circuit_at_run:
  assumes "circuit_at p c k w" and "wd_guard w' = run guard_step (wd_guard w) evs"
  shows "circuit_at p c (run (circuit_event c) k (filter (\<lambda>e. event_provider e = p \<and> \<not> ignored e) evs)) w'"
proof -
  obtain m where m: "wd_guard w = Some m" "bk_cfg (breaker_of m p) = c" "circuit_of (breaker_of m p) = k"
    using assms(1) by (auto simp: circuit_at_def)
  obtain m' where m': "run guard_step (Some m) evs = Some m'" using run_is_Some by blast
  have "breaker_of m' p = run breaker_event (breaker_of m p) (filter (\<lambda>e. event_provider e = p \<and> \<not> ignored e) evs)"
    using breaker_of_run[of m evs p] by (simp add: m')
  then show ?thesis using m m' assms(2) by (simp add: circuit_at_def run_cfg circuit_of_run)
qed

lemma circuit_at_start: "newModelBreakers True args = Some m \<Longrightarrow> circuit_of (breaker_of m p) = Closed 0 0"
  by (auto simp: newModelBreakers_def Manager_New_def breaker_of_def new_breaker_def circuit_of_def Let_def split: option.splits)

definition provider_limits :: "run_config \<Rightarrow> string \<Rightarrow> cb_config" where
  "provider_limits cfg p = bk_cfg (breaker_of (the (newModelBreakers True (rc_ModelCB cfg))) p)"

lemma process_start_circuit:
  assumes "runProxy os cfg = Inr px" and "rc_ModelCBEnable cfg"
  shows "circuit_at p (provider_limits cfg p) (Closed 0 0) (px_world px)"
proof -
  obtain m where m: "newModelBreakers True (rc_ModelCB cfg) = Some m" by (simp add: newModelBreakers_def)
  then show ?thesis using runProxy_parts[OF assms(1)] assms(2) circuit_at_start[OF m]
    by (simp add: circuit_at_def provider_limits_def)
qed

subsection \<open>Requests for a provider\<close>

type_synonym proxy_request = "string \<times> offer_env \<times> http_request"

definition proxy_serve :: "'r proxy \<Rightarrow> 'r world \<Rightarrow> proxy_request \<Rightarrow> proxy_answer \<times> 'r world" where
  "proxy_serve px w q = (case q of (path, env, r) \<Rightarrow> proxy_route px path env r w)"

definition asked_at :: "proxy_request \<Rightarrow> time" where
  "asked_at q = (case q of (path, env, r) \<Rightarrow> en_now env)"

definition asks :: "string \<Rightarrow> proxy_request \<Rightarrow> bool" where
  "asks p q = (case q of (path, env, r) \<Rightarrow>
     cleanPath path = path \<and> \<not> has_prefix path ''/demo/'' \<and> path \<noteq> ''/demo'' \<and> hq_Method r = ''POST'' \<and> (\<exists>body. hq_Body r = Inr body) \<and>
     ParseProvider (hq_model r) = Inr p)"

text \<open>A dial that failed for another reason than the credentials.\<close>

definition dial_failed :: "proxy_answer \<Rightarrow> bool" where
  "dial_failed a = (\<exists>h e. a = Offered (Errored h e 502) \<and> classify e \<noteq> ''auth'')"


definition limited_or_refused :: "time \<Rightarrow> proxy_answer \<Rightarrow> bool" where
  "limited_or_refused left a =
     (\<exists>h e status. a = Offered (Errored h e status) \<and>
       (status = 400 \<or> status = 429 \<or>
        status = 503 \<and> (''Retry-After'', format_int (if left div second \<le> 0 then 1 else left div second)) \<in> set h))"

text \<open>Every answer is either no offer, and nothing has changed, or comes from \<open>ServeOffer\<close>.\<close>

lemma proxy_serve_cases:
  assumes "proxy_serve px w (path, env, r) = (a, w')"
  obtains (none) "w' = w" "\<not> dial_failed a" "\<And>p. \<not> asks p (path, env, r)"
  | (offer) req res where "rq_Model req = hq_model r" "\<And>p. asks p (path, env, r) \<longleftrightarrow> ParseProvider (hq_model r) = Inr p" "ServeOffer (hd_intake (px_handler px)) env req w = (res, w')"
      "a = Offered (writeIntakeResult res)"
      "\<And>dial. fst (ServeOffer (hd_intake (px_handler px)) (env\<lparr>en_dial := dial\<rparr>) req w) = res \<Longrightarrow>
        snd (ServeOffer (hd_intake (px_handler px)) (env\<lparr>en_dial := dial\<rparr>) req w) = w' \<Longrightarrow>
        proxy_serve px w (path, env\<lparr>en_dial := dial\<rparr>, r) = (a, w')"
proof (cases "cleanPath path \<noteq> path \<or> has_prefix path ''/demo/'' \<or> path = ''/demo'' \<or> hq_Method r \<noteq> ''POST'' \<or> (\<exists>e. hq_Body r = Inl e)")
  case True
  then show ?thesis using assms none
    by (auto simp: proxy_serve_def proxy_route_def ServeHTTP_def dial_failed_def asks_def Let_def split: if_splits)
next
  case False
  then obtain body where body: "hq_Body r = Inr body" by (cases "hq_Body r") auto
  show ?thesis
    by (rule offer[OF _ _ _ _, rotated 1])
      (use assms False body in \<open>auto simp: asks_def proxy_serve_def proxy_route_def ServeHTTP_def split_beta Let_def split: if_splits prod.splits\<close>)
qed

lemma failed_status: "dial_failed (Offered (writeIntakeResult res)) \<Longrightarrow> ir_Status res = 502 \<and> classify (ir_Body res) \<noteq> ''auth''"
  by (auto simp: dial_failed_def writeIntakeResult_def Let_def split: if_splits)


subsection \<open>One request\<close>

lemma request_other:
  assumes "proxy_serve px w q = (a, w')" and "\<not> asks p q" and "circuit_at p c k w"
  shows "circuit_at p c k w'"
proof -
  obtain path env r where q: "q = (path, env, r)" by (cases q)
  from assms(1)[unfolded q] show ?thesis
  proof (cases rule: proxy_serve_cases)
    case (offer req res)
    from offer_events[OF offer(3)] obtain evs where evs: "wd_guard w' = run guard_step (wd_guard w) evs"
      "\<forall>e \<in> set evs. ParseProvider (rq_Model req) = Inr (event_provider e)" by blast
    have "ParseProvider (rq_Model req) \<noteq> Inr p" using assms(2) offer(1,2) by (simp add: q)
    then have "filter (\<lambda>e. event_provider e = p \<and> \<not> ignored e) evs = []" using evs(2) by (auto simp: filter_empty_conv)
    then show ?thesis using circuit_at_run[OF assms(3) evs(1)] by simp
  qed (use assms(3) in simp)
qed

lemma request_failed:
  assumes "proxy_serve px w q = (a, w')" and "asks p q" and "p \<noteq> ''loopback''" and "dial_failed a"
    and "circuit_at p c (Closed n s) w"
  shows "circuit_at p c (if n + 1 < OpenAfter c then Closed (n + 1) s else Open (asked_at q + OpenFor c)) w'"
proof -
  obtain path env r where q: "q = (path, env, r)" by (cases q)
  from assms(1)[unfolded q] show ?thesis
  proof (cases rule: proxy_serve_cases)
    case (offer req res)
    note f = failed_status[OF assms(4)[unfolded offer(4)]]
    have p: "ParseProvider (rq_Model req) = Inr p" using assms(2) offer(1,2) by (simp add: q)
    from offer_events[OF offer(3)] p f have
      "wd_guard w' = run guard_step (wd_guard w) [EvAllow p (en_now env), EvRecord p (Some (ir_Body res)) (en_now env)]"
      by auto
    from circuit_at_run[OF assms(5) this] show ?thesis using assms(3) f by (auto simp: q asked_at_def)
  qed (use assms(2) q in blast)
qed

lemma request_open:
  assumes "proxy_serve px w q = (a, w')" and "asked_at q < u" and "circuit_at p c (Open u) w"
  shows "circuit_at p c (Open u) w'"
proof -
  obtain path env r where q: "q = (path, env, r)" by (cases q)
  from assms(1)[unfolded q] show ?thesis
  proof (cases rule: proxy_serve_cases)
    case (offer req res)
    from offer_events[OF offer(3)] obtain evs where evs: "wd_guard w' = run guard_step (wd_guard w) evs"
      "\<forall>e \<in> set evs. \<forall>q t. e = EvAllow q t \<longrightarrow> t = en_now env" by blast
    have "run (circuit_event c) (Open u) (filter (\<lambda>e. event_provider e = p \<and> \<not> ignored e) evs) = Open u"
      by (rule run_open) (use evs(2) assms(2) in \<open>auto simp: q asked_at_def\<close>)
    then show ?thesis using circuit_at_run[OF assms(3) evs(1)] by simp
  qed (use assms(3) in simp)
qed

lemma open_refuses:
  assumes "circuit_at p c (Open u) w" and "p \<noteq> ''loopback''" and "now < u"
  shows "\<exists>d g. AllowDial (wd_guard w) p now = (d, g) \<and> \<not> dec_Allowed d \<and> dec_RetryAfter d = u - now"
proof -
  obtain m where m: "wd_guard w = Some m" "circuit_of (breaker_of m p) = Open u"
    using assms(1) by (auto simp: circuit_at_def)
  then have b: "bk_state (breaker_of m p) = StateOpen" "bk_openUntil (breaker_of m p) = u"
    by (auto simp: circuit_of_def split: cb_state.splits)
  obtain d g where d: "AllowDial (wd_guard w) p now = (d, g)" by fastforce
  then have "d = fst (breaker_allow (breaker_of m p) now)" using AllowDial_decision[OF assms(2), of m now] by (simp add: m)
  then show ?thesis using b assms(3) d by (auto simp: breaker_allow_def)
qed

lemma request_refused:
  assumes "proxy_serve px w (path, env, r) = (a, w')" and "asks p (path, env, r)" and "p \<noteq> ''loopback''"
    and "en_now env < u" and "circuit_at p c (Open u) w"
  shows "limited_or_refused (u - en_now env) a \<and> proxy_serve px w (path, env\<lparr>en_dial := dial\<rparr>, r) = (a, w')"
proof -
  obtain d g where d: "AllowDial (wd_guard w) p (en_now env) = (d, g)" "\<not> dec_Allowed d" "dec_RetryAfter d = u - en_now env"
    using open_refuses[OF assms(5,3,4)] by blast
  from assms(1) show ?thesis
  proof (cases rule: proxy_serve_cases)
    case (offer req res)
    have p: "ParseProvider (rq_Model req) = Inr p" using assms(2) offer(1,2) by simp
    note ref = rejected_offer[OF p d(1,2) offer(3)]
    have "ir_Status res = 400 \<or> ir_Status res = 429 \<or> res = circuitReject d" using ref[of undefined] by simp
    then have "limited_or_refused (u - en_now env) (Offered (writeIntakeResult res))"
      using assms(4) d(3) by (auto simp: limited_or_refused_def writeIntakeResult_def circuitReject_def Let_def)
    then show ?thesis using offer(4,5) ref[of dial] by auto
  qed (use assms(2) in blast)
qed


subsection \<open>The outage\<close>

definition failed_dials :: "string \<Rightarrow> proxy_request list \<Rightarrow> proxy_answer list \<Rightarrow> bool" where
  "failed_dials p qs as \<longleftrightarrow> list_all2 (\<lambda>q a. asks p q \<longrightarrow> dial_failed a) qs as"

lemma count_failures:
  assumes "collect (proxy_serve px) w qs = (as, w')" and "failed_dials p qs as" and "p \<noteq> ''loopback''"
    and "circuit_at p c (Closed n s) w" and "n + int (length (filter (asks p) qs)) < OpenAfter c"
  shows "circuit_at p c (Closed (n + int (length (filter (asks p) qs))) s) w'"
  using assms(1,2,4,5)
proof (induction qs arbitrary: w n as)
  case (Cons q qs)
  obtain a w1 where a: "proxy_serve px w q = (a, w1)" by fastforce
  obtain as1 where as1: "collect (proxy_serve px) w1 qs = (as1, w')" "as = a # as1"
    using Cons.prems(1) a by (cases "collect (proxy_serve px) w1 qs") (auto simp: Let_def)
  have f: "failed_dials p qs as1" "asks p q \<longrightarrow> dial_failed a" using Cons.prems(2) as1(2) by (simp_all add: failed_dials_def)
  show ?case
  proof (cases "asks p q")
    case True
    then have "circuit_at p c (Closed (n + 1) s) w1"
      using request_failed[OF a True assms(3) _ Cons.prems(3)] f(2) Cons.prems(4) by simp
    from Cons.IH[OF as1(1) f(1) this] Cons.prems(4) True show ?thesis by (simp add: add.assoc)
  next
    case False
    from Cons.IH[OF as1(1) f(1) request_other[OF a False Cons.prems(3)]] Cons.prems(4) False show ?thesis by simp
  qed
qed simp

text \<open>Nothing that happens in the process before the time of the circuit is over closes it.\<close>

lemma outage_lasts:
  assumes "run (proxy_step px) (Some w) es = Some w'" and "circuit_at p c (Open u) w"
    and "\<forall>path env r. Request path env r \<in> set es \<longrightarrow> en_now env < u"
  shows "circuit_at p c (Open u) w'"
  using assms
proof (induction es arbitrary: w)
  case (Cons e es)
  have dead: "run (proxy_step px) None es = None" by (induction es) simp_all
  then obtain w1 where w1: "proxy_step px (Some w) e = Some w1" using Cons.prems(1) by (cases "proxy_step px (Some w) e") auto
  have "circuit_at p c (Open u) w1"
  proof (cases e)
    case (Request path env r)
    have "proxy_serve px w (path, env, r) = (fst (proxy_route px path env r w), w1)"
      using w1 by (simp add: Request proxy_serve_def prod_eq_iff)
    then show ?thesis using request_open[OF _ _ Cons.prems(2)] Cons.prems(3) Request by (simp add: asked_at_def)
  next
    case (StreamFault q start produced err now)
    then have "wd_guard w1 = run guard_step (wd_guard w) [EvStream q start produced err now]" using w1 by auto
    from circuit_at_run[OF Cons.prems(2) this] show ?thesis by (auto split: if_splits)
  qed (use w1 Cons.prems(2) in \<open>auto simp: circuit_at_def\<close>)
  moreover have "run (proxy_step px) (Some w1) es = Some w'" using Cons.prems(1) w1 by simp
  moreover have "\<forall>path env r. Request path env r \<in> set es \<longrightarrow> en_now env < u"
    using Cons.prems(3) by (metis list.set_intros(2))
  ultimately show ?case using Cons.IH by blast
qed simp

text \<open>
  C3: An outage stops the dialling.  The proxy has started with its breakers on, and the requests for a
  provider other than the loopback (which the breakers ignore), among those for others, fail at the dial
  for other reasons than the credentials, as many of them as the threshold of that provider says.  Then, whatever requests, sessions, stream faults and
  telemetry follow in the open time after the last of these failures, a further request for the provider
  in that time is answered without the provider being asked (the answer does not depend on what a dial
  would give): it is malformed or over its rate, or it is refused with 503 and told after how many
  seconds to come back.
\<close>

theorem outage_stops_dialling:
  fixes qs :: "proxy_request list"
  assumes "runProxy os cfg = Inr px" and "rc_ModelCBEnable cfg" and "p \<noteq> ''loopback''"
    and "collect (proxy_serve px) (px_world px) (qs @ [q]) = (as, w)" and "failed_dials p (qs @ [q]) as" and "asks p q"
    and "int (length (filter (asks p) (qs @ [q]))) = OpenAfter (provider_limits cfg p)"
    and "run (proxy_step px) (Some w) es = Some w'" and "u = asked_at q + OpenFor (provider_limits cfg p)"
    and "\<forall>path env r. Request path env r \<in> set es \<longrightarrow> en_now env < u"
    and "asks p (path, env, r)" and "en_now env < u"
  shows "\<exists>a w''. limited_or_refused (u - en_now env) a \<and>
    (\<forall>dial. proxy_serve px w' (path, env\<lparr>en_dial := dial\<rparr>, r) = (a, w''))"
proof -
  let ?c = "provider_limits cfg p"
  obtain as1 w1 where one: "collect (proxy_serve px) (px_world px) qs = (as1, w1)" by fastforce
  obtain a w2 where two: "proxy_serve px w1 q = (a, w2)" by fastforce
  have as: "as = as1 @ [a]" "w = w2" using assms(4) one two by (simp_all add: collect_append Let_def)
  have "length as1 = length qs" using one by (metis length_collect fst_conv)
  then have f: "failed_dials p qs as1" "dial_failed a"
    using assms(5,6) by (simp_all add: failed_dials_def as(1) list_all2_append)
  have "circuit_at p ?c (Closed (int (length (filter (asks p) qs))) 0) w1"
    using count_failures[OF one f(1) assms(3) process_start_circuit[OF assms(1,2)]] assms(6,7) by simp
  from request_failed[OF two assms(6,3) f(2) this] have "circuit_at p ?c (Open u) w"
    using assms(6,7,9) by (simp add: as(2))
  from outage_lasts[OF assms(8) this assms(10)] have still: "circuit_at p ?c (Open u) w'" .
  obtain b w'' where "proxy_serve px w' (path, env, r) = (b, w'')" by fastforce
  from request_refused[OF this assms(11,3,12) still] show ?thesis by blast
qed

text \<open>A proxy whose breakers open at the first failure, and a client that wants Gemini.\<close>

definition demo_fragile :: run_config where
  "demo_fragile = flag_defaults\<lparr>rc_ModelCB := (rc_ModelCB flag_defaults)\<lparr>ba_Base := demo_config\<lparr>OpenAfter := 1\<rparr>\<rparr>\<rparr>"

definition demo_post :: http_request where
  "demo_post = \<lparr>hq_Method = ''POST'', hq_Body = Inr ''v=0'', hq_RemoteAddr = ''1.2.3.4:5'', hq_model = ''gemini'',
     hq_Header = (\<lambda>k. '''')\<rparr>"

lemma demo_limits: "OpenAfter (provider_limits demo_fragile ''gemini'') = 1" "OpenFor (provider_limits demo_fragile ''gemini'') = 30 * second"
  by (simp_all add: provider_limits_def demo_fragile_def newModelBreakers_def Manager_New_def breaker_of_def new_breaker_def
      merge_config_def Breaker.normalize_def demo_config_def flag_defaults_def cb_zero_def Let_def)

lemma demo_fragile_runs:
  "\<exists>px. runProxy demo_outside demo_fragile = Inr px \<and>
    px_handler px = Build \<lparr>lm_rdb = None, lm_max = 0, lm_window = 0\<rparr> None None None (proxy_replay demo_fragile)
      (proxy_factory demo_fragile) False \<and>
    px_world px = \<lparr>wd_guard = newModelBreakers True (rc_ModelCB demo_fragile), wd_hub = NewHub, wd_redis = 0,
      wd_metrics = metrics_zero\<rparr>"
  by (simp add: runProxy_def newPublisher_def newAdaptive_def hub_api_def demo_outside_def demo_fragile_def flag_defaults_def
      Limiter_New_def)

lemma demo_fails:
  assumes "px_handler px = Build \<lparr>lm_rdb = None, lm_max = 0, lm_window = 0\<rparr> None None None (proxy_replay demo_fragile)
      (proxy_factory demo_fragile) False"
    and "px_world px = \<lparr>wd_guard = newModelBreakers True (rc_ModelCB demo_fragile), wd_hub = NewHub, wd_redis = (0 :: nat),
      wd_metrics = metrics_zero\<rparr>"
  shows "dial_failed (fst (proxy_serve px (px_world px) (''/'', demo_offer_env (Some ''refused''), demo_post)))"
proof -
  have "classify ''refused'' \<noteq> ''auth''" by code_simp
  moreover have "ParseReplayHeaders '''' '''' '''' = Inr no_headers" using demo_headers by (simp add: demo_request_def)
  moreover have "dec_Allowed (fst (AllowDial (newModelBreakers True (rc_ModelCB demo_fragile)) ''gemini'' 100))"
    by (simp add: AllowDial_def Allow_def newModelBreakers_def skipped_def manager_get_eq split_beta Let_def Manager_New_def
        breaker_of_def new_breaker_def breaker_allow_def)
  ultimately show ?thesis
    by (simp add: assms proxy_serve_def proxy_route_def clean_path_examples ServeHTTP_def demo_post_def ServeOffer_def Build_def Limiter_Allow_def
        ParseProvider_def demo_offer_env_def Hub_ResolveReplay_def ResolveReplay_def no_headers_def split_beta Let_def
        dial_failed_def writeIntakeResult_def)
qed

theorem outage_stops_dialling_witness:
  "\<exists>px w a w''. runProxy demo_outside demo_fragile = Inr px \<and>
    limited_or_refused (30 * second - 1) a \<and>
    (\<forall>dial. proxy_serve px w (''/'', (demo_offer_env None)\<lparr>en_now := 101, en_dial := dial\<rparr>, demo_post) = (a, w''))"
proof -
  obtain px where px: "runProxy demo_outside demo_fragile = Inr px"
    and parts: "px_handler px = Build \<lparr>lm_rdb = None, lm_max = 0, lm_window = 0\<rparr> None None None (proxy_replay demo_fragile)
      (proxy_factory demo_fragile) False"
      "px_world px = \<lparr>wd_guard = newModelBreakers True (rc_ModelCB demo_fragile), wd_hub = NewHub, wd_redis = 0,
      wd_metrics = metrics_zero\<rparr>"
    using demo_fragile_runs by blast
  let ?q = "(''/'', demo_offer_env (Some ''refused''), demo_post)"
  let ?env = "(demo_offer_env None)\<lparr>en_now := 101\<rparr>"
  obtain b w where b: "proxy_serve px (px_world px) ?q = (b, w)" by fastforce
  then have c: "collect (proxy_serve px) (px_world px) ([] @ [?q]) = ([b], w)" by simp
  have asks: "asks ''gemini'' ?q" "asks ''gemini'' (''/'', ?env, demo_post)"
    by (simp_all add: asks_def demo_post_def ParseProvider_def clean_path_examples)
  have f: "failed_dials ''gemini'' ([] @ [?q]) [b]" using demo_fails[OF parts] b by (simp add: failed_dials_def)
  have "rc_ModelCBEnable demo_fragile" by (simp add: demo_fragile_def flag_defaults_def)
  moreover have "int (length (filter (asks ''gemini'') ([] @ [?q]))) = OpenAfter (provider_limits demo_fragile ''gemini'')"
    using asks by (simp add: demo_limits)
  moreover have u: "100 + 30 * second = asked_at ?q + OpenFor (provider_limits demo_fragile ''gemini'')"
    by (simp add: asked_at_def demo_offer_env_def demo_limits)
  moreover have "en_now ?env < 100 + 30 * second" by (simp add: second_def millisecond_def)
  ultimately obtain a w'' where a: "limited_or_refused (100 + 30 * second - en_now ?env) a"
    "\<forall>dial. proxy_serve px w (''/'', ?env\<lparr>en_dial := dial\<rparr>, demo_post) = (a, w'')"
    using outage_stops_dialling[OF px _ _ c f asks(1) _ _ u _ asks(2), of "[]" w] by auto
  then show ?thesis using px by (intro exI[of _ px] exI[of _ w] exI[of _ a] exI[of _ w'']) simp
qed

end
