(* ===== verification/Spec2Isabelle.thy ===== *)
theory Spec2Isabelle
  imports Breaker Transcript Sidechannel Replayindex Replayserver Recovery Bridge Closeall Proxyprocess Loadgen Model Hub Metrics Encoding Access Replay
    Intake Float64 Audio Codec Doubao Adapter Doubaosession Gemini Session Pumps Cascadetext Cascade Cascadelines Stages Stageloops Adaptive Proxyconfig
    Mediapath Outage
begin

text \<open>
  \<^bold>\<open>rt_llm_proxy: a real-time voice proxy\<close>

  The proxy takes WebRTC offers from browsers, opens a session with a speech model of a provider
  (Gemini, Doubao, a cascade of recogniser, language model and speech synthesis, or a loopback) and
  pumps audio and text between the two.  It records every transcript line, can hand lines to a
  side-channel, and lets a browser that lost its connection come back to its dialogue.  This library
  models the Go code under \<open>src/\<close> as HOL functions on explicit state, translated operation by
  operation, and proves what each part promises and what the parts promise together.

  \<^bold>\<open>Conventions.\<close>  A struct is a record, an enumeration a datatype, a call that may fail returns a
  sum or an option, and a panic is \<^const>\<open>None\<close> or a constructor of its own.  Fixed-width integers are
  words; \<open>int\<close> is \<^typ>\<open>int\<close> where the code cannot overflow it, with the place noted where it could.
  Strings are lists of bytes, and what the code uses of \<open>strings\<close>, \<open>unicode\<close>, \<open>utf8\<close>, \<open>base64\<close>,
  \<open>strconv\<close> and \<open>bufio\<close> is written out; doubles are rationals with rounding to nearest after each
  operation.  Time is a number of nanoseconds and an argument.  A critical section is one step;
  goroutines are interleaved as sequences of events of a step function.  Libraries (pion, Kafka,
  Redis, HTTP and WebSocket transport, JSON and YAML coding, libopus) are parameters.

  \<^bold>\<open>The parts\<close>, with the theory that models each:

  \<^item> \<open>Prelude\<close>: time, strings, lists, decimal numbers, runs of a step function, and the locale
    \<open>machine\<close>: what is kept by every step holds after every run.  \<open>Encoding\<close>: UTF-8 and base64.
    \<open>Float64\<close>: rounding to doubles, with the locale \<open>float_rounding\<close> of what the audio code uses.

  \<^item> \<open>Breaker\<close> (\<open>internal/modelcb/breaker.go\<close>): the circuit breakers of the providers.  The guard of
    each provider refines an abstract circuit; the threshold, the open time and the single probe of
    the half-open state are proved from it.

  \<^item> \<open>Transcript\<close> (\<open>internal/transcript\<close>, \<open>internal/identity\<close>): the bounded recorder, a refinement of
    the full log.  \<open>Model\<close> (\<open>internal/model\<close>): the values that cross the seam to a provider.

  \<^item> \<open>Sidechannel\<close> (\<open>internal/sidechannel\<close>): tap, Kafka publisher and replay client; every event is
    produced, dropped and counted, or still queued.  \<open>Replayindex\<close> (\<open>internal/replayindex\<close>, the
    endpoint of \<open>cmd/replay\<close>): the index of the lines, its bounds, and that a query returns exactly
    the retained lines.  \<open>Replayserver\<close> (the rest of \<open>cmd/replay\<close>): flags, the consumer loop, routes, the
    process as a machine.
    \<open>Recovery\<close> joins these with the recorder and the resolution of a reconnect.

  \<^item> \<open>Access\<close> (\<open>internal/auth\<close>, \<open>internal/ratelimit\<close>), \<open>Replay\<close> (\<open>internal/offer/replay.go\<close>) and \<open>Intake\<close>
    (the rest of \<open>internal/offer\<close>): from the HTTP request to the session, every refusal included.

  \<^item> \<open>Hub\<close> (\<open>internal/rtc\<close>: \<open>bridge.go\<close>, \<open>scope.go\<close>, \<open>archive.go\<close>): registry, archive, scopes, take-over on
    reconnect; the invariant \<open>hub_ok\<close> says who owns each model and connection.  \<open>Closeall\<close>: the graceful
    shutdown of the hub with all it waits for, the \<open>Close\<close> of a model that never returns included.  \<open>Pumps\<close>
    (the loops of \<open>bridge.go\<close>, \<open>internal/rtc/dcproto\<close>, \<open>internal/model/loopback\<close>): audio framing,
    accounting, messages of the data channel.  \<open>Bridge\<close>: the callbacks of a peer connection that
    start the pumps.  \<open>Metrics\<close> (\<open>internal/metrics\<close>): counters and histograms.

  \<^item> \<open>Audio\<close> (\<open>internal/audio\<close>, \<open>internal/model/pcm\<close>): PCM coding and the resampler; the locale
    \<open>byte_codec\<close> carries the fixed-width encodings.  \<open>Codec\<close> (\<open>internal/audio/opus.go\<close>): the encoder and
    the decoder around libopus, their reused buffers and the live complexity.  \<open>Mediapath\<close> composes pumps,
    codec and adapters: what the browser hears of a model, and what each provider's server reads out of
    the frames made from the microphone; the locale \<open>uplink\<close> is what the bridge relies on there.

  \<^item> \<open>Adapter\<close>: what the two speech-to-speech adapters share, buffered channels and the reader
    goroutine as a machine, with the locale \<open>message_handler\<close> for what a provider supplies.  \<open>Doubao\<close>
    and \<open>Doubaosession\<close> (\<open>internal/model/doubao\<close>), \<open>Gemini\<close> (\<open>internal/model/gemini\<close>): frames, set-up,
    messages, transcripts, barge-in.  \<open>Session\<close> puts adapter and bridge together: with a data channel the
    session keeps up with the server, without one it falls silent.

  \<^item> \<open>Cascadetext\<close> and \<open>Cascade\<close> (\<open>internal/model/cascade\<close>): the similarity of utterances, the
    orchestration loop with its speculative turns, the generations, barge-in, closing, the audio
    source.  \<open>Cascadelines\<close>: the bounded transcript channel of the cascade, which loses nothing under any schedule
    of its reader, and what happens to a call in which nobody reads.  \<open>Stages\<close> (its subpackages): streamed
    speech, WAV files, server-sent events, recognition messages.  \<open>Stageloops\<close>: their requests, and their goroutines with the cancellation of a barge-in.

  \<^item> \<open>Adaptive\<close> (\<open>internal/adaptive\<close>): the two controllers of the encoder complexity.  \<open>Proxyconfig\<close>
    (\<open>cmd/proxy\<close>): environment file, flags, configuration file, their precedence, and the order of
    shutdown.  \<open>Proxyprocess\<close> (\<open>cmd/proxy/root.go\<close>): how the process wires the parts together, its
    routes, the admin server, the process as a machine, and \<open>main\<close> with what a started proxy runs with.
    \<open>Outage\<close> follows the failed dials of requests into the breaker and back to the answers of later ones.

  \<^item> \<open>Loadgen\<close> (\<open>cmd/loadgen\<close>): the program, the schedule of its sessions, their counters and reports.

  \<^bold>\<open>How they interact.\<close>  \<open>ServeOffer\<close> of \<open>Intake\<close> asks the limiter, the authenticator, the guard, the
  resolution of a replay and the hub in turn; \<open>Serve\<close> of \<open>Hub\<close> takes the model over and starts the
  pumps; a line goes from the adapter through \<open>forwardTranscripts\<close> to the recorder, whose listener is
  the tap, and from there to Kafka, the index and, on a reconnect, back through the replay client.
  This theory proves that last path as a whole.

  \<^bold>\<open>Bounds and fuel.\<close>  Loops are structural recursion, or functions with a proved measure
  (\<open>drain_buf\<close>, \<open>full_frames\<close>, \<open>wav_walk\<close>, \<open>dec_all\<close>).  Only \<open>drainAudioQueue\<close>, which may run for ever, has
  fuel: on an open channel one more than the items is enough (\<open>drain_open\<close>), on a closed one none is.  Hypotheses on sizes are those
  within which Go's \<open>int\<close> and the doubles are exact, and are far above what a session can reach.

  \<^bold>\<open>Not modelled.\<close>  \<open>event.pb.go\<close> is generated, and logging and the profiling endpoint have no effect on
  the rest.  The libraries named above are parameters.  The memory the programs allocate (except for the
  panic of \<open>Query\<close>, \<open>Query_panics\<close>) and data races (each critical section is one step) are left out, as are the goroutine that drains the RTCP of a sender
  and the \<open>HandleInterrupted\<close> of the cascade, which the bridge never reaches (\<open>monitor_of_cascade\<close>).
\<close>

section \<open>A session recovered on another node\<close>

text \<open>
  C1: A line that was recorded comes back.  A session of an authenticated user records lines, its tap
  publishes them, the topic delivers every record at least once and in any order to the index, and the
  client reconnects to a node that does not know the session: the node resolves the reconnect to
  exactly the lines after the client's last sequence number, in order, once each, with their roles and
  texts, within the window of the index and the replay limit; its numbering goes on after the last of
  them, the session keeps its id and no other session is touched.  When there is no such line the
  client gets a fresh session.  The hypotheses are those under which nothing is lost on the way: a
  publisher that dropped nothing, codings that invert each other, an index that evicted nothing, an
  answer in time.
\<close>

theorem cross_node_recovery:
  fixes startSeq :: u64 and initial :: "line list" and histLimit :: nat and meta :: session_meta
    and ws :: "(string \<times> string) list" and unmarshal :: "bytes \<Rightarrow> transcript_event option"
    and ps :: "poll list" and ixcfg :: index_config and cfg :: replay_config and headers :: replay_headers
  defines "sid \<equiv> rh_SessionID headers"
  defines "r \<equiv> NewRecorder startSeq initial histLimit meta (Some (Tap (Some KafkaPublisher) meta))"
  defines "s \<equiv> consume unmarshal ps (NewStore ixcfg)"
  defines "missed \<equiv> take (if rp_Limit cfg \<le> 0 then 256 else nat (rp_Limit cfg))
    (filter (\<lambda>ln. rh_LastSeq headers < ln_Seq ln)
      (keep_last (nat (ic_MaxLinesPerSess (ix_cfg s))) (fst (collect record_line r ws))))"
  assumes "meta = \<lparr>sm_SessionID = sid, sm_UserID = uid, sm_Provider = provider\<rparr>"
    and "\<forall>w \<in> set ws. fst w \<in> {''user'', ''model''}" and "length stamps = length ws"
    and "unat startSeq + length ws < 2 ^ 64"
    and "filter (\<lambda>ev. ev_SessionId ev = sid) (published es) = session_events r ws stamps"
    and "topic_delivers marshal unmarshal es ps"
    and "no_eviction (ix_cfg s) from_time (map (ingest_of unmarshal) (delivered ps))"
    and "now \<le> from_time + ic_SessionTTL (ix_cfg s)"
    and "\<forall>ev \<in> set (session_events r ws stamps). \<exists>b. encode ev = Some b \<and> decode b = Some ev"
    and "base \<noteq> ''''" and "sid \<noteq> ''''" and "\<not> Anonymous uid"
    and "trim_space sid = sid" and "trim_space uid = uid" and "trim_space provider = provider"
    and "rh_Requested headers" and "\<not> rh_Incomplete headers" and "rp_Enabled cfg" and "rp_Limit cfg < 2 ^ 63"
    and "SessionState clock sid uid h = None"
  shows "\<exists>obs. Hub_ResolveReplay clock (Some (client_replayer (served encode decode s now) deadline (Some base)))
      took cfg fresh provider uid headers h =
    (Inr (if missed = []
          then \<lparr>ro_SessionID = fresh, ro_StartSeq = 0, ro_InitialHistory = [], ro_ReplayLines = [],
                ro_Status = StatusMiss\<rparr>
          else \<lparr>ro_SessionID = sid, ro_StartSeq = ln_Seq (last missed), ro_InitialHistory = missed,
                ro_ReplayLines = missed, ro_Status = StatusIndexHit\<rparr>), obs, h)"
proof -
  define sent where "sent = session_events r ws stamps"
  define evs where "evs = take (if rp_Limit cfg \<le> 0 then 256 else nat (rp_Limit cfg))
    (filter (\<lambda>ev. rh_LastSeq headers < ev_Seq ev) (keep_last (nat (ic_MaxLinesPerSess (ix_cfg s))) sent))"
  have s_eq: "s = consume unmarshal ps (NewStore ixcfg)" by (simp add: s_def)
  have listener: "rc_listener r = Listener \<lparr>tp_pub = KafkaPublisher, tp_meta = meta\<rparr>"
    and meta: "rc_meta r = meta" and seq: "rc_seq r = startSeq"
    by (simp_all add: r_def NewRecorder_def Tap_def)
  note facts = session_events_facts[OF listener assms(7), folded sent_def]
  have sorted: "seq_sorted sent"
    using session_events_sorted[OF listener assms(7)] assms(8) by (simp add: sent_def seq)
  have ids: "\<forall>ev \<in> set sent. ev_UserId ev = uid \<and> ev_Provider ev = provider"
    using facts(3) by (simp add: meta assms(5))
  have query: "Query s now sid uid provider (rh_LastSeq headers) (rp_Limit cfg) = evs"
    unfolding evs_def sent_def
    by (rule query_delivered[OF assms(10,15) _ assms(9) _ _ s_eq assms(11,12)])
      (use assms(16) sorted ids in \<open>simp_all add: Anonymous_def sent_def\<close>)
  have window: "ev \<in> set sent \<and> rh_LastSeq headers < ev_Seq ev" if "ev \<in> set evs" for ev
    using set_window that unfolding evs_def by fast
  then have "\<forall>ev \<in> set evs. \<exists>b. encode ev = Some b \<and> decode b = Some ev"
    using assms(13) by (metis sent_def)
  then have "ReplayClient_Replay (served encode decode s now) (Some base) sid uid provider
      (rh_LastSeq headers) (rp_Limit cfg) = Inr evs"
    using replay_client_roundtrip[OF assms(14-19) assms(23)] query by simp
  then have answer: "client_replayer (served encode decode s now) deadline (Some base)
      (rh_SessionID headers) uid provider (rh_LastSeq headers) (rp_Limit cfg) = IndexEvents evs"
    by (simp add: client_replayer_def sid_def)
  have missed: "map LineFromEvent evs = missed"
    unfolding evs_def lines_window facts(2)[OF assms(6)] missed_def by (rule refl)
  have start: "max_seq (rh_LastSeq headers) evs = ln_Seq (last missed)" if "evs \<noteq> []"
  proof -
    have "seq_sorted evs" unfolding evs_def by (rule seq_sorted_window[OF sorted])
    then have "max_seq (rh_LastSeq headers) evs = ev_Seq (last evs)"
      using window by (intro max_seq_sorted[OF _ that]) blast+
    then show ?thesis using that by (simp add: last_map LineFromEvent_def flip: missed)
  qed
  show ?thesis
    unfolding resolve_from_index[OF assms(24)[unfolded sid_def] assms(20,21,16,22),
        where replay = "client_replayer (served encode decode s now) deadline (Some base)", OF answer]
    using start by (auto simp: missed[symmetric] sid_def)
qed

theorem cross_node_recovery_witness:
  "\<exists>obs. Hub_ResolveReplay 4
      (Some (client_replayer
        (served (\<lambda>ev. Some (if ev_Seq ev = 1 then ''1'' else ''2'')) (\<lambda>b. if b = ''1'' then Some event1 else Some event2)
          (consume demo_unmarshal dialogue_polls (NewStore dialogue_index)) 9) (\<lambda>_. False) (Some ''http://r'')))
      (0, 0) \<lparr>rp_Enabled = True, rp_Timeout = 300, rp_Limit = 100\<rparr> ''new'' ''gemini'' ''u'' dialogue_headers
      (NewHub :: unit hub) =
    (Inr \<lparr>ro_SessionID = ''s'', ro_StartSeq = 2,
          ro_InitialHistory = [\<lparr>ln_Seq = 2, ln_Role = ''model'', ln_Text = ''hello''\<rparr>],
          ro_ReplayLines = [\<lparr>ln_Seq = 2, ln_Role = ''model'', ln_Text = ''hello''\<rparr>],
          ro_Status = StatusIndexHit\<rparr>, obs, NewHub)"
proof -
  let ?s = "consume demo_unmarshal dialogue_polls (NewStore dialogue_index)"
  let ?encode = "\<lambda>ev. Some (if ev_Seq ev = 1 then ''1'' else ''2'')"
  let ?decode = "\<lambda>b. if b = ''1'' then Some event1 else Some event2"
  let ?cfg = "\<lparr>rp_Enabled = True, rp_Timeout = 300, rp_Limit = 100\<rparr>"
  have cfg: "ix_cfg ?s = dialogue_index"
    by (simp only: consume_run index_bounded_cfg dialogue_index_cfg)
  have sid: "rh_SessionID dialogue_headers = ''s''" "rh_LastSeq dialogue_headers = 1"
    "rh_Requested dialogue_headers" "\<not> rh_Incomplete dialogue_headers"
    by (simp_all add: dialogue_headers_def)
  note R = cross_node_recovery[where headers = dialogue_headers and ws = dialogue and startSeq = 0
    and initial = "[]" and histLimit = 256 and meta = dialogue_meta, folded dialogue_recorder_def, unfolded sid]
  have index: "ic_MaxLinesPerSess dialogue_index = 8" "ic_SessionTTL dialogue_index = 100"
    by (simp_all add: dialogue_index_def)
  have turns: "\<forall>w \<in> set dialogue. fst w \<in> {''user'', ''model''}" "length dialogue = 2"
    by (simp_all add: dialogue_def)
  show ?thesis
    using R[where unmarshal = demo_unmarshal and ps = dialogue_polls and ixcfg = dialogue_index and cfg = ?cfg
        and uid = "''u''" and provider = "''gemini''" and stamps = "[(''hi'', 7), (''hello'', 7)]"
        and es = "[Publish event1, Publish event2, Drain, Drain]" and marshal = demo_marshal and from_time = 0 and now = 9
        and encode = ?encode and decode = ?decode and base = "''http://r''" and clock = 4 and h = "NewHub :: unit hub"
        and deadline = "\<lambda>_. False" and took = "(0, 0)" and fresh = "''new''",
        OF dialogue_meta_def _ _ _ _ dialogue_topic _ _ _ _ _ _ dialogue_names sid(3,4) _ _ empty_hub_state]
    unfolding cfg dialogue_events dialogue_lines index turns(2)
    using dialogue_kept turns(1) by (simp add: Anonymous_def)
qed

end
